(* ===== verification/Proto.thy ===== *)
theory Proto
  imports Prelude
begin

text \<open>
  The wire protocol (\<open>src/proto/src/lib.rs\<close>): the message types, the tagged and
  optionally compressed message encoding, the length-prefixed frames of the QUIC stream,
  and the \<open>FrameDecoder\<close> that reassembles them.

  The serializer (\<open>postcard\<close>) and the compressor (\<open>zstd\<close>) are libraries the crate
  only calls; their functions and their error values are arguments of the definitions
  that use them.  What the code relies on is their documented round trip:
  \<open>from_bytes\<close> inverts \<open>to_stdvec\<close>, and \<open>decompress\<close> inverts \<open>compress\<close> for any
  capacity that holds the result.
\<close>

section \<open>Messages\<close>

record Hello =
  hello_token :: string
  client_name :: string
  client_version :: string

record Welcome =
  welcome_user :: string
  server_version :: string

datatype ExecRequest =
    Exec (exec_command: string) (exec_resumable: bool) (exec_forward_agent: bool)
  | Resume (req_resume_token: string) (req_last_seq_seen: u64)
  | AgentChannel (agent_resume_token: string)

datatype ChannelMessage =
    Started "string option"
  | Denied string
  | Stdin u64 bytes
  | StdinEof u64
  | Stdout u64 bytes
  | Stderr u64 bytes
  | Exit u64 int
  | Ack u64
  | AgentOpen u64
  | AgentData u64 bytes
  | AgentClose u64

definition PROTOCOL :: string where
  "PROTOCOL = ''herdr-eternal/2''"

section \<open>Encoding a message\<close>

datatype ('pe, 'ze) ProtocolError =
    EncodeError 'pe
  | DecodeError 'pe
  | DecompressError 'ze
  | UnknownEncoding u8

definition ENC_RAW :: u8 where "ENC_RAW = 0"
definition ENC_ZSTD :: u8 where "ENC_ZSTD = 1"
definition COMPRESS_MIN :: nat where "COMPRESS_MIN = 64"
definition MAX_FRAME :: nat where "MAX_FRAME = 1024 * 1024"

text \<open>The library functions of one message type: \<open>postcard\<close> at that type, and \<open>zstd\<close>.\<close>

record ('pe, 'ze, 't) codec =
  to_stdvec :: "'t \<Rightarrow> 'pe + bytes"
  from_bytes :: "bytes \<Rightarrow> 'pe + 't"
  unexpected_end :: 'pe
  compress :: "bytes \<Rightarrow> nat \<Rightarrow> 'ze + bytes"
  decompress :: "bytes \<Rightarrow> nat \<Rightarrow> 'ze + bytes"

definition encode_payload :: "('pe, 'ze, 't) codec \<Rightarrow> bytes \<Rightarrow> u8 \<times> bytes" where
  "encode_payload lib body =
     (if COMPRESS_MIN \<le> length body
      then (case compress lib body 3 of
              Inr compressed \<Rightarrow>
                if length compressed < length body then (ENC_ZSTD, compressed)
                else (ENC_RAW, body)
            | Inl _ \<Rightarrow> (ENC_RAW, body))
      else (ENC_RAW, body))"

definition encode :: "('pe, 'ze, 't) codec \<Rightarrow> 't \<Rightarrow> ('pe, 'ze) ProtocolError + bytes" where
  "encode lib msg =
     and_then (map_err EncodeError (to_stdvec lib msg))
       (\<lambda>body. case encode_payload lib body of (tag, payload) \<Rightarrow> Inr (tag # payload))"

fun decode :: "('pe, 'ze, 't) codec \<Rightarrow> bytes \<Rightarrow> ('pe, 'ze) ProtocolError + 't" where
  "decode lib [] = Inl (DecodeError (unexpected_end lib))"
| "decode lib (tag # body) =
     (if tag = ENC_RAW then map_err DecodeError (from_bytes lib body)
      else if tag = ENC_ZSTD then
        and_then (map_err DecompressError (decompress lib body MAX_FRAME))
          (\<lambda>body. map_err DecodeError (from_bytes lib body))
      else Inl (UnknownEncoding tag))"

section \<open>Unreliable duplicates\<close>

fun worth_duplicating :: "ChannelMessage \<Rightarrow> bool" where
  "worth_duplicating (Stdin _ data) = (length data \<le> 512)"
| "worth_duplicating (Stdout _ data) = (length data \<le> 512)"
| "worth_duplicating (Stderr _ data) = (length data \<le> 512)"
| "worth_duplicating _ = False"

definition DUPLICATE_DELAY :: millis where "DUPLICATE_DELAY = 3"

section \<open>Frames of a byte stream\<close>

text \<open>\<open>body.len() as u32\<close> truncates; \<open>of_nat\<close> into a 32-bit word does the same.\<close>

definition frame_of :: "bytes \<Rightarrow> bytes" where
  "frame_of body = to_be_bytes (of_nat (length body)) @ body"

definition encode_frame :: "('pe, 'ze, 't) codec \<Rightarrow> 't \<Rightarrow> ('pe, 'ze) ProtocolError + bytes" where
  "encode_frame lib msg = and_then (encode lib msg) (\<lambda>body. Inr (frame_of body))"

datatype OversizedFrame = OversizedFrame nat

record FrameDecoder =
  buf :: bytes

definition FrameDecoder_new :: FrameDecoder where
  "FrameDecoder_new = \<lparr>buf = []\<rparr>"

definition decoder_push :: "FrameDecoder \<Rightarrow> bytes \<Rightarrow> FrameDecoder" where
  "decoder_push d bs = d\<lparr>buf := buf d @ bs\<rparr>"

definition next_frame :: "FrameDecoder \<Rightarrow> (OversizedFrame + bytes option) \<times> FrameDecoder" where
  "next_frame d =
     (if length (buf d) < 4 then (Inr None, d)
      else let len = unat (from_be_bytes (take 4 (buf d)))
        in if MAX_FRAME < len then (Inl (OversizedFrame len), d)
           else if length (buf d) < 4 + len then (Inr None, d)
           else (Inr (Some (drop 4 (take (4 + len) (buf d)))),
                 d\<lparr>buf := drop (4 + len) (buf d)\<rparr>))"

text \<open>
  The reading loop of both endpoints, \<open>while let Some(frame) = decoder.next_frame()\<close>: pop
  frames until none is complete or one is oversized.
\<close>

function drain :: "FrameDecoder \<Rightarrow> bytes list \<times> (OversizedFrame option) \<times> FrameDecoder" where
  "drain d =
     (case next_frame d of
        (Inl e, d') \<Rightarrow> ([], Some e, d')
      | (Inr None, d') \<Rightarrow> ([], None, d')
      | (Inr (Some f), d') \<Rightarrow> (case drain d' of (fs, e, d'') \<Rightarrow> (f # fs, e, d'')))"
  by pat_completeness auto
termination
  by (relation "measure (\<lambda>d. length (buf d))")
     (auto simp: next_frame_def Let_def split: if_splits)

declare drain.simps [simp del]

text \<open>Chunks arriving from the stream, each pushed and then drained.\<close>

fun feed :: "FrameDecoder \<Rightarrow> bytes list \<Rightarrow> bytes list \<times> (OversizedFrame option) \<times> FrameDecoder" where
  "feed d [] = ([], None, d)"
| "feed d (c # cs) =
     (case drain (decoder_push d c) of
        (fs, Some e, d') \<Rightarrow> (fs, Some e, d')
      | (fs, None, d') \<Rightarrow> (case feed d' cs of (fs', e, d'') \<Rightarrow> (fs @ fs', e, d'')))"

section \<open>Correctness of the message encoding\<close>

text \<open>What the crate relies on from its two libraries, for one message.\<close>

definition codec_ok :: "('pe, 'ze, 't) codec \<Rightarrow> 't \<Rightarrow> bool" where
  "codec_ok lib msg \<longleftrightarrow>
     (\<forall>body. to_stdvec lib msg = Inr body \<longrightarrow>
        from_bytes lib body = Inr msg \<and>
        (\<forall>lvl z cap. compress lib body lvl = Inr z \<longrightarrow> length body \<le> cap \<longrightarrow>
           decompress lib z cap = Inr body))"

lemma encode_payload_cases:
  obtains (raw) "encode_payload lib body = (ENC_RAW, body)"
  | (zstd) z where "encode_payload lib body = (ENC_ZSTD, z)" "compress lib body 3 = Inr z"
      "length z < length body" "COMPRESS_MIN \<le> length body"
  by (cases "compress lib body 3"; cases "COMPRESS_MIN \<le> length body";
      cases "length (projr (compress lib body 3)) < length body")
     (auto simp: encode_payload_def)

lemma enc_tags_distinct [simp]: "ENC_ZSTD \<noteq> ENC_RAW" "ENC_RAW \<noteq> ENC_ZSTD"
  by (simp_all add: ENC_RAW_def ENC_ZSTD_def)

section \<open>Correctness of the frame decoder\<close>

lemma next_frame_length:
  "next_frame d = (Inr (Some f), d') \<Longrightarrow> length (buf d') + 4 + length f = length (buf d)"
  by (auto simp: next_frame_def Let_def split: if_splits)

text \<open>More bytes at the end change neither a complete frame nor an oversized header.\<close>

lemma next_frame_push:
  assumes "next_frame d = (Inr (Some f), d')"
  shows "next_frame (decoder_push d c) = (Inr (Some f), decoder_push d' c)"
  using assms by (auto simp: next_frame_def decoder_push_def Let_def split: if_splits)

lemma next_frame_push_error:
  assumes "next_frame d = (Inl e, d')"
  shows "d' = d" "next_frame (decoder_push d c) = (Inl e, decoder_push d c)"
  using assms by (auto simp: next_frame_def decoder_push_def Let_def split: if_splits)

lemma next_frame_None: "next_frame d = (Inr None, d') \<Longrightarrow> d' = d"
  by (auto simp: next_frame_def Let_def split: if_splits)

lemma decoder_push_simps [simp]:
  "buf (decoder_push d c) = buf d @ c" "decoder_push d [] = d"
  "decoder_push (decoder_push d c) c' = decoder_push d (c @ c')"
  by (simp_all add: decoder_push_def)

lemma drain_push:
  "drain d = (fs, None, d') \<Longrightarrow>
   drain (decoder_push d c) =
     (case drain (decoder_push d' c) of (fs', e, d'') \<Rightarrow> (fs @ fs', e, d''))"
proof (induction d arbitrary: fs d' rule: drain.induct)
  case (1 d)
  obtain r d1 where nf: "next_frame d = (r, d1)" by force
  show ?case
  proof (cases r)
    case (Inl e)
    with nf "1.prems" show ?thesis by (simp add: drain.simps [of d])
  next
    case r: (Inr o')
    show ?thesis
    proof (cases o')
      case None
      with nf r "1.prems" next_frame_None show ?thesis
        by (fastforce simp: drain.simps [of d] split: prod.splits)
    next
      case (Some f)
      with nf r "1.prems" obtain fs1 where d1: "drain d1 = (fs1, None, d')" and fs: "fs = f # fs1"
        by (auto simp: drain.simps [of d] split: prod.splits)
      have "drain (decoder_push d1 c) =
          (case drain (decoder_push d' c) of (fs', e, d'') \<Rightarrow> (fs1 @ fs', e, d''))"
        by (rule "1.IH" [OF nf [symmetric] r Some d1])
      with nf r Some fs show ?thesis
        by (simp add: drain.simps [of "decoder_push d c"] next_frame_push split: prod.splits)
    qed
  qed
qed

lemma drain_push_error:
  "drain d = (fs, Some e, d') \<Longrightarrow> drain (decoder_push d c) = (fs, Some e, decoder_push d' c)"
proof (induction d arbitrary: fs d' rule: drain.induct)
  case (1 d)
  obtain r d1 where nf: "next_frame d = (r, d1)" by force
  show ?case
  proof (cases r)
    case (Inl e')
    with nf "1.prems" next_frame_push_error(1) [of d e' d1]
      next_frame_push_error(2) [of d e' d1 c] show ?thesis
      by (auto simp: drain.simps [of d] drain.simps [of "decoder_push d c"])
  next
    case r: (Inr o')
    with nf "1.prems" obtain f where Some: "o' = Some f"
      by (cases o') (auto simp: drain.simps [of d])
    with nf r "1.prems" obtain fs1 where d1: "drain d1 = (fs1, Some e, d')" and fs: "fs = f # fs1"
      by (auto simp: drain.simps [of d] split: prod.splits)
    have "drain (decoder_push d1 c) = (fs1, Some e, decoder_push d' c)"
      by (rule "1.IH" [OF nf [symmetric] r Some d1])
    with nf r Some fs show ?thesis
      by (simp add: drain.simps [of "decoder_push d c"] next_frame_push)
  qed
qed

text \<open>A drained decoder has no complete frame left.\<close>

lemma drain_idem: "drain d = (fs, None, d') \<Longrightarrow> drain d' = ([], None, d')"
proof (induction d arbitrary: fs rule: drain.induct)
  case (1 d)
  obtain r d1 where nf: "next_frame d = (r, d1)" by force
  consider (err) e where "r = Inl e" | (stop) "r = Inr None" | (frame) f where "r = Inr (Some f)"
    by (cases r) (auto intro: option.exhaust)
  then show ?case
  proof cases
    case err
    with nf "1.prems" show ?thesis by (simp add: drain.simps [of d])
  next
    case stop
    with nf "1.prems" next_frame_None show ?thesis by (fastforce simp: drain.simps [of d])
  next
    case frame
    with nf "1.prems" obtain fs1 where "drain d1 = (fs1, None, d')"
      by (auto simp: drain.simps [of d] split: prod.splits)
    then show ?thesis by (rule "1.IH" [OF nf [symmetric] frame refl])
  qed
qed

text \<open>
  Feeding a stream in pieces is the same as draining it in one piece: the same frames and
  the same verdict, whatever the boundaries.
\<close>

lemma feed_drain:
  assumes "drain d = ([], None, d)" and "feed d cs = (fs, e, d')"
  shows "\<exists>d''. drain (decoder_push d (concat cs)) = (fs, e, d'') \<and> (e = None \<longrightarrow> d'' = d')"
  using assms
proof (induction cs arbitrary: d fs)
  case Nil
  then show ?case by simp
next
  case (Cons c cs)
  obtain fs1 e1 d1 where dr: "drain (decoder_push d c) = (fs1, e1, d1)"
    by (metis prod_cases3)
  show ?case
  proof (cases e1)
    case (Some x)
    with dr Cons.prems drain_push_error [OF dr [unfolded Some], of "concat cs"] show ?thesis
      by auto
  next
    case None
    obtain fs2 where f2: "feed d1 cs = (fs2, e, d')" and fs: "fs = fs1 @ fs2"
      using Cons.prems(2) dr None by (auto split: prod.splits)
    obtain d'' where "drain (decoder_push d1 (concat cs)) = (fs2, e, d'')" "e = None \<longrightarrow> d'' = d'"
      using Cons.IH [OF drain_idem [OF dr [unfolded None]] f2] by blast
    with drain_push [OF dr [unfolded None], of "concat cs"] fs show ?thesis by auto
  qed
qed

lemma next_frame_frame_of:
  assumes "length body \<le> MAX_FRAME"
  shows "next_frame \<lparr>buf = frame_of body @ rest\<rparr> = (Inr (Some body), \<lparr>buf = rest\<rparr>)"
proof -
  have "unat (of_nat (length body) :: u32) = length body"
    using assms by (simp add: unat_of_nat MAX_FRAME_def)
  with assms show ?thesis by (simp add: next_frame_def frame_of_def Let_def)
qed

lemma feed_drained: "drain d = ([], None, d) \<Longrightarrow> feed d cs = (fs, None, d') \<Longrightarrow> drain d' = ([], None, d')"
proof (induction cs arbitrary: d fs)
  case (Cons c cs)
  obtain fs1 e1 d1 where dr: "drain (decoder_push d c) = (fs1, e1, d1)" by (metis prod_cases3)
  with Cons.prems(2) obtain fs2 where "e1 = None" "feed d1 cs = (fs2, None, d')" by (auto split: option.splits prod.splits)
  with dr Cons.IH drain_idem show ?case by blast
qed simp

lemma drained_bound: "drain d = ([], None, d) \<Longrightarrow> length (buf d) < 4 + MAX_FRAME"
proof -
  assume "drain d = ([], None, d)"
  then obtain d' where "next_frame d = (Inr None, d')"
    by (auto simp: drain.simps [of d] split: sum.splits option.splits prod.splits)
  then show ?thesis by (auto simp: next_frame_def Let_def MAX_FRAME_def split: if_splits)
qed

lemma next_frame_shrinks: "length (buf (snd (next_frame d))) \<le> length (buf d)"
  by (simp add: next_frame_def Let_def)

lemma drain_shrinks: "drain d = (fs, e, d') \<Longrightarrow> length (buf d') \<le> length (buf d)"
proof (induction d arbitrary: fs rule: drain.induct)
  case (1 d)
  obtain r d1 where nf: "next_frame d = (r, d1)" by force
  with next_frame_shrinks [of d] have le: "length (buf d1) \<le> length (buf d)" by simp
  show ?case
  proof (cases "\<exists>f. r = Inr (Some f)")
    case True
    with nf "1.prems" obtain f fs1 where "r = Inr (Some f)" "drain d1 = (fs1, e, d')"
      by (auto simp: drain.simps [of d] split: prod.splits)
    with "1.IH" nf le show ?thesis by fastforce
  next
    case False
    with nf "1.prems" le show ?thesis by (auto simp: drain.simps [of d] split: sum.splits option.splits)
  qed
qed

lemma drain_empty: "drain FrameDecoder_new = ([], None, FrameDecoder_new)"
  by (simp add: drain.simps next_frame_def FrameDecoder_new_def)

lemma drain_frames:
  assumes "\<forall>b\<in>set bodies. length b \<le> MAX_FRAME"
  shows "drain \<lparr>buf = concat (map frame_of bodies)\<rparr> = (bodies, None, FrameDecoder_new)"
  using assms
proof (induction bodies)
  case Nil
  then show ?case using drain_empty by (simp add: FrameDecoder_new_def)
next
  case (Cons b bs)
  then show ?case
    by (simp add: drain.simps [of "\<lparr>buf = frame_of b @ concat (map frame_of bs)\<rparr>"]
        next_frame_frame_of)
qed

lemma feed_new_drain:
  assumes "feed FrameDecoder_new cs = (fs, e, d)"
  shows "\<exists>d'. drain \<lparr>buf = concat cs\<rparr> = (fs, e, d') \<and> (e = None \<longrightarrow> d' = d)"
  using feed_drain [OF drain_empty assms]
  by (simp add: FrameDecoder_new_def decoder_push_def)

lemma feed_append:
  "feed d (cs @ cs') =
     (case feed d cs of
        (fs, Some e, d') \<Rightarrow> (fs, Some e, d')
      | (fs, None, d') \<Rightarrow> (case feed d' cs' of (fs', e, d'') \<Rightarrow> (fs @ fs', e, d'')))"
  by (induction cs arbitrary: d) (auto split: prod.splits option.splits)

lemma feed_frames_new:
  assumes "\<forall>b\<in>set bodies. length b \<le> MAX_FRAME"
    and "concat cs = concat (map frame_of bodies)"
  shows "feed FrameDecoder_new cs = (bodies, None, FrameDecoder_new)"
proof -
  obtain fs e d where f: "feed FrameDecoder_new cs = (fs, e, d)" by (metis prod_cases3)
  with feed_new_drain [OF f] drain_frames [OF assms(1)] assms(2) show ?thesis by auto
qed

section \<open>Properties of the protocol crate\<close>

text \<open>
  C24: Every message the serializer accepts, with a body of at most \<open>MAX_FRAME\<close> bytes, survives the wire: \<open>encode\<close> succeeds, adds at
  most the one tag byte, and \<open>decode\<close> returns exactly the message, whether or not the
  body was compressed.
\<close>
theorem encode_decode_roundtrip:
  assumes "codec_ok lib msg" and "to_stdvec lib msg = Inr body" and "length body \<le> MAX_FRAME"
  shows "\<exists>bs. encode lib msg = Inr bs \<and> decode lib bs = Inr msg \<and> length bs \<le> length body + 1"
  using assms
  by (cases lib body rule: encode_payload_cases) (auto simp: encode_def codec_ok_def)

text \<open>A concrete codec: bytes are their own serialization, and the compressor replaces a run
  of equal bytes by its length and its value.\<close>

definition run_codec :: "(unit, unit, bytes) codec" where
  "run_codec =
     \<lparr>to_stdvec = Inr, from_bytes = Inr, unexpected_end = (),
      compress = (\<lambda>bs _. case bs of
          b # _ \<Rightarrow> if list_all (\<lambda>c. c = b) bs \<and> length bs < 256
                   then Inr [of_nat (length bs), b] else Inl ()
        | [] \<Rightarrow> Inl ()),
      decompress = (\<lambda>z cap. case z of
          [n, b] \<Rightarrow> if unat n \<le> cap then Inr (replicate (unat n) b) else Inl ()
        | _ \<Rightarrow> Inl ())\<rparr>"

lemma all_equal_replicate: "list_all (\<lambda>c. c = b) bs \<Longrightarrow> bs = replicate (length bs) b"
  by (induction bs) auto

lemma unat_u8_of_nat: "n < 256 \<Longrightarrow> unat (of_nat n :: u8) = n"
  by (simp add: unat_of_nat)

lemma run_codec_ok: "codec_ok run_codec msg"
proof (cases msg)
  case Nil
  then show ?thesis by (simp add: codec_ok_def run_codec_def)
next
  case (Cons b bs)
  then show ?thesis
    using all_equal_replicate [of b msg] unat_u8_of_nat [of "length msg"]
    by (auto simp: codec_ok_def run_codec_def simp del: of_nat_Suc split: if_splits)
qed

theorem encode_decode_roundtrip_witness:
  "codec_ok run_codec (replicate 70 7)
   \<and> (\<exists>bs. encode run_codec (replicate 70 7) = Inr bs
         \<and> decode run_codec bs = Inr (replicate 70 7) \<and> length bs \<le> 71)
   \<and> encode run_codec (replicate 70 7) = Inr [ENC_ZSTD, 70, 7]"
proof (intro conjI)
  show ok: "codec_ok run_codec (replicate 70 7)" by (rule run_codec_ok)
  have "to_stdvec run_codec (replicate 70 7) = Inr (replicate 70 7)"
    by (simp add: run_codec_def)
  from encode_decode_roundtrip [OF ok this]
  show "\<exists>bs. encode run_codec (replicate 70 7) = Inr bs
         \<and> decode run_codec bs = Inr (replicate 70 7) \<and> length bs \<le> 71"
    by (simp add: MAX_FRAME_def)
  show "encode run_codec (replicate 70 7) = Inr [ENC_ZSTD, 70, 7]"
    by (simp add: encode_def encode_payload_def run_codec_def COMPRESS_MIN_def numeral_eq_Suc)
qed

text \<open>
  C25: The decoder is cancel-safe.  It does not matter how a byte stream is cut into the pieces that are read, in the
  middle of a length prefix or of a body: whatever the bytes are, any two ways to cut them, one of them
  all at once, give the same frames and the same error if a length is too large, and without an error the
  same bytes are left in the buffer.
\<close>
theorem decoder_cancel_safe:
  assumes "concat cs = concat cs'" and "feed FrameDecoder_new cs = (fs, e, d)"
  shows "\<exists>d'. feed FrameDecoder_new cs' = (fs, e, d') \<and> (e = None \<longrightarrow> d' = d)"
proof -
  obtain fs' e' d' where f: "feed FrameDecoder_new cs' = (fs', e', d')" by (metis prod_cases3)
  obtain d1 where d1: "drain \<lparr>buf = concat cs\<rparr> = (fs, e, d1)" "e = None \<longrightarrow> d1 = d" using feed_new_drain [OF assms(2)] by blast
  obtain d2 where d2: "drain \<lparr>buf = concat cs'\<rparr> = (fs', e', d2)" "e' = None \<longrightarrow> d2 = d'" using feed_new_drain [OF f] by blast
  from d1 d2 f assms(1) show ?thesis by auto
qed

theorem decoder_cancel_safe_witness:
  "\<exists>d. feed FrameDecoder_new [[0, 0, 0, 1, 7, 0, 0]] = ([[7]], None, d) \<and> buf d = [0, 0]
     \<and> feed FrameDecoder_new [[0, 0, 0], [1], [7, 0], [0]] = ([[7]], None, d)"
proof -
  have once: "feed FrameDecoder_new [[0, 0, 0, 1, 7, 0, 0]] = ([[7]], None, \<lparr>buf = [0, 0]\<rparr>)"
    by (simp add: FrameDecoder_new_def decoder_push_def drain.simps next_frame_def from_be_bytes_def MAX_FRAME_def)
  from decoder_cancel_safe [OF _ once, of "[[0, 0, 0], [1], [7, 0], [0]]"] once show ?thesis by auto
qed

text \<open>
  In particular a stream of frames may be cut anywhere: the decoder has handed out exactly the frames that are complete,
  and the rest yields exactly the others and leaves nothing buffered.
\<close>
theorem decoder_resumes_in_frame:
  assumes "\<forall>b\<in>set bodies. length b \<le> MAX_FRAME"
    and "concat cs @ rest = concat (map frame_of bodies)"
  shows "\<exists>k d. feed FrameDecoder_new cs = (take k bodies, None, d)
           \<and> feed d [rest] = (drop k bodies, None, FrameDecoder_new)"
proof -
  obtain fs e d where f: "feed FrameDecoder_new cs = (fs, e, d)" by (metis prod_cases3)
  have "feed FrameDecoder_new (cs @ [rest]) = (bodies, None, FrameDecoder_new)"
    by (rule feed_frames_new [OF assms(1)]) (simp add: assms(2))
  moreover from this f have "e = None" by (auto simp: feed_append split: option.splits)
  ultimately obtain fs' where "feed d [rest] = (fs', None, FrameDecoder_new)" "bodies = fs @ fs'"
    using f by (auto simp: feed_append simp del: feed.simps split: prod.splits)
  with f \<open>e = None\<close> show ?thesis
    by (intro exI [of _ "length fs"] exI [of _ d]) (simp del: feed.simps)
qed

text \<open>The frames behind a sequence of framed messages.\<close>

lemma wires_frames:
  assumes "list_all2 (\<lambda>m b. codec_ok lib m \<and> to_stdvec lib m = Inr b \<and> length b < MAX_FRAME) msgs bodies"
    and "list_all2 (\<lambda>m w. encode_frame lib m = Inr w) msgs wires"
  shows "\<exists>frames. wires = map frame_of frames \<and> (\<forall>f\<in>set frames. length f \<le> MAX_FRAME)
      \<and> map (decode lib) frames = map Inr msgs"
  using assms
proof (induction msgs arbitrary: bodies wires)
  case Nil
  then show ?case by simp
next
  case (Cons m msgs)
  then obtain b bodies' w wires' where split: "bodies = b # bodies'" "wires = w # wires'"
    and m: "codec_ok lib m" "to_stdvec lib m = Inr b" "length b < MAX_FRAME"
    and w: "encode_frame lib m = Inr w"
    by (auto simp: list_all2_Cons1)
  obtain bs where bs: "encode lib m = Inr bs" "decode lib bs = Inr m" "length bs \<le> length b + 1"
    using m by (cases lib b rule: encode_payload_cases) (auto simp: encode_def codec_ok_def)
  with w have "w = frame_of bs" by (simp add: encode_frame_def)
  moreover obtain frames where "wires' = map frame_of frames"
      "\<forall>f\<in>set frames. length f \<le> MAX_FRAME" "map (decode lib) frames = map Inr msgs"
    using Cons.IH [of bodies' wires'] Cons.prems split by auto
  ultimately show ?case using bs m(3) split
    by (intro exI [of _ "bs # frames"]) auto
qed

text \<open>
  End to end over the byte stream: a sequence of messages, framed, concatenated and
  delivered in arbitrary chunks, is decoded back to the same sequence of messages in order.
\<close>
theorem stream_roundtrip:
  assumes "list_all2 (\<lambda>m b. codec_ok lib m \<and> to_stdvec lib m = Inr b \<and> length b < MAX_FRAME) msgs bodies"
    and "list_all2 (\<lambda>m w. encode_frame lib m = Inr w) msgs wires"
    and "concat cs = concat wires"
  shows "\<exists>frames. feed FrameDecoder_new cs = (frames, None, FrameDecoder_new)
           \<and> map (decode lib) frames = map Inr msgs"
proof -
  obtain frames where "wires = map frame_of frames" "\<forall>f\<in>set frames. length f \<le> MAX_FRAME"
      "map (decode lib) frames = map Inr msgs" using wires_frames [OF assms(1,2)] by blast
  with feed_frames_new [of frames cs] assms(3) show ?thesis by auto
qed

theorem stream_roundtrip_witness:
  "\<exists>frames. feed FrameDecoder_new [[0, 0, 0], [2, 0, 5, 0], [0, 0, 1, 0]]
       = (frames, None, FrameDecoder_new) \<and> map (decode run_codec) frames = map Inr [[5], []]"
proof (rule stream_roundtrip)
  show "list_all2 (\<lambda>m b. codec_ok run_codec m \<and> to_stdvec run_codec m = Inr b
      \<and> length b < MAX_FRAME) [[5], []] [[5], []]"
    by (simp add: run_codec_ok, simp add: run_codec_def MAX_FRAME_def)
  show "list_all2 (\<lambda>m w. encode_frame run_codec m = Inr w) [[5], []]
      [[0, 0, 0, 2, 0, 5], [0, 0, 0, 1, 0]]"
    by (simp add: encode_frame_def encode_def encode_payload_def run_codec_def COMPRESS_MIN_def
        frame_of_def to_be_bytes_def ENC_RAW_def)
  show "concat [[0, 0, 0], [2, 0, 5, 0], [0, 0, 1, 0]]
      = concat [[0, 0, 0, 2, 0, 5], [0, 0, 0, 1, 0 :: u8]]" by simp
qed

text \<open>
  C28: A peer cannot make the decoder buffer without bound.  As long as there was no error, what is left after any chunks
  is less than one maximal frame with its length prefix; when another chunk is pushed the buffer is shorter
  than that and the chunk together, and taking frames out of it only makes it shorter.  With chunks of at
  most \<open>n\<close> bytes it never holds \<open>4 + MAX_FRAME + n\<close> bytes.
\<close>
theorem decoder_bounded:
  assumes "feed FrameDecoder_new cs = (fs, None, d)" "length c \<le> n" "drain (decoder_push d c) = (fs', e, d')"
  shows "length (buf d) < 4 + MAX_FRAME \<and> length (buf (decoder_push d c)) < 4 + MAX_FRAME + n
    \<and> length (buf d') \<le> length (buf (decoder_push d c))"
proof -
  have "drain d = ([], None, d)" using feed_drained [OF drain_empty assms(1)] .
  from drained_bound [OF this] assms(2) drain_shrinks [OF assms(3)] show ?thesis by (simp add: decoder_push_def)
qed

theorem decoder_bounded_witness:
  "\<exists>d. feed FrameDecoder_new [[0, 0, 0, 1, 7, 0, 0], [0]] = ([[7]], None, d) \<and> buf d = [0, 0, 0]
     \<and> length (buf (decoder_push d [2, 9])) < 4 + MAX_FRAME + 2"
proof -
  have run: "feed FrameDecoder_new [[0, 0, 0, 1, 7, 0, 0], [0]] = ([[7]], None, \<lparr>buf = [0, 0, 0]\<rparr>)"
    by (simp add: FrameDecoder_new_def decoder_push_def drain.simps next_frame_def from_be_bytes_def MAX_FRAME_def)
  have "\<exists>fs e d'. drain (decoder_push \<lparr>buf = [0, 0, 0]\<rparr> [2, 9]) = (fs, e, d')" by (metis prod_cases3)
  then obtain fs e d' where "drain (decoder_push \<lparr>buf = [0, 0, 0]\<rparr> [2, 9]) = (fs, e, d')" by blast
  from decoder_bounded [OF run _ this, of 2] run show ?thesis by simp
qed

text \<open>
  An oversized length prefix is an error, not an allocation: the complete frames before
  it are handed out, the error names the length, and not a byte of the offending frame is
  consumed.
\<close>
theorem oversized_frame_rejected:
  assumes "\<forall>b\<in>set bodies. length b \<le> MAX_FRAME"
    and "MAX_FRAME < length big" and "length big < 2 ^ 32"
  shows "drain \<lparr>buf = concat (map frame_of bodies) @ frame_of big @ rest\<rparr>
       = (bodies, Some (OversizedFrame (length big)), \<lparr>buf = frame_of big @ rest\<rparr>)"
proof -
  have "unat (of_nat (length big) :: u32) = length big"
    using assms(3) by (simp add: unat_of_nat)
  then have "next_frame \<lparr>buf = frame_of big @ rest\<rparr>
      = (Inl (OversizedFrame (length big)), \<lparr>buf = frame_of big @ rest\<rparr>)"
    using assms(2) by (simp add: next_frame_def frame_of_def Let_def)
  then have "drain \<lparr>buf = frame_of big @ rest\<rparr>
      = ([], Some (OversizedFrame (length big)), \<lparr>buf = frame_of big @ rest\<rparr>)"
    by (simp add: drain.simps)
  moreover have "decoder_push \<lparr>buf = concat (map frame_of bodies)\<rparr> (frame_of big @ rest)
      = \<lparr>buf = concat (map frame_of bodies) @ frame_of big @ rest\<rparr>"
    by (simp add: decoder_push_def)
  ultimately show ?thesis
    using drain_push [OF drain_frames [OF assms(1)], of "frame_of big @ rest"]
    by (simp add: FrameDecoder_new_def decoder_push_def)
qed

theorem oversized_frame_rejected_witness:
  "drain \<lparr>buf = concat (map frame_of [[7]]) @ frame_of (replicate (MAX_FRAME + 1) 0) @ []\<rparr>
   = ([[7]], Some (OversizedFrame (MAX_FRAME + 1)), \<lparr>buf = frame_of (replicate (MAX_FRAME + 1) 0) @ []\<rparr>)"
  using oversized_frame_rejected [of "[[7]]" "replicate (MAX_FRAME + 1) 0" "[]"]
  by (simp add: MAX_FRAME_def)

end
