(* ===== verification/Link.thy ===== *)
theory Link
  imports Proto
begin

text \<open>
  The contract behind "resume byte-exactly": an ordered stream of numbered messages, a
  sender that keeps what the peer has not acknowledged, and a receiver that drops what it
  has already seen.  The server's outbound log and the client's resend list are senders,
  the client's \<open>is_next\<close> and the session task's stdin check are receivers; each is an
  interpretation of the locales below in the theory of its component, and the theorem that
  a replay after a reconnect brings the receiver exactly up to date is proved once, here.
\<close>

section \<open>Numbered histories\<close>

fun seq_of :: "ChannelMessage \<Rightarrow> u64 option" where
  "seq_of (Stdin s _) = Some s"
| "seq_of (StdinEof s) = Some s"
| "seq_of (Stdout s _) = Some s"
| "seq_of (Stderr s _) = Some s"
| "seq_of (Exit s _) = Some s"
| "seq_of _ = None"

text \<open>The bytes a message carries for each stream, and those of a whole history.\<close>

fun stdout_of :: "ChannelMessage \<Rightarrow> bytes" where
  "stdout_of (Stdout _ data) = data"
| "stdout_of _ = []"

fun stderr_of :: "ChannelMessage \<Rightarrow> bytes" where
  "stderr_of (Stderr _ data) = data"
| "stderr_of _ = []"

fun stdin_of :: "ChannelMessage \<Rightarrow> bytes" where
  "stdin_of (Stdin _ data) = data"
| "stdin_of _ = []"

fun is_exit :: "ChannelMessage \<Rightarrow> bool" where
  "is_exit (Exit _ _) = True"
| "is_exit _ = False"

fun is_output :: "ChannelMessage \<Rightarrow> bool" where
  "is_output (Stdout _ _) = True"
| "is_output (Stderr _ _) = True"
| "is_output (Exit _ _) = True"
| "is_output _ = False"

abbreviation stdout_bytes :: "ChannelMessage list \<Rightarrow> bytes" where
  "stdout_bytes H \<equiv> concat (map stdout_of H)"

abbreviation stderr_bytes :: "ChannelMessage list \<Rightarrow> bytes" where
  "stderr_bytes H \<equiv> concat (map stderr_of H)"

abbreviation stdin_bytes :: "ChannelMessage list \<Rightarrow> bytes" where
  "stdin_bytes H \<equiv> concat (map stdin_of H)"

text \<open>A history is numbered when its messages carry 1, 2, 3, \<dots> and the numbers do not
  reach the end of \<open>u64\<close>.\<close>

definition numbered :: "ChannelMessage list \<Rightarrow> bool" where
  "numbered H \<longleftrightarrow> length H + 1 < 2 ^ 64 \<and> (\<forall>i < length H. seq_of (H ! i) = Some (of_nat (i + 1)))"

lemma numbered_Nil [simp]: "numbered []"
  by (simp add: numbered_def)

lemma numbered_bound: "numbered H \<Longrightarrow> length H + 1 < 2 ^ 64"
  by (simp add: numbered_def)

lemma numbered_seq: "numbered H \<Longrightarrow> i < length H \<Longrightarrow> seq_of (H ! i) = Some (of_nat (i + 1))"
  by (simp add: numbered_def)

lemma numbered_unat_seq:
  "numbered H \<Longrightarrow> i < length H \<Longrightarrow> seq_of (H ! i) = Some s \<Longrightarrow> unat s = i + 1"
  using unat_u64_of_nat [of "i + 1"] by (auto simp: numbered_def)

lemma numbered_snoc:
  "numbered H \<Longrightarrow> length H + 2 < 2 ^ 64 \<Longrightarrow> seq_of m = Some (of_nat (length H + 1)) \<Longrightarrow>
   numbered (H @ [m])"
  by (auto simp: numbered_def nth_append less_Suc_eq)

lemma numbered_snocD: "numbered (H @ [m]) \<Longrightarrow> numbered H"
  unfolding numbered_def
proof (elim conjE, intro conjI allI impI)
  fix i
  assume all: "\<forall>i < length (H @ [m]). seq_of ((H @ [m]) ! i) = Some (of_nat (i + 1))"
    and "i < length H"
  then show "seq_of (H ! i) = Some (of_nat (i + 1))"
    using all [rule_format, of i] by (simp add: nth_append)
qed simp

section \<open>Receivers\<close>

text \<open>
  The receiving loop: a message (with how it came, \<open>True\<close> for the ordered stream) is either
  applied, which moves the last number seen, or ignored.
\<close>

fun receive ::
  "(u64 \<Rightarrow> u64 \<Rightarrow> bool \<Rightarrow> bool) \<Rightarrow> u64 \<times> ChannelMessage list \<Rightarrow> (bool \<times> ChannelMessage) list
   \<Rightarrow> u64 \<times> ChannelMessage list" where
  "receive accept (l, out) [] = (l, out)"
| "receive accept (l, out) ((reliable, m) # ms) =
     (case seq_of m of
        Some s \<Rightarrow> if accept s l reliable then receive accept (s, out @ [m]) ms
                   else receive accept (l, out) ms
      | None \<Rightarrow> receive accept (l, out) ms)"

locale dedup =
  fixes accept :: "u64 \<Rightarrow> u64 \<Rightarrow> bool \<Rightarrow> bool"
  assumes accept_stream: "l \<noteq> U64_MAX \<Longrightarrow> accept s l True \<longleftrightarrow> l < s"
    and accept_datagram: "l \<noteq> U64_MAX \<Longrightarrow> accept s l False \<longleftrightarrow> s = l + 1"
begin

text \<open>Nothing seen before is applied again.\<close>

lemma accept_new: "l \<noteq> U64_MAX \<Longrightarrow> accept s l r \<Longrightarrow> l < s"
  using accept_stream accept_datagram [of l s]
  by (cases r) (auto simp: u64_less unat_inc u64_not_max [symmetric])

text \<open>
  The one-step exactly-once law.  The message with number \<open>i + 1\<close> of a numbered history is
  offered to a receiver that has applied the first \<open>l\<close>.  If it came as a datagram, or if
  the stream has no gap before it, then it is applied only as the very next message.
\<close>

lemma accept_next:
  assumes "numbered H" "i < length H" "seq_of (H ! i) = Some s"
    and "unat l \<le> length H" "r \<longrightarrow> i \<le> unat l" "accept s l r"
  shows "i = unat l" "take (unat s) H = take (unat l) H @ [H ! i]" "unat s = unat l + 1"
proof -
  have s: "unat s = i + 1" using assms(1-3) by (rule numbered_unat_seq)
  have l: "l \<noteq> U64_MAX"
    using assms(1,4) by (simp add: numbered_def u64_not_max [symmetric])
  have "l < s" using accept_new [OF l assms(6)] .
  then have ge: "unat l \<le> i" using s by (simp add: u64_less)
  have le: "i \<le> unat l"
  proof (cases r)
    case True
    then show ?thesis using assms(5) by simp
  next
    case False
    with assms(6) have "s = l + 1" using accept_datagram [OF l] by simp
    then show ?thesis using s l by (simp add: unat_inc u64_not_max [symmetric])
  qed
  from ge le show i: "i = unat l" by simp
  show "unat s = unat l + 1" using s i by simp
  show "take (unat s) H = take (unat l) H @ [H ! i]"
    using s i assms(2) by (simp add: take_Suc_conv_app_nth)
qed

text \<open>A stream that replays from at or before the next message is applied exactly from there.\<close>

lemma receive_replay:
  assumes "numbered H" "k \<le> unat l" "unat l \<le> length H"
  shows "receive accept (l, out) (map (Pair True) (drop k H)) = (of_nat (length H), out @ drop (unat l) H)"
  using assms
proof (induction "length H - k" arbitrary: k l out)
  case 0
  then have "k = length H" "unat l = length H" by auto
  moreover from this have "of_nat (length H) = l" by (metis u64_of_nat_unat)
  ultimately show ?case by simp
next
  case (Suc n)
  then have k: "k < length H" by simp
  have split: "drop k H = H ! k # drop (Suc k) H" using k by (simp add: Cons_nth_drop_Suc)
  have sq: "seq_of (H ! k) = Some (of_nat (k + 1))" using Suc.prems(1) k by (rule numbered_seq)
  have un: "unat (of_nat (k + 1) :: u64) = k + 1"
    by (rule numbered_unat_seq [OF Suc.prems(1) k sq])
  have l: "l \<noteq> U64_MAX"
    using Suc.prems(1,3) by (simp add: numbered_def u64_not_max [symmetric])
  show ?case
  proof (cases "unat l = k")
    case True
    then have "accept (of_nat (k + 1)) l True" using un by (simp add: accept_stream [OF l] u64_less)
    moreover have "receive accept (of_nat (k + 1), out @ [H ! k]) (map (Pair True) (drop (Suc k) H))
        = (of_nat (length H), (out @ [H ! k]) @ drop (unat (of_nat (k + 1) :: u64)) H)"
      by (rule Suc.hyps(1)) (use Suc k un in auto)
    ultimately show ?thesis using True split sq un by (simp del: of_nat_Suc of_nat_add)
  next
    case False
    then have "\<not> accept (of_nat (k + 1)) l True"
      using un Suc.prems(2) by (simp add: accept_stream [OF l] u64_less)
    moreover have "receive accept (l, out) (map (Pair True) (drop (Suc k) H))
        = (of_nat (length H), out @ drop (unat l) H)"
      by (rule Suc.hyps(1)) (use Suc False in auto)
    ultimately show ?thesis using split sq by (simp del: of_nat_Suc of_nat_add)
  qed
qed

end

section \<open>Senders\<close>

text \<open>
  A replay buffer stands for the whole history \<open>H\<close> of what was sent, of which it still
  holds everything from \<open>t\<close> on (\<open>holds b H t\<close>).  \<open>pending s b\<close> is what it sends to a peer
  that claims to have seen everything up to \<open>s\<close>; \<open>carries\<close> are the messages the buffer is
  meant for.
\<close>

locale replay_buffer =
  fixes push :: "'b \<Rightarrow> ChannelMessage \<Rightarrow> 'b"
    and acked :: "u64 \<Rightarrow> 'b \<Rightarrow> 'b"
    and pending :: "u64 \<Rightarrow> 'b \<Rightarrow> ChannelMessage list"
    and carries :: "ChannelMessage \<Rightarrow> bool"
    and holds :: "'b \<Rightarrow> ChannelMessage list \<Rightarrow> nat \<Rightarrow> bool"
  assumes holds_numbered: "holds b H t \<Longrightarrow> numbered H \<and> t \<le> length H"
    and holds_push: "holds b H t \<Longrightarrow> length H + 2 < 2 ^ 64 \<Longrightarrow> carries m \<Longrightarrow>
          seq_of m = Some (of_nat (length H + 1)) \<Longrightarrow> holds (push b m) (H @ [m]) t"
    and holds_acked: "holds b H t \<Longrightarrow> unat a \<le> length H \<Longrightarrow> holds (acked a b) H (max t (unat a))"
    and pending_suffix: "holds b H t \<Longrightarrow> \<exists>k. t \<le> k \<and> k \<le> max t (unat s) \<and> pending s b = drop k H"
begin

text \<open>An acknowledgement loses nothing the peer has not seen: what is pending for a peer that
  has seen at least the acknowledged part is the same suffix up to what it skips.\<close>

lemma pending_after_ack:
  assumes "holds b H t" "unat a \<le> unat s" "unat s \<le> length H" "t \<le> unat s"
  shows "\<exists>k \<le> unat s. pending s (acked a b) = drop k H"
proof -
  have "holds (acked a b) H (max t (unat a))" using assms by (intro holds_acked) auto
  from pending_suffix [OF this, of s] assms show ?thesis by auto
qed

end

section \<open>The link\<close>

locale resumable_link = replay_buffer + dedup
begin

text \<open>
  After any history of sends and acknowledgements, replaying what is pending to a receiver
  that has applied the first \<open>l\<close> messages makes it apply exactly the missing ones, once and
  in order.
\<close>

theorem resume_exact:
  assumes "holds b H t" "t \<le> unat l" "unat l \<le> length H"
  shows "receive accept (l, take (unat l) H) (map (Pair True) (pending l b)) = (of_nat (length H), H)"
proof -
  obtain k where k: "k \<le> unat l" "pending l b = drop k H"
    using pending_suffix [OF assms(1), of l] assms(2) by auto
  have "numbered H" using assms(1) holds_numbered by blast
  from receive_replay [OF this k(1) assms(3)] k(2) show ?thesis by simp
qed

end

end
