(* ===== verification/OutboundLog.thy ===== *)
theory OutboundLog
  imports Link
begin

text \<open>
  The outbound log of a session (\<open>src/server/src/lib.rs\<close>, \<open>OutboundLog\<close> and
  \<open>LogEntries\<close>): the messages the client has not acknowledged, how many were dropped
  before them, and the sequence number published to the attached connections.  The mutex
  makes each operation atomic; the log is a value and each operation returns the new one.

  The log refines an abstract history, the list of everything ever pushed: the
  entry at index \<open>i\<close> of the buffer is entry \<open>trimmed + i\<close> of the history.
\<close>

record OutboundLog =
  log_buffer :: "ChannelMessage list"
  log_trimmed :: u64
  log_latest :: u64

definition OutboundLog_default :: OutboundLog where
  "OutboundLog_default = \<lparr>log_buffer = [], log_trimmed = 0, log_latest = 0\<rparr>"

definition log_push :: "OutboundLog \<Rightarrow> ChannelMessage \<Rightarrow> OutboundLog" where
  "log_push l m =
     (let buffer = log_buffer l @ [m];
          s = log_trimmed l + of_nat (length buffer)
      in l\<lparr>log_buffer := buffer, log_latest := s\<rparr>)"

definition log_after :: "OutboundLog \<Rightarrow> u64 \<Rightarrow> ChannelMessage list" where
  "log_after l s = drop (unat (saturating_sub s (log_trimmed l))) (log_buffer l)"

text \<open>The loop of \<open>trim\<close>: \<open>while trimmed < seq && !buffer.is_empty()\<close>.\<close>

fun trim_loop :: "ChannelMessage list \<Rightarrow> u64 \<Rightarrow> u64 \<Rightarrow> ChannelMessage list \<times> u64" where
  "trim_loop [] trimmed s = ([], trimmed)"
| "trim_loop (m # buffer) trimmed s =
     (if trimmed < s then trim_loop buffer (trimmed + 1) s else (m # buffer, trimmed))"

definition log_trim :: "OutboundLog \<Rightarrow> u64 \<Rightarrow> OutboundLog" where
  "log_trim l s =
     (case trim_loop (log_buffer l) (log_trimmed l) s of
        (buffer, trimmed) \<Rightarrow> l\<lparr>log_buffer := buffer, log_trimmed := trimmed\<rparr>)"

definition log_subscribe :: "OutboundLog \<Rightarrow> u64" where
  "log_subscribe l = log_latest l"

definition log_snapshot :: "OutboundLog \<Rightarrow> u64 \<times> ChannelMessage list" where
  "log_snapshot l = (log_trimmed l, log_buffer l)"

definition log_restore :: "u64 \<Rightarrow> ChannelMessage list \<Rightarrow> OutboundLog" where
  "log_restore trimmed buffer =
     \<lparr>log_buffer = buffer, log_trimmed = trimmed,
      log_latest = trimmed + of_nat (length buffer)\<rparr>"

section \<open>Refinement of the abstract history\<close>

definition log_holds :: "OutboundLog \<Rightarrow> ChannelMessage list \<Rightarrow> nat \<Rightarrow> bool" where
  "log_holds l H t \<longleftrightarrow>
     numbered H \<and> t \<le> length H \<and> unat (log_trimmed l) = t \<and>
     log_buffer l = drop t H \<and> log_latest l = of_nat (length H)"

lemma log_holds_numbered [dest]: "log_holds l H t \<Longrightarrow> numbered H"
  by (simp add: log_holds_def)

lemma log_holds_le: "log_holds l H t \<Longrightarrow> t \<le> length H"
  by (simp add: log_holds_def)

lemma log_holds_unique: "log_holds l H t \<Longrightarrow> t = unat (log_trimmed l)"
  by (simp add: log_holds_def)

lemma log_holds_default [simp]: "log_holds OutboundLog_default [] 0"
  by (simp add: log_holds_def OutboundLog_default_def)

lemma log_trimmed_of_nat: "log_holds l H t \<Longrightarrow> log_trimmed l = of_nat t"
  by (metis log_holds_unique u64_of_nat_unat)

lemma log_holds_push [log_refine]:
  assumes "log_holds l H t" "length H + 2 < 2 ^ 64" "seq_of m = Some (of_nat (length H + 1))"
  shows "log_holds (log_push l m) (H @ [m]) t"
proof -
  have t: "t \<le> length H" "log_trimmed l = of_nat t"
    using assms(1) log_trimmed_of_nat log_holds_le by blast+
  have "log_trimmed l + of_nat (length (log_buffer l) + 1) = (of_nat (t + (length H - t + 1)) :: u64)"
    using assms(1) t by (simp add: log_holds_def)
  also have "\<dots> = of_nat (length H + 1)" using t(1) by (simp only: add.assoc [symmetric] le_add_diff_inverse)
  finally show ?thesis
    using assms numbered_snoc [of H m] t(1)
    by (simp add: log_holds_def log_push_def Let_def)
qed

lemma log_after_suffix [log_refine]:
  assumes "log_holds l H t"
  shows "log_after l s = drop (max t (unat s)) H"
  using assms by (simp add: log_holds_def log_after_def unat_saturating_sub max_def)

text \<open>The loop in closed form.\<close>

lemma trim_loop_eq:
  "unat t + length buffer < 2 ^ 64 \<Longrightarrow>
   trim_loop buffer t s =
     (let n = min (length buffer) (unat s - unat t) in (drop n buffer, t + of_nat n))"
proof (induction buffer t s rule: trim_loop.induct)
  case (1 t s)
  then show ?case by simp
next
  case (2 m buffer t s)
  show ?case
  proof (cases "t < s")
    case True
    have t1: "unat (t + 1) = unat t + 1" using "2.prems" by (simp add: unat_inc)
    have "min (length (m # buffer)) (unat s - unat t)
        = Suc (min (length buffer) (unat s - unat (t + 1)))"
      using True t1 by (auto simp: u64_less)
    with True "2.IH" "2.prems" t1 show ?thesis by (simp add: Let_def add.assoc)
  next
    case False
    then show ?thesis by (simp add: u64_less)
  qed
qed

lemma log_holds_trim_gen [log_refine]:
  assumes "log_holds l H t"
  shows "log_holds (log_trim l s) H (max t (min (unat s) (length H)))"
proof -
  let ?n = "min (length H - t) (unat s - t)"
  have t: "t \<le> length H" "unat (log_trimmed l) = t" "log_buffer l = drop t H"
    "length H + 1 < 2 ^ 64"
    using assms by (auto simp: log_holds_def numbered_def)
  have tot: "t + ?n = max t (min (unat s) (length H))" using t(1) by auto
  have "trim_loop (log_buffer l) (log_trimmed l) s = (drop ?n (drop t H), log_trimmed l + of_nat ?n)"
    using trim_loop_eq [of "log_trimmed l" "log_buffer l" s] t by (simp add: Let_def)
  moreover have "log_trimmed l + of_nat ?n = of_nat (t + ?n)"
    using log_trimmed_of_nat [OF assms] by simp
  moreover have "unat (of_nat (t + ?n) :: u64) = t + ?n"
    by (rule unat_u64_of_nat) (use t in linarith)
  moreover have "t + ?n \<le> length H" using t(1) by simp
  ultimately show ?thesis
    using assms unfolding tot [symmetric]
    by (simp add: log_holds_def log_trim_def add.commute del: of_nat_add)
qed

lemma log_holds_trim:
  assumes "log_holds l H t" "unat s \<le> length H"
  shows "log_holds (log_trim l s) H (max t (unat s))"
  using log_holds_trim_gen [OF assms(1), of s] assms(2) by (simp add: min_def)

lemma log_restore_snapshot:
  assumes "log_holds l H t"
  shows "(case log_snapshot l of (trimmed, buffer) \<Rightarrow> log_restore trimmed buffer) = l"
proof -
  have "log_trimmed l + of_nat (length (log_buffer l)) = of_nat (t + (length H - t))"
    using assms log_trimmed_of_nat [OF assms] by (simp add: log_holds_def)
  also have "\<dots> = log_latest l"
    using assms by (simp add: log_holds_def del: of_nat_add)
  finally show ?thesis by (simp add: log_snapshot_def log_restore_def)
qed

interpretation outbound: replay_buffer log_push "\<lambda>a l. log_trim l a" "\<lambda>s l. log_after l s"
  "\<lambda>_. True" log_holds
proof unfold_locales
  fix b H t and s :: u64
  assume "log_holds b H t"
  then show "\<exists>k \<ge> t. k \<le> max t (unat s) \<and> log_after b s = drop k H"
    by (intro exI [of _ "max t (unat s)"]) (simp add: log_after_suffix)
qed (auto intro: log_holds_push log_holds_trim log_holds_le)

end
