(* ===== verification/StdText.thy ===== *)
theory StdText
  imports Prelude
begin

text \<open>
  The parts of Rust's standard library for text that the sources use: decimal \<open>Display\<close>
  of unsigned integers, \<open>str::trim\<close>, \<open>str::parse\<close> at \<open>i32\<close> and \<open>u64\<close>,
  \<open>str::rsplit_once\<close> and \<open>str::trim_end_matches\<close>.  Text is the list of its UTF-8 bytes.
\<close>

abbreviation char_code :: "char \<Rightarrow> nat" where "char_code c \<equiv> of_char c"

definition text_of_bytes :: "bytes \<Rightarrow> string" where
  "text_of_bytes bs = map (\<lambda>b. char_of (unat b)) bs"

definition bytes_of_text :: "string \<Rightarrow> bytes" where
  "bytes_of_text s = map (\<lambda>c. of_nat (char_code c)) s"

section \<open>Decimal numbers\<close>

fun show_nat :: "nat \<Rightarrow> string" where
  "show_nat n =
     (if n < 10 then [char_of (48 + n)] else show_nat (n div 10) @ [char_of (48 + n mod 10)])"

declare show_nat.simps [simp del]

definition is_digit :: "char \<Rightarrow> bool" where
  "is_digit c \<longleftrightarrow> 48 \<le> char_code c \<and> char_code c \<le> 57"

definition parse_digits :: "string \<Rightarrow> nat option" where
  "parse_digits s =
     (if s \<noteq> [] \<and> list_all is_digit s
      then Some (foldl (\<lambda>acc c. 10 * acc + (char_code c - 48)) 0 s) else None)"

text \<open>\<open>i32::from_str\<close>: an optional sign, at least one digit, and a value in range.\<close>

definition parse_i32 :: "string \<Rightarrow> int option" where
  "parse_i32 s =
     (let (neg, ds) = (case s of
          c # cs \<Rightarrow> if c = CHR ''-'' then (True, cs) else if c = CHR ''+'' then (False, cs)
                     else (False, s)
        | [] \<Rightarrow> (False, s))
      in case parse_digits ds of
           None \<Rightarrow> None
         | Some n \<Rightarrow> let v = (if neg then - int n else int n)
                      in if - (2 ^ 31) \<le> v \<and> v < 2 ^ 31 then Some v else None)"

text \<open>\<open>u64::from_str\<close>: no minus sign, and a value below \<open>2 ^ 64\<close>.\<close>

definition parse_u64 :: "string \<Rightarrow> u64 option" where
  "parse_u64 s =
     (let ds = (case s of c # cs \<Rightarrow> if c = CHR ''+'' then cs else s | [] \<Rightarrow> s)
      in case parse_digits ds of
           None \<Rightarrow> None
         | Some n \<Rightarrow> if n < 2 ^ 64 then Some (of_nat n) else None)"

section \<open>Trimming\<close>

text \<open>
  \<open>str::trim\<close> removes Unicode \<open>White_Space\<close>.  \<open>ws_len\<close> is the length in bytes of a
  white-space character at the front of the text (0 when there is none), \<open>ws_len_rev\<close>
  the same for the reversed text.
\<close>

definition ws3 :: "nat \<Rightarrow> nat \<Rightarrow> nat \<Rightarrow> bool" where
  "ws3 a b c \<longleftrightarrow>
     a = 0xE1 \<and> b = 0x9A \<and> c = 0x80
     \<or> a = 0xE2 \<and> b = 0x80 \<and> (0x80 \<le> c \<and> c \<le> 0x8A \<or> c = 0xA8 \<or> c = 0xA9 \<or> c = 0xAF)
     \<or> a = 0xE2 \<and> b = 0x81 \<and> c = 0x9F
     \<or> a = 0xE3 \<and> b = 0x80 \<and> c = 0x80"

definition ws1 :: "nat \<Rightarrow> bool" where
  "ws1 a \<longleftrightarrow> 9 \<le> a \<and> a \<le> 13 \<or> a = 32"

definition ws2 :: "nat \<Rightarrow> nat \<Rightarrow> bool" where
  "ws2 a b \<longleftrightarrow> a = 0xC2 \<and> (b = 0x85 \<or> b = 0xA0)"

definition ws_len :: "string \<Rightarrow> nat" where
  "ws_len s =
     (case s of [] \<Rightarrow> 0
      | a # r \<Rightarrow> if ws1 (char_code a) then 1
         else (case r of [] \<Rightarrow> 0
           | b # r' \<Rightarrow> if ws2 (char_code a) (char_code b) then 2
              else (case r' of [] \<Rightarrow> 0
                | c # _ \<Rightarrow> if ws3 (char_code a) (char_code b) (char_code c) then 3 else 0)))"

definition ws_len_rev :: "string \<Rightarrow> nat" where
  "ws_len_rev s =
     (case s of [] \<Rightarrow> 0
      | a # r \<Rightarrow> if ws1 (char_code a) then 1
         else (case r of [] \<Rightarrow> 0
           | b # r' \<Rightarrow> if ws2 (char_code b) (char_code a) then 2
              else (case r' of [] \<Rightarrow> 0
                | c # _ \<Rightarrow> if ws3 (char_code c) (char_code b) (char_code a) then 3 else 0)))"

function strip_by :: "(string \<Rightarrow> nat) \<Rightarrow> string \<Rightarrow> string" where
  "strip_by f s = (if s \<noteq> [] \<and> 0 < f s then strip_by f (drop (f s) s) else s)"
  by pat_completeness auto
termination
  by (relation "measure (\<lambda>(f, s). length s)") auto

declare strip_by.simps [simp del]

definition trim :: "string \<Rightarrow> string" where
  "trim s = rev (strip_by ws_len_rev (rev (strip_by ws_len s)))"

section \<open>Splitting\<close>

text \<open>\<open>rsplit_once(sep)\<close>: split at the last occurrence of an ASCII separator.\<close>

definition rsplit_once :: "char \<Rightarrow> string \<Rightarrow> (string \<times> string) option" where
  "rsplit_once sep s =
     (if sep \<in> set s
      then Some (rev (tl (dropWhile (\<lambda>c. c \<noteq> sep) (rev s))),
                 rev (takeWhile (\<lambda>c. c \<noteq> sep) (rev s)))
      else None)"

definition trim_end_matches :: "char \<Rightarrow> string \<Rightarrow> string" where
  "trim_end_matches c s = rev (dropWhile (\<lambda>x. x = c) (rev s))"

section \<open>Laws\<close>

lemma digit_char [simp]: "(n :: nat) < 10 \<Longrightarrow> is_digit (char_of (48 + n))"
  by (simp add: is_digit_def)

lemma show_nat_digits: "list_all is_digit (show_nat n)"
proof (induction n rule: show_nat.induct)
  case (1 n)
  then show ?case
    by (subst show_nat.simps) (simp del: of_char_of)
qed

lemma show_nat_nonempty [simp]: "show_nat n \<noteq> []"
  by (subst show_nat.simps) simp

lemma foldl_show_nat: "foldl (\<lambda>acc c. 10 * acc + (char_code c - 48)) 0 (show_nat n) = n"
proof (induction n rule: show_nat.induct)
  case (1 n)
  then show ?case by (subst show_nat.simps) simp
qed

lemma parse_show_nat [simp]: "parse_digits (show_nat n) = Some n"
  by (simp add: parse_digits_def show_nat_digits foldl_show_nat)

lemma show_nat_inject [simp]: "show_nat m = show_nat n \<longleftrightarrow> m = n"
  by (metis option.inject parse_show_nat)

lemma show_nat_hd_digit: "is_digit (hd (show_nat n))" "is_digit (last (show_nat n))"
  using show_nat_digits [of n] by (simp_all add: list_all_iff)

lemma digit_not_sign: "is_digit c \<Longrightarrow> c \<noteq> CHR ''-'' \<and> c \<noteq> CHR ''+'' \<and> c \<noteq> CHR ''.''"
  by (auto simp: is_digit_def)

lemma sign_split_show_nat:
  "(case show_nat n of c # cs \<Rightarrow> if c = CHR ''-'' then (True, cs) else if c = CHR ''+''
      then (False, cs) else (False, show_nat n) | [] \<Rightarrow> (False, show_nat n)) = (False, show_nat n)"
  using digit_not_sign [OF show_nat_hd_digit(1), of n] by (cases "show_nat n") auto

lemma parse_i32_show_nat: "n < 2 ^ 31 \<Longrightarrow> parse_i32 (show_nat n) = Some (int n)"
  unfolding parse_i32_def sign_split_show_nat by (simp add: Let_def)

lemma ws_len_digit: "is_digit c \<Longrightarrow> ws_len (c # s) = 0"
  by (auto simp: ws_len_def is_digit_def ws1_def ws2_def ws3_def split: list.splits)

lemma ws_len_rev_digit: "is_digit c \<Longrightarrow> ws_len_rev (c # s) = 0"
  by (auto simp: ws_len_rev_def is_digit_def ws1_def ws2_def ws3_def split: list.splits)

text \<open>A number followed by a newline, as the shell wrapper writes it, trims to the number.\<close>

lemma trim_number_line: "trim (show_nat n @ [char_of (10 :: nat)]) = show_nat n"
proof -
  obtain c s where cs: "show_nat n = c # s" by (cases "show_nat n") auto
  obtain d r where dr: "rev (show_nat n) = d # r" by (cases "rev (show_nat n)") auto
  have c: "is_digit c" using show_nat_hd_digit(1) [of n] cs by simp
  have d: "is_digit d" using show_nat_hd_digit(2) [of n] dr by (simp add: hd_rev [symmetric])
  have 1: "strip_by ws_len (show_nat n @ [char_of (10 :: nat)]) = show_nat n @ [char_of (10 :: nat)]"
    using cs c by (subst strip_by.simps) (simp add: ws_len_digit)
  have "ws_len_rev (char_of (10 :: nat) # d # r) = 1" by (simp add: ws_len_rev_def ws1_def)
  then have 2: "strip_by ws_len_rev (char_of (10 :: nat) # d # r) = d # r"
    using d by (simp add: strip_by.simps [of _ "_ # _"] ws_len_rev_digit)
  have "rev (d # r) = show_nat n" using dr by (metis rev_rev_ident)
  with 1 2 dr show ?thesis by (simp add: trim_def)
qed

lemma rsplit_once_join:
  assumes "sep \<notin> set b"
  shows "rsplit_once sep (a @ sep # b) = Some (a, b)"
proof -
  have "takeWhile (\<lambda>c. c \<noteq> sep) (rev b @ sep # rev a) = rev b"
    using assms by (subst takeWhile_append2) auto
  moreover have "dropWhile (\<lambda>c. c \<noteq> sep) (rev b @ sep # rev a) = sep # rev a"
    using assms by (subst dropWhile_append2) auto
  ultimately show ?thesis by (simp add: rsplit_once_def)
qed

lemma text_of_bytes_append: "text_of_bytes (a @ b) = text_of_bytes a @ text_of_bytes b"
  by (simp add: text_of_bytes_def)

lemma text_bytes_text [simp]: "text_of_bytes (bytes_of_text s) = s"
  by (simp add: text_of_bytes_def bytes_of_text_def o_def unat_of_nat)

section \<open>Paths\<close>

text \<open>\<open>Path::join\<close> on Unix paths.\<close>

definition path_join :: "string \<Rightarrow> string \<Rightarrow> string" where
  "path_join base p =
     (if p \<noteq> [] \<and> hd p = CHR ''/'' then p
      else if base = [] \<or> last base = CHR ''/'' then base @ p
      else base @ CHR ''/'' # p)"

end
