(* ===== verification/SessionTask.thy ===== *)
theory SessionTask
  imports OutboundLog StdText
begin

text \<open>
  The session task (\<open>src/server/src/lib.rs\<close>, \<open>session_task\<close> and its helpers): it owns
  the child's pipes, copies stdout and stderr into the outbound log, applies deduplicated
  stdin, learns the exit code from the wrapper's pipe, and on shutdown gives everything
  back for a handover.

  The \<open>select!\<close> loop is a step function: an event is one ready branch together with what
  the operating system returned for it, \<open>task_enabled\<close> are the branch guards, and
  \<open>session_task_step\<close> is one iteration, including the exit check at the bottom of the
  loop.  What the task does to the outside world (pipe writes, closing stdin, signals, the
  handover reply) is a list of effects.
\<close>

type_synonym fd = nat

section \<open>State\<close>

record SessionRecord =
  rec_pgid :: int
  rec_exit_code :: "int option"
  rec_trimmed :: u64
  rec_buffer :: "ChannelMessage list"
  rec_stdin_applied :: u64
  rec_forward_agent :: bool

record SessionHandover =
  ho_state :: SessionRecord
  ho_fds :: "(string \<times> fd) list"

datatype SessionInput =
    Message ChannelMessage
  | DatagramInput ChannelMessage
  | Abort
  | Handover

record SessionIo =
  io_stdin :: "fd option"
  io_stdout :: fd
  io_stderr :: fd
  io_exit :: fd
  io_exit_code :: "int option"
  io_child :: bool
  io_pgid :: int

text \<open>The locals of the task; the first fields are the destructured \<open>SessionIo\<close>.\<close>

record TaskState = SessionIo +
  stdout_open :: bool
  stderr_open :: bool
  exit_line :: bytes
  task_seq :: u64
  last_client_seq :: u64

text \<open>What the task shares with the attached connections.\<close>

record Shared =
  sh_log :: OutboundLog
  sh_stdin_applied :: u64

datatype TaskEffect =
    WriteFd fd bytes
  | CloseFd fd
  | Reap
  | KillPg int
  | Reply SessionHandover

datatype TaskOutcome =
    TaskRunning TaskState
  | TaskEnded
  | TaskHandedOver
  | TaskAborted

section \<open>Events of the select loop\<close>

datatype ReadResult = ReadOk bytes | ReadErr

text \<open>A failed \<open>write_all\<close> may have written a prefix.\<close>

datatype WriteResult = WriteOk | WriteErr nat

datatype TaskEvent =
    StdoutRead ReadResult
  | StderrRead ReadResult
  | ExitRead ReadResult
  | Inbound "SessionInput option"

record TaskEnv =
  env_write :: WriteResult
  env_fd_ok :: "fd \<Rightarrow> bool"

fun task_enabled :: "TaskEvent \<Rightarrow> TaskState \<Rightarrow> bool" where
  "task_enabled (StdoutRead _) st = stdout_open st"
| "task_enabled (StderrRead _) st = stderr_open st"
| "task_enabled (ExitRead _) st = (io_exit_code st = None)"
| "task_enabled (Inbound _) st = True"

section \<open>Operations\<close>

fun write_stdin :: "fd option \<Rightarrow> bytes \<Rightarrow> WriteResult \<Rightarrow> fd option \<times> TaskEffect list" where
  "write_stdin None data r = (None, [])"
| "write_stdin (Some pipe) data WriteOk = (Some pipe, [WriteFd pipe data])"
| "write_stdin (Some pipe) data (WriteErr n) = (None, [WriteFd pipe (take n data), CloseFd pipe])"

definition abort_session :: "int \<Rightarrow> bool \<Rightarrow> TaskEffect list" where
  "abort_session pgid child = (if 0 < pgid then [KillPg pgid] else []) @ (if child then [Reap] else [])"

text \<open>
  \<open>String::from_utf8_lossy(&exit_line).trim().parse().unwrap_or(255)\<close>.  Replacing malformed
  UTF-8 before the trim cannot change the result: a byte that is neither white space nor
  part of a number makes the parse fail with or without the replacement.
\<close>

definition parse_exit_line :: "bytes \<Rightarrow> int" where
  "parse_exit_line bs = (case parse_i32 (trim (text_of_bytes bs)) of Some c \<Rightarrow> c | None \<Rightarrow> 255)"

text \<open>When a stdin message is applied: in order on the stream, exactly next as a datagram.\<close>

definition stdin_accepts :: "u64 \<Rightarrow> u64 \<Rightarrow> bool \<Rightarrow> bool" where
  "stdin_accepts s seen reliable = (if reliable then seen < s else s = seen + 1)"

definition apply_stdin ::
  "WriteResult \<Rightarrow> u64 \<Rightarrow> bytes \<Rightarrow> TaskState \<Rightarrow> Shared \<Rightarrow> TaskState \<times> Shared \<times> TaskEffect list" where
  "apply_stdin wr s data st sh =
     (case write_stdin (io_stdin st) data wr of
        (stdin', eff) \<Rightarrow>
          (st\<lparr>last_client_seq := s, io_stdin := stdin'\<rparr>, sh\<lparr>sh_stdin_applied := s\<rparr>, eff))"

definition close_stdin ::
  "u64 \<Rightarrow> TaskState \<Rightarrow> Shared \<Rightarrow> TaskState \<times> Shared \<times> TaskEffect list" where
  "close_stdin s st sh =
     (st\<lparr>last_client_seq := s, io_stdin := None\<rparr>, sh\<lparr>sh_stdin_applied := s\<rparr>,
      case io_stdin st of Some pipe \<Rightarrow> [CloseFd pipe] | None \<Rightarrow> [])"

definition handover_fds :: "(fd \<Rightarrow> bool) \<Rightarrow> TaskState \<Rightarrow> (string \<times> fd) list" where
  "handover_fds ok st =
     (case io_stdin st of Some pipe \<Rightarrow> if ok pipe then [(''stdin'', pipe)] else [] | None \<Rightarrow> [])
     @ concat (map (\<lambda>(role, pipe, opn). if opn \<and> ok pipe then [(role, pipe)] else [])
         [(''stdout'', io_stdout st, stdout_open st),
          (''stderr'', io_stderr st, stderr_open st),
          (''exit'', io_exit st, io_exit_code st = None)])"

definition make_handover :: "(fd \<Rightarrow> bool) \<Rightarrow> TaskState \<Rightarrow> Shared \<Rightarrow> SessionHandover" where
  "make_handover ok st sh =
     (case log_snapshot (sh_log sh) of
        (trimmed, buffer) \<Rightarrow>
          \<lparr>ho_state = \<lparr>rec_pgid = io_pgid st, rec_exit_code = io_exit_code st,
             rec_trimmed = trimmed, rec_buffer = buffer,
             rec_stdin_applied = last_client_seq st, rec_forward_agent = False\<rparr>,
           ho_fds = handover_fds ok st\<rparr>)"

fun task_inbound ::
  "TaskEnv \<Rightarrow> SessionInput option \<Rightarrow> TaskState \<Rightarrow> Shared \<Rightarrow> TaskOutcome \<times> Shared \<times> TaskEffect list" where
  "task_inbound env (Some (Message (Stdin s data))) st sh =
     (if stdin_accepts s (last_client_seq st) True
      then (case apply_stdin (env_write env) s data st sh of
              (st', sh', eff) \<Rightarrow> (TaskRunning st', sh', eff))
      else (TaskRunning st, sh, []))"
| "task_inbound env (Some (DatagramInput (Stdin s data))) st sh =
     (if stdin_accepts s (last_client_seq st) False
      then (case apply_stdin (env_write env) s data st sh of
              (st', sh', eff) \<Rightarrow> (TaskRunning st', sh', eff))
      else (TaskRunning st, sh, []))"
| "task_inbound env (Some (DatagramInput _)) st sh = (TaskRunning st, sh, [])"
| "task_inbound env (Some (Message (StdinEof s))) st sh =
     (if stdin_accepts s (last_client_seq st) True
      then (case close_stdin s st sh of (st', sh', eff) \<Rightarrow> (TaskRunning st', sh', eff))
      else (TaskRunning st, sh, []))"
| "task_inbound env (Some (Message _)) st sh = (TaskRunning st, sh, [])"
| "task_inbound env (Some Handover) st sh =
     (TaskHandedOver, sh, [Reply (make_handover (env_fd_ok env) st sh)])"
| "task_inbound env (Some Abort) st sh = (TaskAborted, sh, abort_session (io_pgid st) (io_child st))"
| "task_inbound env None st sh = (TaskAborted, sh, abort_session (io_pgid st) (io_child st))"

definition task_log :: "(u64 \<Rightarrow> ChannelMessage) \<Rightarrow> TaskState \<Rightarrow> Shared \<Rightarrow> TaskState \<times> Shared" where
  "task_log mk st sh =
     (let s = task_seq st + 1
      in (st\<lparr>task_seq := s\<rparr>, sh\<lparr>sh_log := log_push (sh_log sh) (mk s)\<rparr>))"

definition task_exit_read :: "ReadResult \<Rightarrow> TaskState \<Rightarrow> TaskState \<times> TaskEffect list" where
  "task_exit_read r st =
     (let st' = (case r of
          ReadErr \<Rightarrow> st\<lparr>io_exit_code := Some 255\<rparr>
        | ReadOk bs \<Rightarrow>
            if bs = [] then st\<lparr>io_exit_code := Some 255\<rparr>
            else let line = exit_line st @ bs
                 in if 10 \<in> set line
                    then st\<lparr>exit_line := line, io_exit_code := Some (parse_exit_line line)\<rparr>
                    else st\<lparr>exit_line := line\<rparr>)
      in (st', if io_exit_code st' \<noteq> None \<and> io_child st' then [Reap] else []))"

fun task_select ::
  "TaskEnv \<Rightarrow> TaskEvent \<Rightarrow> TaskState \<Rightarrow> Shared \<Rightarrow> TaskOutcome \<times> Shared \<times> TaskEffect list" where
  "task_select env (StdoutRead r) st sh =
     (case r of
        ReadErr \<Rightarrow> (TaskRunning (st\<lparr>stdout_open := False\<rparr>), sh, [])
      | ReadOk bs \<Rightarrow>
          if bs = [] then (TaskRunning (st\<lparr>stdout_open := False\<rparr>), sh, [])
          else (case task_log (\<lambda>s. Stdout s bs) st sh of (st', sh') \<Rightarrow> (TaskRunning st', sh', [])))"
| "task_select env (StderrRead r) st sh =
     (case r of
        ReadErr \<Rightarrow> (TaskRunning (st\<lparr>stderr_open := False\<rparr>), sh, [])
      | ReadOk bs \<Rightarrow>
          if bs = [] then (TaskRunning (st\<lparr>stderr_open := False\<rparr>), sh, [])
          else (case task_log (\<lambda>s. Stderr s bs) st sh of (st', sh') \<Rightarrow> (TaskRunning st', sh', [])))"
| "task_select env (ExitRead r) st sh =
     (case task_exit_read r st of (st', eff) \<Rightarrow> (TaskRunning st', sh, eff))"
| "task_select env (Inbound input) st sh = task_inbound env input st sh"

definition task_exit_check :: "TaskState \<Rightarrow> Shared \<Rightarrow> TaskOutcome \<times> Shared" where
  "task_exit_check st sh =
     (case io_exit_code st of
        Some code \<Rightarrow>
          if \<not> stdout_open st \<and> \<not> stderr_open st
          then (TaskEnded, snd (task_log (\<lambda>s. Exit s code) st sh))
          else (TaskRunning st, sh)
      | None \<Rightarrow> (TaskRunning st, sh))"

definition session_task_step ::
  "TaskEnv \<Rightarrow> TaskEvent \<Rightarrow> TaskState \<Rightarrow> Shared \<Rightarrow> TaskOutcome \<times> Shared \<times> TaskEffect list" where
  "session_task_step env ev st sh =
     (case task_select env ev st sh of
        (TaskRunning st', sh', eff) \<Rightarrow>
          (case task_exit_check st' sh' of (outcome, sh'') \<Rightarrow> (outcome, sh'', eff))
      | r \<Rightarrow> r)"

text \<open>The locals at the top of the task.\<close>

definition session_task_start :: "SessionIo \<Rightarrow> Shared \<Rightarrow> TaskState" where
  "session_task_start io sh =
     \<lparr>io_stdin = io_stdin io, io_stdout = io_stdout io, io_stderr = io_stderr io,
      io_exit = io_exit io, io_exit_code = io_exit_code io, io_child = io_child io,
      io_pgid = io_pgid io,
      stdout_open = True, stderr_open = True, exit_line = [],
      task_seq = log_subscribe (sh_log sh), last_client_seq = sh_stdin_applied sh\<rparr>"

text \<open>The loop over a sequence of ready branches; a branch whose guard is false is not polled.\<close>

fun session_task ::
  "(TaskEnv \<times> TaskEvent) list \<Rightarrow> TaskState \<Rightarrow> Shared \<Rightarrow> TaskOutcome \<times> Shared \<times> TaskEffect list" where
  "session_task [] st sh = (TaskRunning st, sh, [])"
| "session_task ((env, ev) # evs) st sh =
     (if task_enabled ev st
      then (case session_task_step env ev st sh of
              (TaskRunning st', sh', eff) \<Rightarrow>
                (case session_task evs st' sh' of (outcome, sh'', eff') \<Rightarrow> (outcome, sh'', eff @ eff'))
            | r \<Rightarrow> r)
      else session_task evs st sh)"

section \<open>The log is a faithful record of the child's output\<close>

definition task_ok :: "ChannelMessage list \<Rightarrow> nat \<Rightarrow> TaskState \<Rightarrow> Shared \<Rightarrow> bool" where
  "task_ok H t st sh \<longleftrightarrow>
     log_holds (sh_log sh) H t \<and> task_seq st = of_nat (length H) \<and>
     sh_stdin_applied sh = last_client_seq st"

fun read_stdout :: "TaskEvent \<Rightarrow> bytes" where
  "read_stdout (StdoutRead (ReadOk bs)) = bs"
| "read_stdout _ = []"

fun read_stderr :: "TaskEvent \<Rightarrow> bytes" where
  "read_stderr (StderrRead (ReadOk bs)) = bs"
| "read_stderr _ = []"

lemma task_ok_start:
  "log_holds (sh_log sh) H t \<Longrightarrow> task_ok H t (session_task_start io sh) sh"
  by (simp add: task_ok_def session_task_start_def log_subscribe_def log_holds_def)

lemma task_log_ok:
  assumes "task_ok H t st sh" "length H + 2 < 2 ^ 64" "\<And>s. seq_of (mk s) = Some s"
    and "task_log mk st sh = (st', sh')"
  shows "task_ok (H @ [mk (of_nat (length H + 1))]) t st' sh'"
proof -
  have "task_seq st + 1 = of_nat (length H + 1)" using assms(1) by (simp add: task_ok_def)
  with assms log_holds_push [of "sh_log sh" H t "mk (of_nat (length H + 1))"] show ?thesis
    by (auto simp: task_ok_def task_log_def Let_def add.commute)
qed

lemma apply_stdin_ok:
  "task_ok H t st sh \<Longrightarrow> apply_stdin wr s data st sh = (st', sh', eff) \<Longrightarrow> task_ok H t st' sh'"
  by (auto simp: task_ok_def apply_stdin_def split: prod.splits)

lemma close_stdin_ok:
  "task_ok H t st sh \<Longrightarrow> close_stdin s st sh = (st', sh', eff) \<Longrightarrow> task_ok H t st' sh'"
  by (auto simp: task_ok_def close_stdin_def)

text \<open>Inbound messages never touch the log.\<close>

lemma apply_stdin_log [frame_simps]:
  "apply_stdin wr s data st sh = (st', sh', eff) \<Longrightarrow> sh_log sh' = sh_log sh"
  by (auto simp: apply_stdin_def split: prod.splits)

lemma task_inbound_log:
  "task_inbound env inp st sh = (out, sh', eff) \<Longrightarrow> sh_log sh' = sh_log sh"
  by (induction env inp st sh rule: task_inbound.induct)
     (auto simp: close_stdin_def dest: apply_stdin_log split: if_splits prod.splits)

lemma task_inbound_running:
  "task_ok H t st sh \<Longrightarrow> task_inbound env inp st sh = (TaskRunning st', sh', eff) \<Longrightarrow>
   task_ok H t st' sh'"
  by (induction env inp st sh rule: task_inbound.induct)
     (auto dest: apply_stdin_ok close_stdin_ok split: if_splits prod.splits)

lemma task_inbound_not_ended: "fst (task_inbound env inp st sh) \<noteq> TaskEnded"
  by (induction env inp st sh rule: task_inbound.induct) (auto split: prod.splits)

lemma task_exit_read_ok:
  "task_ok H t st sh \<Longrightarrow> task_exit_read r st = (st', eff) \<Longrightarrow> task_ok H t st' sh"
  by (auto simp: task_ok_def task_exit_read_def Let_def split: ReadResult.splits if_splits)

lemma task_log_frame [frame_simps]:
  "task_log mk st sh = (st', sh') \<Longrightarrow>
   stdout_open st' = stdout_open st \<and> stderr_open st' = stderr_open st
   \<and> io_exit_code st' = io_exit_code st \<and> io_stdin st' = io_stdin st
   \<and> last_client_seq st' = last_client_seq st \<and> sh_stdin_applied sh' = sh_stdin_applied sh"
  by (auto simp: task_log_def Let_def)

text \<open>One \<open>select!\<close> branch appends exactly the bytes it read, as one message.\<close>

lemma task_select_log:
  assumes "task_ok H t st sh" "length H + 2 < 2 ^ 64" "task_enabled ev st"
    and "task_select env ev st sh = (TaskRunning st', sh', eff)"
  shows "\<exists>H'. task_ok (H @ H') t st' sh' \<and> length H' \<le> 1 \<and> stdout_bytes H' = read_stdout ev
      \<and> stderr_bytes H' = read_stderr ev \<and> \<not> list_ex is_exit H' \<and> list_all is_output H'
      \<and> (H' \<noteq> [] \<longrightarrow> stdout_open st' \<or> stderr_open st')"
proof (cases ev)
  case (StdoutRead r)
  show ?thesis
  proof (cases "r = ReadErr \<or> r = ReadOk []")
    case True
    with StdoutRead assms show ?thesis by (auto simp: task_ok_def intro!: exI [of _ "[]"])
  next
    case False
    then obtain bs where r: "r = ReadOk bs" "bs \<noteq> []" by (cases r) auto
    with StdoutRead assms(4) have tl: "task_log (\<lambda>s. Stdout s bs) st sh = (st', sh')"
      by (auto split: prod.splits)
    then have "task_ok (H @ [Stdout (of_nat (length H + 1)) bs]) t st' sh'"
      by (rule task_log_ok [OF assms(1,2), rotated]) simp
    with StdoutRead r task_log_frame [OF tl] assms(3) show ?thesis
      by (intro exI [of _ "[Stdout (of_nat (length H + 1)) bs]"]) simp
  qed
next
  case (StderrRead r)
  show ?thesis
  proof (cases "r = ReadErr \<or> r = ReadOk []")
    case True
    with StderrRead assms show ?thesis by (auto simp: task_ok_def intro!: exI [of _ "[]"])
  next
    case False
    then obtain bs where r: "r = ReadOk bs" "bs \<noteq> []" by (cases r) auto
    with StderrRead assms(4) have tl: "task_log (\<lambda>s. Stderr s bs) st sh = (st', sh')"
      by (auto split: prod.splits)
    then have "task_ok (H @ [Stderr (of_nat (length H + 1)) bs]) t st' sh'"
      by (rule task_log_ok [OF assms(1,2), rotated]) simp
    with StderrRead r task_log_frame [OF tl] assms(3) show ?thesis
      by (intro exI [of _ "[Stderr (of_nat (length H + 1)) bs]"]) simp
  qed
next
  case (ExitRead r)
  with assms show ?thesis
    by (auto dest: task_exit_read_ok split: prod.splits intro!: exI [of _ "[]"])
next
  case (Inbound inp)
  with assms show ?thesis
    by (auto dest: task_inbound_running intro!: exI [of _ "[]"])
qed

text \<open>
  One iteration of the loop: the bytes read become one message, and an \<open>Exit\<close> is appended
  exactly when the task ends.
\<close>

lemma session_task_step_log:
  assumes "task_ok H t st sh" "length H + 2 < 2 ^ 64" "task_enabled ev st"
    and step: "session_task_step env ev st sh = (outcome, sh', eff)"
  shows "\<exists>H'. log_holds (sh_log sh') (H @ H') t \<and> length H' \<le> 1
      \<and> stdout_bytes H' = read_stdout ev \<and> stderr_bytes H' = read_stderr ev \<and> list_all is_output H'
      \<and> (\<forall>st'. outcome = TaskRunning st' \<longrightarrow> task_ok (H @ H') t st' sh')
      \<and> (if outcome = TaskEnded then \<exists>c. H' = [Exit (of_nat (length H + 1)) c]
         else \<not> list_ex is_exit H')"
proof -
  obtain o1 sh1 where sel: "task_select env ev st sh = (o1, sh1, eff)"
    using step by (auto simp: session_task_step_def split: prod.splits TaskOutcome.splits)
  show ?thesis
  proof (cases "\<exists>st1. o1 = TaskRunning st1")
    case False
    with sel step have same: "outcome = o1" "sh' = sh1"
      by (auto simp: session_task_step_def split: TaskOutcome.splits)
    from False sel obtain inp where ev: "ev = Inbound inp"
      by (cases ev) (auto split: ReadResult.splits if_splits prod.splits)
    with sel same have "sh_log sh' = sh_log sh" "outcome \<noteq> TaskEnded"
      using task_inbound_log task_inbound_not_ended [of env inp st sh] by auto
    with assms(1) False same ev show ?thesis
      by (intro exI [of _ "[]"]) (auto simp: task_ok_def)
  next
    case True
    then obtain st1 where o1: "o1 = TaskRunning st1" by blast
    with sel step have chk: "task_exit_check st1 sh1 = (outcome, sh')"
      by (auto simp: session_task_step_def split: prod.splits)
    obtain H1 where H1: "task_ok (H @ H1) t st1 sh1" "length H1 \<le> 1"
      "stdout_bytes H1 = read_stdout ev" "stderr_bytes H1 = read_stderr ev" "\<not> list_ex is_exit H1" "H1 \<noteq> [] \<longrightarrow> stdout_open st1 \<or> stderr_open st1"
      "list_all is_output H1"
      using task_select_log [OF assms(1,2,3) sel [unfolded o1]] by blast
    show ?thesis
    proof (cases "io_exit_code st1 \<noteq> None \<and> \<not> stdout_open st1 \<and> \<not> stderr_open st1")
      case False
      with chk have "outcome = TaskRunning st1" "sh' = sh1"
        by (auto simp: task_exit_check_def split: option.splits if_splits)
      with H1 show ?thesis by (intro exI [of _ H1]) (simp add: task_ok_def)
    next
      case True
      then obtain c where c: "io_exit_code st1 = Some c" by auto
      have "H1 = []" using H1(6) True by auto
      with H1(1) True chk c have "outcome = TaskEnded"
        and "sh' = snd (task_log (\<lambda>s. Exit s c) st1 sh1)" and "task_ok H t st1 sh1"
        by (auto simp: task_exit_check_def)
      moreover obtain st2 sh2 where "task_log (\<lambda>s. Exit s c) st1 sh1 = (st2, sh2)" by force
      ultimately have "log_holds (sh_log sh') (H @ [Exit (of_nat (length H + 1)) c]) t"
        using task_log_ok [of H t st1 sh1 "\<lambda>s. Exit s c" st2 sh2] assms(2)
        by (simp add: task_ok_def)
      with \<open>H1 = []\<close> H1 \<open>outcome = TaskEnded\<close> show ?thesis
        by (intro exI [of _ "[Exit (of_nat (length H + 1)) c]"]) simp
    qed
  qed
qed

text \<open>The branches that were really polled in a run.\<close>

fun task_polled :: "(TaskEnv \<times> TaskEvent) list \<Rightarrow> TaskState \<Rightarrow> Shared \<Rightarrow> TaskEvent list" where
  "task_polled [] st sh = []"
| "task_polled ((env, ev) # evs) st sh =
     (if task_enabled ev st
      then ev # (case session_task_step env ev st sh of
                   (TaskRunning st', sh', _) \<Rightarrow> task_polled evs st' sh' | _ \<Rightarrow> [])
      else task_polled evs st sh)"

lemma session_task_log:
  assumes "task_ok H t st sh" "length H + length evs + 1 < 2 ^ 64"
    and "session_task evs st sh = (outcome, sh', eff)" "\<not> list_ex is_exit H"
  shows "\<exists>H'. log_holds (sh_log sh') (H @ H') t
      \<and> stdout_bytes H' = concat (map read_stdout (task_polled evs st sh))
      \<and> stderr_bytes H' = concat (map read_stderr (task_polled evs st sh))
      \<and> (if outcome = TaskEnded then \<exists>H0 s c. H @ H' = H0 @ [Exit s c] \<and> \<not> list_ex is_exit H0
         else \<not> list_ex is_exit H')"
  using assms
proof (induction evs arbitrary: H st sh eff)
  case Nil
  then show ?case by (intro exI [of _ "[]"]) (auto simp: task_ok_def)
next
  case (Cons e evs)
  obtain env ev where e: "e = (env, ev)" by (cases e)
  show ?case
  proof (cases "task_enabled ev st")
    case False
    with Cons e show ?thesis by auto
  next
    case True
    obtain o1 sh1 eff1 where st1: "session_task_step env ev st sh = (o1, sh1, eff1)"
      by (metis prod_cases3)
    have room: "length H + 2 < 2 ^ 64" using Cons.prems(2) by simp
    obtain H1 where H1: "log_holds (sh_log sh1) (H @ H1) t" "length H1 \<le> 1"
      "stdout_bytes H1 = read_stdout ev" "stderr_bytes H1 = read_stderr ev"
      "\<forall>st'. o1 = TaskRunning st' \<longrightarrow> task_ok (H @ H1) t st' sh1"
      "if o1 = TaskEnded then \<exists>c. H1 = [Exit (of_nat (length H + 1)) c] else \<not> list_ex is_exit H1"
      using session_task_step_log [OF Cons.prems(1) room True st1] by blast
    show ?thesis
    proof (cases "\<exists>st2. o1 = TaskRunning st2")
      case False
      with True e st1 Cons.prems(3) have "outcome = o1" "sh' = sh1" "eff = eff1"
        by (auto split: TaskOutcome.splits)
      with H1 False True e st1 Cons.prems(4) show ?thesis
        by (intro exI [of _ H1]) (auto split: TaskOutcome.splits if_splits)
    next
      case running: True
      then obtain st2 where o1: "o1 = TaskRunning st2" by blast
      with True e st1 Cons.prems(3) obtain eff2 where
        rest: "session_task evs st2 sh1 = (outcome, sh', eff2)"
        by (auto split: prod.splits)
      have "length (H @ H1) + length evs + 1 < 2 ^ 64" "\<not> list_ex is_exit (H @ H1)"
        using Cons.prems(2,4) H1(2,6) o1 by auto
      with Cons.IH [OF H1(5) [rule_format, OF o1] _ rest] obtain H2 where
        "log_holds (sh_log sh') ((H @ H1) @ H2) t"
        "stdout_bytes H2 = concat (map read_stdout (task_polled evs st2 sh1))"
        "stderr_bytes H2 = concat (map read_stderr (task_polled evs st2 sh1))"
        "if outcome = TaskEnded then \<exists>H0 s c. (H @ H1) @ H2 = H0 @ [Exit s c] \<and> \<not> list_ex is_exit H0
         else \<not> list_ex is_exit H2"
        by blast
      with H1 o1 True e st1 show ?thesis by (intro exI [of _ "H1 @ H2"]) auto
    qed
  qed
qed

section \<open>Stdin is applied through the duplicate filter\<close>

interpretation stdin_rx: dedup stdin_accepts
  by unfold_locales (simp_all add: stdin_accepts_def)

fun stdin_item :: "SessionInput \<Rightarrow> (bool \<times> ChannelMessage) option" where
  "stdin_item (Message (Stdin s d)) = Some (True, Stdin s d)"
| "stdin_item (Message (StdinEof s)) = Some (True, StdinEof s)"
| "stdin_item (DatagramInput (Stdin s d)) = Some (False, Stdin s d)"
| "stdin_item _ = None"

fun is_eof :: "ChannelMessage \<Rightarrow> bool" where
  "is_eof (StdinEof _) = True"
| "is_eof _ = False"

text \<open>Everything written to the child's stdin pipe.\<close>

fun pipe_bytes :: "TaskEffect \<Rightarrow> bytes" where
  "pipe_bytes (WriteFd _ data) = data"
| "pipe_bytes _ = []"

abbreviation written :: "TaskEffect list \<Rightarrow> bytes" where
  "written eff \<equiv> concat (map pipe_bytes eff)"

fun is_stop :: "SessionInput \<Rightarrow> bool" where
  "is_stop Abort = True"
| "is_stop Handover = True"
| "is_stop _ = False"

lemma receive_snd: "snd (receive acc (l, out) ms) = out @ snd (receive acc (l, []) ms)"
proof (induction ms arbitrary: l out)
  case Nil
  then show ?case by simp
next
  case (Cons m ms)
  obtain r x where m: "m = (r, x)" by (cases m)
  show ?case
  proof (cases "seq_of x")
    case None
    with m Cons.IH [of l out] show ?thesis by simp
  next
    case (Some s)
    show ?thesis
      using Cons.IH [of s "out @ [x]"] Cons.IH [of s "[x]"] Cons.IH [of l out] Some m by simp
  qed
qed

lemma receive_fst: "fst (receive acc (l, out) ms) = fst (receive acc (l, []) ms)"
proof (induction ms arbitrary: l out)
  case Nil
  then show ?case by simp
next
  case (Cons m ms)
  obtain r x where m: "m = (r, x)" by (cases m)
  show ?case
  proof (cases "seq_of x")
    case None
    with m Cons.IH [of l out] show ?thesis by simp
  next
    case (Some s)
    show ?thesis
      using Cons.IH [of s "out @ [x]"] Cons.IH [of s "[x]"] Cons.IH [of l out] Some m by simp
  qed
qed

lemma stdin_item_seq: "stdin_item inp = Some (r, m) \<Longrightarrow> seq_of m = Some (the (seq_of m))"
  by (induction inp rule: stdin_item.induct) auto

text \<open>
  The abstract view of the task's stdin: the last number applied, whether the pipe is open,
  and the bytes written to it.
\<close>

fun stdin_spec :: "u64 \<times> bool \<times> bytes \<Rightarrow> SessionInput \<Rightarrow> u64 \<times> bool \<times> bytes" where
  "stdin_spec (l, opn, out) inp =
     (case stdin_item inp of
        None \<Rightarrow> (l, opn, out)
      | Some (r, m) \<Rightarrow>
          if stdin_accepts (the (seq_of m)) l r
          then (the (seq_of m), opn \<and> \<not> is_eof m, if opn then out @ stdin_of m else out)
          else (l, opn, out))"

definition stdin_abs :: "TaskState \<Rightarrow> bytes \<Rightarrow> u64 \<times> bool \<times> bytes" where
  "stdin_abs st out = (last_client_seq st, io_stdin st \<noteq> None, out)"

lemma write_stdin_ok:
  "write_stdin p data WriteOk = (p, case p of Some fd \<Rightarrow> [WriteFd fd data] | None \<Rightarrow> [])"
  by (cases p) simp_all

lemma task_inbound_refines:
  assumes "env_write env = WriteOk" "\<not> is_stop inp"
  shows "\<exists>st' sh' eff. task_inbound env (Some inp) st sh = (TaskRunning st', sh', eff)
     \<and> stdout_open st' = stdout_open st
     \<and> stdin_abs st' (out @ written eff) = stdin_spec (stdin_abs st out) inp"
  using assms
  by (cases "(env, Some inp, st, sh)" rule: task_inbound.cases)
     (auto simp: stdin_abs_def apply_stdin_def close_stdin_def write_stdin_ok split: option.splits)

lemma task_step_inbound:
  assumes "task_inbound env inp st sh = (TaskRunning st1, sh1, eff1)" "stdout_open st1"
  shows "session_task_step env (Inbound inp) st sh = (TaskRunning st1, sh1, eff1)"
  using assms by (auto simp: session_task_step_def task_exit_check_def split: option.splits)

text \<open>A whole sequence of inputs, while the child is alive.\<close>

lemma session_task_refines:
  assumes "list_all (\<lambda>(env, i). env_write env = WriteOk \<and> \<not> is_stop i) inps" "stdout_open st"
  shows "\<exists>st' sh' eff.
      session_task (map (\<lambda>(env, i). (env, Inbound (Some i))) inps) st sh = (TaskRunning st', sh', eff)
      \<and> stdin_abs st' (out @ written eff) = foldl stdin_spec (stdin_abs st out) (map snd inps)"
  using assms
proof (induction inps arbitrary: st sh out)
  case Nil
  then show ?case by simp
next
  case (Cons ei inps)
  obtain env i where ei: "ei = (env, i)" by (cases ei)
  from Cons.prems ei obtain st1 sh1 eff1 where one:
    "task_inbound env (Some i) st sh = (TaskRunning st1, sh1, eff1)" "stdout_open st1"
    "stdin_abs st1 (out @ written eff1) = stdin_spec (stdin_abs st out) i"
    using task_inbound_refines [of env i st sh out] by auto
  obtain st' sh' eff where rest:
    "session_task (map (\<lambda>(env, i). (env, Inbound (Some i))) inps) st1 sh1 = (TaskRunning st', sh', eff)"
    "stdin_abs st' ((out @ written eff1) @ written eff)
       = foldl stdin_spec (stdin_abs st1 (out @ written eff1)) (map snd inps)"
    using Cons.IH [of st1 sh1 "out @ written eff1"] Cons.prems one(2) by auto
  have "session_task (map (\<lambda>(env, i). (env, Inbound (Some i))) (ei # inps)) st sh
      = (TaskRunning st', sh', eff1 @ eff)"
    using task_step_inbound [OF one(1,2)] rest(1) ei by simp
  moreover have "stdin_abs st' (out @ written (eff1 @ eff))
      = foldl stdin_spec (stdin_abs st out) (map snd (ei # inps))"
    using rest(2) one(3) ei by simp
  ultimately show ?case by blast
qed

text \<open>The abstract view is the duplicate filter followed by the pipe.\<close>

lemma stdin_spec_receive:
  "foldl stdin_spec (l, opn, out) inps =
     (let R = receive stdin_accepts (l, []) (List.map_filter stdin_item inps)
      in (fst R, opn \<and> \<not> list_ex is_eof (snd R),
          if opn then out @ stdin_bytes (takeWhile (\<lambda>m. \<not> is_eof m) (snd R)) else out))"
proof (induction inps arbitrary: l opn out)
  case Nil
  then show ?case by (simp add: map_filter_simps)
next
  case (Cons i inps)
  show ?case
  proof (cases "stdin_item i")
    case None
    with Cons show ?thesis by (simp add: map_filter_simps)
  next
    case (Some rm)
    obtain r m where rm: "rm = (r, m)" by (cases rm)
    obtain s where sq: "seq_of m = Some s" using stdin_item_seq [OF Some [unfolded rm]] by blast
    have step: "receive stdin_accepts (l, []) (List.map_filter stdin_item (i # inps))
        = (if stdin_accepts s l r
           then receive stdin_accepts (s, [m]) (List.map_filter stdin_item inps)
           else receive stdin_accepts (l, []) (List.map_filter stdin_item inps))"
      using Some rm sq by (simp add: map_filter_simps)
    have eof: "is_eof m \<Longrightarrow> stdin_of m = []" by (cases m) auto
    show ?thesis
      using Some rm sq eof Cons.IH [of s "opn \<and> \<not> is_eof m" "if opn then out @ stdin_of m else out"]
        Cons.IH [of l opn out]
        receive_fst [of stdin_accepts s "[m]" "List.map_filter stdin_item inps"]
        receive_snd [of stdin_accepts s "[m]" "List.map_filter stdin_item inps"]
      unfolding step by (auto simp: Let_def)
  qed
qed

section \<open>The exit code\<close>

lemma parse_exit_line_number:
  "n < 2 ^ 31 \<Longrightarrow> parse_exit_line (bytes_of_text (show_nat n) @ [10]) = int n"
  using trim_number_line [of n]
  by (simp add: parse_exit_line_def text_of_bytes_append parse_i32_show_nat)
     (simp add: text_of_bytes_def parse_i32_show_nat)

lemma newline_not_in_number: "10 \<notin> set (bytes_of_text (show_nat n))"
proof
  assume "10 \<in> set (bytes_of_text (show_nat n))"
  then obtain c where c: "c \<in> set (show_nat n)" "(of_nat (char_code c) :: u8) = 10"
    by (auto simp: bytes_of_text_def)
  have "is_digit c" using show_nat_digits [of n] c(1) by (simp add: list_all_iff)
  then have "unat (of_nat (char_code c) :: u8) = char_code c" "char_code c \<noteq> 10"
    by (auto simp: is_digit_def unat_of_nat)
  with c(2) show False by simp
qed

lemma prefix_with_sentinel:
  assumes "xs @ ys = ds @ [x]" "x \<notin> set ds" "x \<in> set xs"
  shows "ys = []"
proof (rule ccontr)
  assume "ys \<noteq> []"
  with assms(1) have "xs @ butlast ys = ds" by (metis butlast_append butlast_snoc)
  with assms(2,3) show False by auto
qed

lemma exit_code_chunks:
  assumes "exit_line st @ concat (map snd chunks) = ds @ [10]" "10 \<notin> set ds"
    and "list_all (\<lambda>(env, c). c \<noteq> []) chunks" "10 \<notin> set (exit_line st)"
    and "io_exit_code st = None" "stdout_open st"
  shows "\<exists>st' eff. session_task (map (\<lambda>(env, c). (env, ExitRead (ReadOk c))) chunks) st sh
           = (TaskRunning st', sh, eff) \<and> io_exit_code st' = Some (parse_exit_line (ds @ [10]))
             \<and> (io_child st \<longrightarrow> Reap \<in> set eff)"
  using assms
proof (induction chunks arbitrary: st)
  case Nil
  then show ?case by (metis append_Nil2 concat.simps(1) in_set_conv_decomp list.simps(8))
next
  case (Cons ec chunks)
  obtain env c where ec: "ec = (env, c)" by (cases ec)
  have c: "c \<noteq> []" using Cons.prems(3) ec by simp
  let ?line = "exit_line st @ c"
  show ?case
  proof (cases "10 \<in> set ?line")
    case True
    have "concat (map snd chunks) = []"
      by (rule prefix_with_sentinel [of ?line _ ds 10]) (use True Cons.prems(1,2) ec in auto)
    with Cons.prems(3) have "chunks = []" by (cases chunks) auto
    with Cons.prems ec c True show ?thesis
      by (auto simp: session_task_step_def task_exit_read_def task_exit_check_def Let_def)
  next
    case False
    let ?st = "st\<lparr>exit_line := ?line\<rparr>"
    have step: "session_task_step env (ExitRead (ReadOk c)) st sh = (TaskRunning ?st, sh, [])"
      using False c Cons.prems(5,6)
      by (simp add: session_task_step_def task_exit_read_def task_exit_check_def Let_def)
    obtain st' eff where
      "session_task (map (\<lambda>(env, c). (env, ExitRead (ReadOk c))) chunks) ?st sh = (TaskRunning st', sh, eff)"
      "io_exit_code st' = Some (parse_exit_line (ds @ [10]))" "io_child ?st \<longrightarrow> Reap \<in> set eff"
      using Cons.IH [of ?st] Cons.prems False ec by auto
    with step Cons.prems(5) ec show ?thesis by simp
  qed
qed

section \<open>Signals\<close>

lemma task_kills_positive:
  assumes "session_task_step env ev st sh = (outcome, sh', eff)" "KillPg p \<in> set eff"
  shows "0 < p \<and> p = io_pgid st \<and> outcome = TaskAborted"
proof -
  from assms obtain o1 sh1 where "task_select env ev st sh = (o1, sh1, eff)"
    and "(\<exists>st1. o1 = TaskRunning st1) \<or> outcome = o1"
    by (auto simp: session_task_step_def split: prod.splits TaskOutcome.splits)
  with assms(2) show ?thesis
    by (cases "(env, ev, st, sh)" rule: task_select.cases;
        cases "(env, case ev of Inbound i \<Rightarrow> i | _ \<Rightarrow> None, st, sh)" rule: task_inbound.cases)
       (auto simp: task_exit_read_def Let_def apply_stdin_def close_stdin_def abort_session_def
         split: ReadResult.splits if_splits prod.splits option.splits elim!: write_stdin.elims)
qed

section \<open>Properties\<close>

abbreviation fresh_shared :: Shared where
  "fresh_shared \<equiv> \<lparr>sh_log = OutboundLog_default, sh_stdin_applied = 0\<rparr>"

text \<open>
  C20: The outbound log is a faithful record of the child's output.  However the ready branches
  interleave, the log of a fresh session holds messages numbered 1, 2, 3 and so on whose
  stdout and stderr bytes are exactly what was read from the two pipes, in order; an
  \<open>Exit\<close> message is in the log only if the task has ended by itself, and then it is the last
  message and the only one.
\<close>
theorem session_log_faithful:
  assumes "length evs + 1 < 2 ^ 64"
    and "st0 = session_task_start io fresh_shared"
    and "session_task evs st0 fresh_shared = (outcome, sh', eff)"
  shows "\<exists>H. log_buffer (sh_log sh') = H \<and> numbered H
      \<and> log_latest (sh_log sh') = of_nat (length H)
      \<and> stdout_bytes H = concat (map read_stdout (task_polled evs st0 fresh_shared))
      \<and> stderr_bytes H = concat (map read_stderr (task_polled evs st0 fresh_shared))
      \<and> (if outcome = TaskEnded then \<exists>H0 s c. H = H0 @ [Exit s c] \<and> \<not> list_ex is_exit H0
         else \<not> list_ex is_exit H)"
proof -
  have "task_ok [] 0 st0 fresh_shared" by (simp add: assms(2) task_ok_start)
  from session_task_log [OF this _ assms(3)] assms(1) obtain H where
    "log_holds (sh_log sh') ([] @ H) 0"
    "stdout_bytes H = concat (map read_stdout (task_polled evs st0 fresh_shared))"
    "stderr_bytes H = concat (map read_stderr (task_polled evs st0 fresh_shared))"
    "if outcome = TaskEnded then \<exists>H0 s c. [] @ H = H0 @ [Exit s c] \<and> \<not> list_ex is_exit H0
     else \<not> list_ex is_exit H"
    by auto
  then show ?thesis by (intro exI [of _ H]) (simp add: log_holds_def split: if_split_asm)
qed

text \<open>A session that prints, reports code 3 and closes its pipes; used by the witnesses.\<close>

definition demo_io :: SessionIo where
  "demo_io = \<lparr>io_stdin = Some 4, io_stdout = 5, io_stderr = 6, io_exit = 7,
              io_exit_code = None, io_child = True, io_pgid = 100\<rparr>"

definition demo_env :: TaskEnv where
  "demo_env = \<lparr>env_write = WriteOk, env_fd_ok = (\<lambda>_. True)\<rparr>"

definition demo_run :: "(TaskEnv \<times> TaskEvent) list" where
  "demo_run = map (Pair demo_env)
     [StdoutRead (ReadOk [104, 105]), StderrRead (ReadOk []), ExitRead (ReadOk [51, 10]),
      StdoutRead (ReadOk [33]), StdoutRead (ReadOk [])]"

lemmas demo_defs = demo_io_def demo_env_def demo_run_def

lemmas task_eval = session_task_start_def session_task_step_def task_exit_check_def task_log_def
  task_exit_read_def log_push_def log_subscribe_def OutboundLog_default_def apply_stdin_def
  close_stdin_def stdin_accepts_def abort_session_def Let_def

lemma parse_exit_line_3: "parse_exit_line [51, 10] = 3"
  using parse_exit_line_number [of 3] by (simp add: bytes_of_text_def show_nat.simps)

theorem session_log_faithful_witness:
  "\<exists>H. fst (session_task demo_run (session_task_start demo_io fresh_shared) fresh_shared) = TaskEnded
     \<and> H = [Stdout 1 [104, 105], Stdout 2 [33], Exit 3 3] \<and> numbered H
     \<and> stdout_bytes H = [104, 105, 33]"
proof -
  let ?st0 = "session_task_start demo_io fresh_shared"
  have run: "session_task demo_run ?st0 fresh_shared =
      (TaskEnded, \<lparr>sh_log = \<lparr>log_buffer = [Stdout 1 [104, 105], Stdout 2 [33], Exit 3 3],
         log_trimmed = 0, log_latest = 3\<rparr>, sh_stdin_applied = 0\<rparr>, [Reap])"
    by (simp add: demo_defs task_eval parse_exit_line_3)
  have "length demo_run + 1 < 2 ^ 64" by (simp add: demo_defs)
  from session_log_faithful [OF this refl run] run show ?thesis by simp
qed

text \<open>
  Input survives a resend exactly.  A task that has applied the first \<open>l\<close> messages of
  the client's input history is offered a replay that starts at or before message \<open>l + 1\<close>
  (the resend after a reconnect).  It writes to the child exactly the bytes of the messages
  not applied before, up to an end of file, and nothing twice; its count of applied input
  is then the whole history.
\<close>
theorem stdin_replay_exact:
  assumes "numbered H" "list_all (\<lambda>m. stdin_item (Message m) \<noteq> None) H"
    and "k \<le> unat (last_client_seq st)" "unat (last_client_seq st) \<le> length H"
    and "io_stdin st \<noteq> None" "stdout_open st" "env_write env = WriteOk"
  shows "\<exists>st' sh' eff.
      session_task (map (\<lambda>m. (env, Inbound (Some (Message m)))) (drop k H)) st sh = (TaskRunning st', sh', eff)
      \<and> last_client_seq st' = of_nat (length H)
      \<and> written eff = stdin_bytes (takeWhile (\<lambda>m. \<not> is_eof m) (drop (unat (last_client_seq st)) H))
      \<and> (io_stdin st' = None \<longleftrightarrow> list_ex is_eof (drop (unat (last_client_seq st)) H))"
proof -
  let ?l = "last_client_seq st" and ?inps = "map (\<lambda>m. (env, Message m)) (drop k H)"
  have items: "List.map_filter stdin_item (map Message ms) = map (Pair True) ms"
    if "list_all (\<lambda>m. stdin_item (Message m) \<noteq> None) ms" for ms
    using that by (induction ms) (auto simp: map_filter_simps elim!: stdin_item.elims)
  have "list_all (\<lambda>m. stdin_item (Message m) \<noteq> None) (drop k H)"
    using assms(2) by (auto simp: list_all_iff dest: in_set_dropD)
  then have rx: "receive stdin_accepts (?l, []) (List.map_filter stdin_item (map Message (drop k H)))
      = (of_nat (length H), drop (unat ?l) H)"
    using stdin_rx.receive_replay [OF assms(1,3,4), of "[]"] by (simp add: items)
  have "list_all (\<lambda>(env, i). env_write env = WriteOk \<and> \<not> is_stop i) ?inps"
    using assms(7) by (simp add: list_all_iff)
  from session_task_refines [OF this assms(6), of sh "[]"] obtain st' sh' eff where
    "session_task (map (\<lambda>(env, i). (env, Inbound (Some i))) ?inps) st sh = (TaskRunning st', sh', eff)"
    "stdin_abs st' (written eff) = foldl stdin_spec (stdin_abs st []) (map snd ?inps)"
    by auto
  moreover have "map snd ?inps = map Message (drop k H)" by (simp add: comp_def)
  ultimately show ?thesis using assms(5) rx
    by (auto simp: stdin_abs_def stdin_spec_receive Let_def comp_def)
qed

theorem stdin_replay_exact_witness:
  "\<exists>st' sh' eff.
      session_task (map (\<lambda>m. (demo_env, Inbound (Some (Message m)))) [Stdin 1 [97], Stdin 2 [98], StdinEof 3])
        (session_task_start demo_io \<lparr>sh_log = OutboundLog_default, sh_stdin_applied = 1\<rparr>) fresh_shared
        = (TaskRunning st', sh', eff)
      \<and> last_client_seq st' = 3 \<and> written eff = [98] \<and> io_stdin st' = None"
proof -
  let ?H = "[Stdin 1 [97], Stdin 2 [98], StdinEof 3]"
  let ?st = "session_task_start demo_io \<lparr>sh_log = OutboundLog_default, sh_stdin_applied = 1\<rparr>"
  have "numbered ?H" by (auto simp: numbered_def less_Suc_eq)
  moreover have "list_all (\<lambda>m. stdin_item (Message m) \<noteq> None) ?H" by auto
  moreover have "last_client_seq ?st = 1" "io_stdin ?st \<noteq> None" "stdout_open ?st" "env_write demo_env = WriteOk"
    by (simp_all add: session_task_start_def demo_defs)
  ultimately show ?thesis
    using stdin_replay_exact [of ?H 0 ?st demo_env fresh_shared] by fastforce
qed

text \<open>
  The exit code comes back as the command set it.  Whatever pieces the line
  \<open>echo $?\<close> arrives in, reading them gives the task exactly that exit code, and the wrapper
  is reaped if this daemon spawned it.
\<close>
theorem exit_code_roundtrip:
  assumes "concat (map snd chunks) = bytes_of_text (show_nat n) @ [10]" "n < 2 ^ 31"
    and "list_all (\<lambda>(env, c). c \<noteq> []) chunks"
    and "exit_line st = []" "io_exit_code st = None" "stdout_open st"
  shows "\<exists>st' eff. session_task (map (\<lambda>(env, c). (env, ExitRead (ReadOk c))) chunks) st sh
           = (TaskRunning st', sh, eff) \<and> io_exit_code st' = Some (int n)
             \<and> (io_child st \<longrightarrow> Reap \<in> set eff)"
  using exit_code_chunks [of st chunks "bytes_of_text (show_nat n)" sh] assms
  by (simp add: newline_not_in_number parse_exit_line_number)

theorem exit_code_roundtrip_witness:
  "\<exists>st' eff. session_task [(demo_env, ExitRead (ReadOk [52])), (demo_env, ExitRead (ReadOk [50, 10]))]
       (session_task_start demo_io fresh_shared) fresh_shared = (TaskRunning st', fresh_shared, eff)
     \<and> io_exit_code st' = Some 42 \<and> Reap \<in> set eff"
proof -
  let ?st = "session_task_start demo_io fresh_shared" and ?chunks = "[(demo_env, [52::u8]), (demo_env, [50, 10])]"
  have "concat (map snd ?chunks) = bytes_of_text (show_nat 42) @ [10]"
    by (simp add: bytes_of_text_def show_nat.simps)
  from exit_code_roundtrip [OF this, of ?st fresh_shared] show ?thesis
    by (simp add: session_task_start_def demo_defs)
qed

text \<open>
  The daemon never signals its own process group.  A signal goes out only when the task is
  aborted, and only to the session's own, positive process group, also for a session whose
  group id came out of \<open>sessions.json\<close>.
\<close>
theorem task_never_kills_own_group:
  assumes "session_task_step env ev st sh = (outcome, sh', eff)" "KillPg p \<in> set eff"
  shows "0 < p \<and> p = io_pgid st \<and> outcome = TaskAborted"
  using assms by (rule task_kills_positive)

theorem task_never_kills_own_group_witness:
  "\<exists>sh' eff. session_task_step demo_env (Inbound (Some Abort)) (session_task_start demo_io fresh_shared) fresh_shared
       = (TaskAborted, sh', eff) \<and> KillPg 100 \<in> set eff \<and> (0::int) < 100"
proof -
  let ?st = "session_task_start demo_io fresh_shared"
  have step: "session_task_step demo_env (Inbound (Some Abort)) ?st fresh_shared
      = (TaskAborted, fresh_shared, [KillPg 100, Reap])"
    by (simp add: task_eval demo_defs)
  from task_never_kills_own_group [OF step, of 100] step show ?thesis by simp
qed

end
