(* ===== verification/Auth.thy ===== *)
theory Auth
  imports StdText
begin

text \<open>
  Client authentication (\<open>src/server/src/auth.rs\<close>): the pre-shared token, compared without
  an early exit, and OIDC bearer tokens with the cached key set of the issuer.

  The JWT library (\<open>jsonwebtoken\<close>) and the HTTP client (\<open>reqwest\<close>) are parameters, the
  fields of \<open>oidc_lib\<close>; the \<open>n\<close>-th HTTP request may be answered differently from the
  first, so requests carry their number.  The payloads of library errors are only shown to
  the user and are dropped.
\<close>

unbundle bit_operations_syntax

section \<open>Errors and configuration\<close>

datatype AuthError =
    Rejected
  | Fetch string
  | Jwt
  | UnknownKey
  | SubNotAllowed string
  | MissingSub
  | WrongAudience
  | WrongClient string

record OidcConfig =
  cfg_issuer :: string
  cfg_client_id :: string
  cfg_allowed_sub :: string

datatype Audience = Missing | One string | Many "string list"

record Claims =
  claim_sub :: "string option"
  claim_client_id :: "string option"
  claim_aud :: Audience

record ('set, 'jwk, 'key, 'alg) oidc_lib =
  decode_header :: "string \<Rightarrow> ('alg \<times> string option) option"
  set_find :: "'set \<Rightarrow> string \<Rightarrow> 'jwk option"
  set_first :: "'set \<Rightarrow> 'jwk option"
  from_jwk :: "'jwk \<Rightarrow> 'key option"
  jwt_decode :: "string \<Rightarrow> 'key \<Rightarrow> 'alg \<Rightarrow> string \<Rightarrow> Claims option"
  get_discovery :: "nat \<Rightarrow> string \<Rightarrow> string option"
  get_jwks :: "nat \<Rightarrow> string \<Rightarrow> 'set option"

text \<open>The mutable part of \<open>Oidc\<close>: the key cache, the one-time warning, and the number of
  HTTP requests made so far.\<close>

record 'set OidcState =
  jwks :: "'set option"
  warned_missing_aud :: bool
  requests :: nat

record Auth =
  static_token :: "string option"
  oidc :: "OidcConfig option"

section \<open>The static token\<close>

definition constant_time_eq :: "bytes \<Rightarrow> bytes \<Rightarrow> bool" where
  "constant_time_eq a b \<longleftrightarrow>
     length a = length b \<and> foldl (\<lambda>acc (x, y). acc OR (x XOR y)) 0 (zip a b) = 0"

section \<open>Audience\<close>

fun accepts :: "Audience \<Rightarrow> string \<Rightarrow> bool" where
  "accepts Missing expected = True"
| "accepts (One aud) expected = (aud = expected)"
| "accepts (Many auds) expected = (auds = [] \<or> list_ex (\<lambda>aud. aud = expected) auds)"

fun aud_is_empty :: "Audience \<Rightarrow> bool" where
  "aud_is_empty Missing = True"
| "aud_is_empty (One _) = False"
| "aud_is_empty (Many auds) = (auds = [])"

section \<open>Keys\<close>

definition discovery_url :: "OidcConfig \<Rightarrow> string" where
  "discovery_url cfg = trim_end_matches CHR ''/'' (cfg_issuer cfg) @ ''/.well-known/openid-configuration''"

definition fetch_jwks ::
  "('set, 'jwk, 'key, 'alg) oidc_lib \<Rightarrow> OidcConfig \<Rightarrow> 'set OidcState \<Rightarrow>
   (AuthError + 'set) \<times> 'set OidcState" where
  "fetch_jwks lib cfg st =
     (case get_discovery lib (requests st) (discovery_url cfg) of
        None \<Rightarrow> (Inl (Fetch (discovery_url cfg)), st\<lparr>requests := requests st + 1\<rparr>)
      | Some uri \<Rightarrow>
          (case get_jwks lib (requests st + 1) uri of
             None \<Rightarrow> (Inl (Fetch uri), st\<lparr>requests := requests st + 2\<rparr>)
           | Some s \<Rightarrow> (Inr s, st\<lparr>requests := requests st + 2\<rparr>)))"

definition lookup_key :: "('set, 'jwk, 'key, 'alg) oidc_lib \<Rightarrow> 'set \<Rightarrow> string option \<Rightarrow> 'jwk option" where
  "lookup_key lib s kid = (case kid of Some k \<Rightarrow> set_find lib s k | None \<Rightarrow> set_first lib s)"

text \<open>The body of the loop \<open>for fetch in [false, true]\<close>: refresh the cached set when asked
  to or when there is none, then look the key up in it.\<close>

definition load_set ::
  "('set, 'jwk, 'key, 'alg) oidc_lib \<Rightarrow> OidcConfig \<Rightarrow> bool \<Rightarrow> 'set OidcState \<Rightarrow>
   (AuthError + 'set) \<times> 'set OidcState" where
  "load_set lib cfg fetch st =
     (case (if fetch then None else jwks st) of
        Some s \<Rightarrow> (Inr s, st)
      | None \<Rightarrow>
          (case fetch_jwks lib cfg st of
             (Inl e, st') \<Rightarrow> (Inl e, st')
           | (Inr s, st') \<Rightarrow> (Inr s, st'\<lparr>jwks := Some s\<rparr>)))"

fun decoding_key_loop ::
  "('set, 'jwk, 'key, 'alg) oidc_lib \<Rightarrow> OidcConfig \<Rightarrow> string option \<Rightarrow> bool list \<Rightarrow> 'set OidcState \<Rightarrow>
   (AuthError + 'key) \<times> 'set OidcState" where
  "decoding_key_loop lib cfg kid [] st = (Inl UnknownKey, st)"
| "decoding_key_loop lib cfg kid (fetch # rest) st =
     (case load_set lib cfg fetch st of
        (Inl e, st1) \<Rightarrow> (Inl e, st1)
      | (Inr s, st1) \<Rightarrow>
          (case lookup_key lib s kid of
             Some jwk \<Rightarrow>
               (case from_jwk lib jwk of Some key \<Rightarrow> (Inr key, st1) | None \<Rightarrow> (Inl Jwt, st1))
           | None \<Rightarrow> decoding_key_loop lib cfg kid rest st1))"

definition decoding_key ::
  "('set, 'jwk, 'key, 'alg) oidc_lib \<Rightarrow> OidcConfig \<Rightarrow> string option \<Rightarrow> 'set OidcState \<Rightarrow>
   (AuthError + 'key) \<times> 'set OidcState" where
  "decoding_key lib cfg kid st = decoding_key_loop lib cfg kid [False, True] st"

section \<open>Verification\<close>

text \<open>
  The checks on the decoded claims, in the order of the code: audience, then client id, then
  (after the warning) the subject.
\<close>

definition check_audience :: "OidcConfig \<Rightarrow> Claims \<Rightarrow> AuthError + unit" where
  "check_audience cfg c =
     (if \<not> accepts (claim_aud c) (cfg_client_id cfg) then Inl WrongAudience
      else case claim_client_id c of
             Some cid \<Rightarrow> if cid \<noteq> cfg_client_id cfg then Inl (WrongClient cid) else Inr ()
           | None \<Rightarrow> Inr ())"

definition check_subject :: "OidcConfig \<Rightarrow> Claims \<Rightarrow> AuthError + unit" where
  "check_subject cfg c =
     (case (case claim_sub c of Some s \<Rightarrow> Some s | None \<Rightarrow> claim_client_id c) of
        None \<Rightarrow> Inl MissingSub
      | Some subject \<Rightarrow>
          if subject \<noteq> cfg_allowed_sub cfg then Inl (SubNotAllowed subject) else Inr ())"

definition oidc_verify ::
  "('set, 'jwk, 'key, 'alg) oidc_lib \<Rightarrow> OidcConfig \<Rightarrow> string \<Rightarrow> 'set OidcState \<Rightarrow>
   (AuthError + unit) \<times> 'set OidcState" where
  "oidc_verify lib cfg token st =
     (case decode_header lib token of
        None \<Rightarrow> (Inl Jwt, st)
      | Some (alg, kid) \<Rightarrow>
          (case decoding_key lib cfg kid st of
             (Inl e, st') \<Rightarrow> (Inl e, st')
           | (Inr key, st') \<Rightarrow>
               (case jwt_decode lib token key alg (cfg_issuer cfg) of
                  None \<Rightarrow> (Inl Jwt, st')
                | Some c \<Rightarrow>
                    (case check_audience cfg c of
                       Inl e \<Rightarrow> (Inl e, st')
                     | Inr _ \<Rightarrow>
                         (check_subject cfg c,
                          if aud_is_empty (claim_aud c) then st'\<lparr>warned_missing_aud := True\<rparr>
                          else st')))))"

definition verify ::
  "('set, 'jwk, 'key, 'alg) oidc_lib \<Rightarrow> Auth \<Rightarrow> string \<Rightarrow> 'set OidcState \<Rightarrow>
   (AuthError + unit) \<times> 'set OidcState" where
  "verify lib auth presented st =
     (if (case static_token auth of
            Some t \<Rightarrow> constant_time_eq (bytes_of_text t) (bytes_of_text presented)
          | None \<Rightarrow> False)
      then (Inr (), st)
      else case oidc auth of
             None \<Rightarrow> (Inl Rejected, st)
           | Some cfg \<Rightarrow> oidc_verify lib cfg presented st)"

section \<open>Laws\<close>

lemma word_xor_0: "(x :: u8) XOR y = 0 \<longleftrightarrow> x = y"
  by (auto simp: bit_eq_iff bit_xor_iff)

lemma foldl_or_0:
  "foldl (\<lambda>acc (x, y). acc OR (x XOR y)) z ps = (0 :: u8) \<longleftrightarrow> z = 0 \<and> (\<forall>(x, y)\<in>set ps. x = y)"
  by (induction ps arbitrary: z) (auto simp: word_xor_0 or_eq_0_iff)

lemma zip_all_eq: "length a = length b \<Longrightarrow> (\<forall>(x, y)\<in>set (zip a b). x = y) \<longleftrightarrow> a = b"
  by (induction a b rule: list_induct2) auto

lemma constant_time_eq_iff: "constant_time_eq a b \<longleftrightarrow> a = b"
  using zip_all_eq [of a b] unfolding constant_time_eq_def foldl_or_0 by auto

lemma bytes_of_text_inject [simp]: "bytes_of_text a = bytes_of_text b \<longleftrightarrow> a = b"
  by (metis text_bytes_text)

text \<open>The key set in the cache is the initial one or one the issuer served.\<close>

definition served :: "('set, 'jwk, 'key, 'alg) oidc_lib \<Rightarrow> OidcConfig \<Rightarrow> 'set \<Rightarrow> bool" where
  "served lib cfg s \<longleftrightarrow>
     (\<exists>n uri. get_discovery lib n (discovery_url cfg) = Some uri \<and> get_jwks lib (n + 1) uri = Some s)"

definition cache_ok :: "('set, 'jwk, 'key, 'alg) oidc_lib \<Rightarrow> OidcConfig \<Rightarrow> 'set OidcState \<Rightarrow> bool" where
  "cache_ok lib cfg st \<longleftrightarrow> (\<forall>s. jwks st = Some s \<longrightarrow> served lib cfg s)"

lemma fetch_jwks_served: "fetch_jwks lib cfg st = (Inr s, st') \<Longrightarrow> served lib cfg s"
  by (auto simp: fetch_jwks_def served_def split: option.splits)

lemma fetch_jwks_state:
  "fetch_jwks lib cfg st = (r, st') \<Longrightarrow> jwks st' = jwks st \<and> requests st' \<le> requests st + 2"
  by (auto simp: fetch_jwks_def split: option.splits)

lemma load_set_Inr: "load_set lib cfg f st = (Inr s, st') \<Longrightarrow> jwks st' = Some s"
  by (auto simp: load_set_def split: option.splits sum.splits prod.splits if_splits)

lemma load_set_cache:
  assumes "load_set lib cfg f st = (r, st')" "cache_ok lib cfg st"
  shows "cache_ok lib cfg st' \<and> requests st' \<le> requests st + 2"
proof (cases "if f then None else jwks st")
  case None
  obtain r1 st1 where f1: "fetch_jwks lib cfg st = (r1, st1)" by force
  with None assms fetch_jwks_state [OF f1] fetch_jwks_served [of lib cfg st _ st1] show ?thesis
    by (cases r1) (auto simp: load_set_def cache_ok_def)
next
  case (Some s)
  with assms show ?thesis by (simp add: load_set_def)
qed

lemma decoding_key_loop_from_set:
  "decoding_key_loop lib cfg kid fs st = (Inr key, st') \<Longrightarrow>
   \<exists>s jwk. jwks st' = Some s \<and> lookup_key lib s kid = Some jwk \<and> from_jwk lib jwk = Some key"
proof (induction fs arbitrary: st)
  case (Cons f fs)
  obtain r1 st1 where l: "load_set lib cfg f st = (r1, st1)" by force
  with Cons.prems obtain s where r1: "r1 = Inr s" by (cases r1) auto
  with l Cons load_set_Inr show ?case by (fastforce split: option.splits)
qed simp

lemma decoding_key_loop_cache:
  "decoding_key_loop lib cfg kid fs st = (r, st') \<Longrightarrow> cache_ok lib cfg st \<Longrightarrow>
   cache_ok lib cfg st' \<and> requests st' \<le> requests st + 2 * length fs"
proof (induction fs arbitrary: st)
  case Nil
  then show ?case by simp
next
  case (Cons f fs)
  obtain r1 st1 where l: "load_set lib cfg f st = (r1, st1)" by force
  note st1 = load_set_cache [OF l Cons.prems(2)]
  show ?case
  proof (cases "\<exists>s. r1 = Inr s \<and> lookup_key lib s kid = None")
    case True
    with l Cons.prems(1) have "decoding_key_loop lib cfg kid fs st1 = (r, st')" by auto
    with Cons.IH [of st1] st1 show ?thesis by simp
  next
    case False
    with l Cons.prems(1) have "st' = st1" by (auto split: sum.splits option.splits)
    with st1 show ?thesis by simp
  qed
qed

text \<open>A key that is already cached is used without a request.\<close>

lemma decoding_key_cached:
  "jwks st = Some s \<Longrightarrow> lookup_key lib s kid = Some jwk \<Longrightarrow> from_jwk lib jwk = Some key \<Longrightarrow>
   decoding_key lib cfg kid st = (Inr key, st)"
  by (simp add: decoding_key_def load_set_def)

lemma check_claims_ok:
  "check_audience cfg c = Inr () \<and> check_subject cfg c = Inr () \<longleftrightarrow>
     accepts (claim_aud c) (cfg_client_id cfg)
     \<and> (\<forall>cid. claim_client_id c = Some cid \<longrightarrow> cid = cfg_client_id cfg)
     \<and> (claim_sub c = Some (cfg_allowed_sub cfg)
        \<or> claim_sub c = None \<and> claim_client_id c = Some (cfg_allowed_sub cfg))"
  by (auto simp: check_audience_def check_subject_def split: option.splits)

section \<open>Properties\<close>

text \<open>A concrete issuer with one key, for the witnesses: the token is its own subject.\<close>

definition demo_cfg :: OidcConfig where
  "demo_cfg = \<lparr>cfg_issuer = ''https://i/'', cfg_client_id = ''app'', cfg_allowed_sub = ''joe''\<rparr>"

definition demo_lib :: "(nat, nat, nat, unit) oidc_lib" where
  "demo_lib =
     \<lparr>decode_header = (\<lambda>t. Some ((), None)),
      set_find = (\<lambda>s k. None), set_first = (\<lambda>s. Some s), from_jwk = Some,
      jwt_decode = (\<lambda>t key alg iss.
        if key = 7 \<and> iss = ''https://i/''
        then Some \<lparr>claim_sub = Some t, claim_client_id = None, claim_aud = One ''app''\<rparr> else None),
      get_discovery = (\<lambda>n url. if url = ''https://i/.well-known/openid-configuration'' then Some ''keys'' else None),
      get_jwks = (\<lambda>n uri. Some 7)\<rparr>"

lemma demo_sel [simp]:
  "decode_header demo_lib t = Some ((), None)" "set_find demo_lib x k = None"
  "set_first demo_lib x = Some x" "from_jwk demo_lib j = Some j" "get_jwks demo_lib n uri = Some 7"
  "cfg_client_id demo_cfg = ''app''" "cfg_allowed_sub demo_cfg = ''joe''"
  "jwt_decode demo_lib t 7 alg (cfg_issuer demo_cfg)
     = Some \<lparr>claim_sub = Some t, claim_client_id = None, claim_aud = One ''app''\<rparr>"
  "get_discovery demo_lib n (discovery_url demo_cfg) = Some ''keys''"
  by (simp_all add: demo_lib_def demo_cfg_def discovery_url_def trim_end_matches_def)

text \<open>
  C14: Authentication is sound.  Whoever gets past \<open>verify\<close> presented the configured static
  token byte for byte, or a bearer token that the JWT library validated for the configured
  issuer with a key from a key set the issuer served, whose audience is missing, empty or
  names this client, whose client id, if it has one, is this client's, and whose subject (the \<open>sub\<close> claim, or the client id when there is none)
  is the allowed one.
\<close>
theorem verify_sound:
  assumes "verify lib auth presented st = (Inr (), st')"
    and "\<forall>cfg. oidc auth = Some cfg \<longrightarrow> cache_ok lib cfg st"
  shows "static_token auth = Some presented
    \<or> (\<exists>cfg alg kid s jwk key c.
          oidc auth = Some cfg \<and> decode_header lib presented = Some (alg, kid)
        \<and> served lib cfg s \<and> lookup_key lib s kid = Some jwk \<and> from_jwk lib jwk = Some key
        \<and> jwt_decode lib presented key alg (cfg_issuer cfg) = Some c
        \<and> accepts (claim_aud c) (cfg_client_id cfg)
        \<and> (\<forall>cid. claim_client_id c = Some cid \<longrightarrow> cid = cfg_client_id cfg)
        \<and> (claim_sub c = Some (cfg_allowed_sub cfg)
           \<or> claim_sub c = None \<and> claim_client_id c = Some (cfg_allowed_sub cfg)))"
proof (cases "static_token auth = Some presented")
  case False
  with assms(1) obtain cfg where cfg: "oidc auth = Some cfg"
    and v: "oidc_verify lib cfg presented st = (Inr (), st')"
    by (auto simp: verify_def constant_time_eq_iff split: option.splits if_splits)
  from v obtain alg kid key st1 c where h: "decode_header lib presented = Some (alg, kid)"
    and k: "decoding_key lib cfg kid st = (Inr key, st1)"
    and d: "jwt_decode lib presented key alg (cfg_issuer cfg) = Some c"
    and c: "check_audience cfg c = Inr () \<and> check_subject cfg c = Inr ()"
    by (auto simp: oidc_verify_def split: option.splits sum.splits prod.splits)
  from k obtain s jwk where "jwks st1 = Some s" "lookup_key lib s kid = Some jwk" "from_jwk lib jwk = Some key"
    using decoding_key_loop_from_set [OF k [unfolded decoding_key_def]] by blast
  moreover from this have "served lib cfg s"
    using decoding_key_loop_cache [OF k [unfolded decoding_key_def]] assms(2) cfg
    by (auto simp: cache_ok_def)
  ultimately show ?thesis using cfg h d c unfolding check_claims_ok by blast
qed simp

theorem verify_sound_witness:
  "verify demo_lib \<lparr>static_token = Some ''other'', oidc = Some demo_cfg\<rparr> ''joe''
      \<lparr>jwks = None, warned_missing_aud = False, requests = 0\<rparr>
     = (Inr (), \<lparr>jwks = Some 7, warned_missing_aud = False, requests = 2\<rparr>)
   \<and> served demo_lib demo_cfg 7"
proof -
  let ?st = "\<lparr>jwks = None, warned_missing_aud = False, requests = 0\<rparr>"
  let ?auth = "\<lparr>static_token = Some ''other'', oidc = Some demo_cfg\<rparr>"
  have v: "verify demo_lib ?auth ''joe'' ?st
      = (Inr (), \<lparr>jwks = Some 7, warned_missing_aud = False, requests = 2\<rparr>)"
    by (simp add: verify_def constant_time_eq_iff oidc_verify_def decoding_key_def load_set_def fetch_jwks_def
        lookup_key_def check_audience_def check_subject_def)
  have "\<forall>cfg. oidc ?auth = Some cfg \<longrightarrow> cache_ok demo_lib cfg ?st" by (simp add: cache_ok_def)
  from verify_sound [OF v this] obtain s where "served demo_lib demo_cfg s" "lookup_key demo_lib s None \<noteq> None"
    "from_jwk demo_lib s = Some s" "s = 7"
    by (auto simp: demo_lib_def lookup_key_def demo_cfg_def split: if_splits)
  with v show ?thesis by simp
qed

text \<open>
  Comparing the static token is exact: the comparison that folds over all bytes accepts
  precisely the equal byte strings.
\<close>
theorem constant_time_eq_correct: "constant_time_eq a b \<longleftrightarrow> a = b"
  by (rule constant_time_eq_iff)

text \<open>
  Looking up a verification key costs no request when the key is cached and never more
  than two fetches (four HTTP requests) otherwise, even for a token with an unknown key id;
  and what is cached afterwards is a key set the issuer served.
\<close>
theorem decoding_key_bounded:
  assumes "decoding_key lib cfg kid st = (r, st')" and "cache_ok lib cfg st"
  shows "requests st' \<le> requests st + 4 \<and> cache_ok lib cfg st'
    \<and> (\<forall>s jwk key. jwks st = Some s \<longrightarrow> lookup_key lib s kid = Some jwk \<longrightarrow>
         from_jwk lib jwk = Some key \<longrightarrow> r = Inr key \<and> st' = st)"
proof -
  have "cache_ok lib cfg st' \<and> requests st' \<le> requests st + 4"
    using decoding_key_loop_cache [OF assms(1) [unfolded decoding_key_def] assms(2)] by simp
  moreover have "r = Inr key \<and> st' = st"
    if "jwks st = Some s" "lookup_key lib s kid = Some jwk" "from_jwk lib jwk = Some key" for s jwk key
    using decoding_key_cached [OF that, of cfg] assms(1) by simp
  ultimately show ?thesis by blast
qed

theorem decoding_key_bounded_witness:
  "\<exists>st'. decoding_key demo_lib demo_cfg (Some ''nope'') \<lparr>jwks = None, warned_missing_aud = False, requests = 0\<rparr>
       = (Inl UnknownKey, st') \<and> requests st' = 4 \<and> requests st' \<le> 0 + 4 \<and> cache_ok demo_lib demo_cfg st'"
proof -
  let ?st = "\<lparr>jwks = None :: nat option, warned_missing_aud = False, requests = 0\<rparr>"
  have k: "decoding_key demo_lib demo_cfg (Some ''nope'') ?st
      = (Inl UnknownKey, \<lparr>jwks = Some 7, warned_missing_aud = False, requests = 4\<rparr>)"
    by (simp add: decoding_key_def load_set_def fetch_jwks_def lookup_key_def)
  have "cache_ok demo_lib demo_cfg ?st" by (simp add: cache_ok_def)
  from decoding_key_bounded [OF k this] k show ?thesis by simp
qed

end
