(* ===== verification/Channel.thy ===== *)
theory Channel
  imports Proto Auth
begin

text \<open>
  The transports of both endpoints (\<open>src/server/src/channel.rs\<close>,
  \<open>src/client/src/channel.rs\<close>): a WebSocket whose binary messages are encoded messages, or
  a QUIC stream of length-prefixed frames with unreliable datagrams beside it.

  What a transport delivers is the list of items its library returned, in the order they
  were polled; \<open>next\<close> consumes items until it can return an event, and returns \<open>None\<close> when
  it is still waiting.  Dropping a waiting \<open>next\<close> (as \<open>select!\<close> does) keeps the decoder
  it returned.  The error payloads of the libraries are dropped.
\<close>

datatype ServerError =
    Io
  | WebSocket
  | Protocol
  | HandshakeClosed
  | AuthFailed AuthError
  | UnknownResumeToken
  | AgentNotEnabled
  | SessionAborted

datatype Event =
    Frame bytes
  | Datagram bytes
  | Closed
  | Failed ServerError

datatype WsItem = WsBinary bytes | WsClose | WsEnd | WsOther | WsErr

datatype QuicItem = QChunk bytes | QStreamEnd | QStreamErr | QDatagram bytes | QDatagramErr

datatype Transport = Ws | Quic

section \<open>Server side\<close>

fun ws_next :: "WsItem list \<Rightarrow> Event option \<times> WsItem list" where
  "ws_next [] = (None, [])"
| "ws_next (WsBinary bs # items) = (Some (Frame bs), items)"
| "ws_next (WsClose # items) = (Some Closed, items)"
| "ws_next (WsEnd # items) = (Some Closed, items)"
| "ws_next (WsOther # items) = ws_next items"
| "ws_next (WsErr # items) = (Some (Failed WebSocket), items)"

fun quic_next :: "FrameDecoder \<Rightarrow> QuicItem list \<Rightarrow> Event option \<times> FrameDecoder \<times> QuicItem list" where
  "quic_next d items =
     (case next_frame d of
        (Inr (Some frame), d') \<Rightarrow> (Some (Frame frame), d', items)
      | (Inl _, d') \<Rightarrow> (Some (Failed Io), d', items)
      | (Inr None, d') \<Rightarrow>
          (case items of
             [] \<Rightarrow> (None, d', [])
           | QChunk c # rest \<Rightarrow> quic_next (decoder_push d' c) rest
           | QStreamEnd # rest \<Rightarrow> (Some Closed, d', rest)
           | QStreamErr # rest \<Rightarrow> (Some (Failed Io), d', rest)
           | QDatagram bs # rest \<Rightarrow> (Some (Datagram bs), d', rest)
           | QDatagramErr # rest \<Rightarrow> (Some (Failed Io), d', rest)))"

declare quic_next.simps [simp del]

text \<open>What a successful \<open>send\<close> puts on the wire: a binary WebSocket message or stream bytes.\<close>

definition channel_send ::
  "('pe, 'ze, 't) codec \<Rightarrow> Transport \<Rightarrow> 't \<Rightarrow> ServerError + bytes" where
  "channel_send lib tr msg =
     (case tr of
        Ws \<Rightarrow> map_err (\<lambda>_. Protocol) (encode lib msg)
      | Quic \<Rightarrow> map_err (\<lambda>_. Protocol) (encode_frame lib msg))"

text \<open>The datagram that \<open>send_duplicate\<close> schedules, if any.\<close>

definition send_duplicate ::
  "('pe, 'ze, ChannelMessage) codec \<Rightarrow> Transport \<Rightarrow> ChannelMessage \<Rightarrow> bytes option" where
  "send_duplicate lib tr msg =
     (if tr = Ws then None
      else if \<not> worth_duplicating msg then None
      else case encode lib msg of Inl _ \<Rightarrow> None | Inr bs \<Rightarrow> Some bs)"

text \<open>\<open>recv\<close> during the handshake, over the events \<open>next\<close> returns; \<open>None\<close> is still waiting.\<close>

fun recv :: "('pe, 'ze, 't) codec \<Rightarrow> Event list \<Rightarrow> (ServerError + 't) option \<times> Event list" where
  "recv lib [] = (None, [])"
| "recv lib (Frame bs # evs) = (Some (map_err (\<lambda>_. Protocol) (decode lib bs)), evs)"
| "recv lib (Datagram _ # evs) = recv lib evs"
| "recv lib (Closed # evs) = (Some (Inl HandshakeClosed), evs)"
| "recv lib (Failed e # evs) = (Some (Inl e), evs)"

definition needs_ping :: "Transport \<Rightarrow> bool" where
  "needs_ping tr \<longleftrightarrow> tr = Ws"

section \<open>Client side\<close>

datatype ConnEvent = ConnFrame bytes | ConnDatagram bytes | Disconnected

fun conn_ws_next :: "WsItem list \<Rightarrow> ConnEvent option \<times> WsItem list" where
  "conn_ws_next [] = (None, [])"
| "conn_ws_next (WsBinary bs # items) = (Some (ConnFrame bs), items)"
| "conn_ws_next (WsClose # items) = (Some Disconnected, items)"
| "conn_ws_next (WsEnd # items) = (Some Disconnected, items)"
| "conn_ws_next (WsErr # items) = (Some Disconnected, items)"
| "conn_ws_next (WsOther # items) = conn_ws_next items"

fun conn_quic_next ::
  "FrameDecoder \<Rightarrow> QuicItem list \<Rightarrow> ConnEvent option \<times> FrameDecoder \<times> QuicItem list" where
  "conn_quic_next d items =
     (case next_frame d of
        (Inr (Some frame), d') \<Rightarrow> (Some (ConnFrame frame), d', items)
      | (Inl _, d') \<Rightarrow> (Some Disconnected, d', items)
      | (Inr None, d') \<Rightarrow>
          (case items of
             [] \<Rightarrow> (None, d', [])
           | QChunk c # rest \<Rightarrow> conn_quic_next (decoder_push d' c) rest
           | QStreamEnd # rest \<Rightarrow> (Some Disconnected, d', rest)
           | QStreamErr # rest \<Rightarrow> (Some Disconnected, d', rest)
           | QDatagram bs # rest \<Rightarrow> (Some (ConnDatagram bs), d', rest)
           | QDatagramErr # rest \<Rightarrow> (Some Disconnected, d', rest)))"

declare conn_quic_next.simps [simp del]

section \<open>Laws\<close>

fun conn_event :: "Event \<Rightarrow> ConnEvent" where
  "conn_event (Frame bs) = ConnFrame bs"
| "conn_event (Datagram bs) = ConnDatagram bs"
| "conn_event Closed = Disconnected"
| "conn_event (Failed _) = Disconnected"

lemma conn_ws_next_eq: "conn_ws_next items = map_prod (map_option conn_event) id (ws_next items)"
  by (induction items rule: ws_next.induct) auto

lemma conn_quic_next_eq:
  "conn_quic_next d items = map_prod (map_option conn_event) id (quic_next d items)"
proof (induction d items rule: quic_next.induct)
  case (1 d items)
  show ?case
    using "1.IH"
    by (auto simp: quic_next.simps [of d items] conn_quic_next.simps [of d items]
        split: prod.splits sum.splits option.splits list.splits QuicItem.splits)
qed

text \<open>
  The attach loops call \<open>next\<close> again and again until it waits; the fuel of the loop is at
  most the number of items plus the frames they complete, both bounded by what was received.
\<close>

fun next_loop :: "nat \<Rightarrow> FrameDecoder \<Rightarrow> QuicItem list \<Rightarrow> Event list \<times> FrameDecoder \<times> QuicItem list" where
  "next_loop 0 d items = ([], d, items)"
| "next_loop (Suc n) d items =
     (case quic_next d items of
        (None, d', items') \<Rightarrow> ([], d', items')
      | (Some ev, d', items') \<Rightarrow>
          (case next_loop n d' items' of (evs, r) \<Rightarrow> (ev # evs, r)))"

fun item_chunk :: "QuicItem \<Rightarrow> bytes" where
  "item_chunk (QChunk c) = c"
| "item_chunk _ = []"

fun event_frames :: "Event list \<Rightarrow> bytes list" where
  "event_frames [] = []"
| "event_frames (Frame f # evs) = f # event_frames evs"
| "event_frames (_ # evs) = event_frames evs"

fun event_datagrams :: "Event list \<Rightarrow> bytes list" where
  "event_datagrams [] = []"
| "event_datagrams (Datagram b # evs) = b # event_datagrams evs"
| "event_datagrams (_ # evs) = event_datagrams evs"

fun item_datagrams :: "QuicItem list \<Rightarrow> bytes list" where
  "item_datagrams [] = []"
| "item_datagrams (QDatagram b # items) = b # item_datagrams items"
| "item_datagrams (_ # items) = item_datagrams items"

fun is_data :: "QuicItem \<Rightarrow> bool" where
  "is_data (QChunk _) = True"
| "is_data (QDatagram _) = True"
| "is_data _ = False"

text \<open>What is still to come: the undelivered bytes of the stream.\<close>

abbreviation stream_of :: "FrameDecoder \<Rightarrow> QuicItem list \<Rightarrow> bytes" where
  "stream_of d items \<equiv> buf d @ concat (map item_chunk items)"

lemma next_frame_stream:
  assumes "buf d @ tail = concat (map frame_of bodies)" "\<forall>b\<in>set bodies. length b \<le> MAX_FRAME"
  shows "next_frame d = (Inr (Some f), d') \<Longrightarrow>
      \<exists>bodies'. bodies = f # bodies' \<and> buf d' @ tail = concat (map frame_of bodies')"
    and "fst (next_frame d) \<noteq> Inl e"
    and "fst (next_frame d) = Inr None \<Longrightarrow> tail = [] \<Longrightarrow> bodies = []"
proof -
  have push: "decoder_push d tail = \<lparr>buf = concat (map frame_of bodies)\<rparr>"
    using assms(1) by (simp add: decoder_push_def)
  have whole: "next_frame (decoder_push d tail)
      = (if bodies = [] then (Inr None, FrameDecoder_new)
         else (Inr (Some (hd bodies)), \<lparr>buf = concat (map frame_of (tl bodies))\<rparr>))"
    using assms(2) next_frame_frame_of [of "hd bodies" "concat (map frame_of (tl bodies))"]
    unfolding push by (cases bodies) (auto simp: next_frame_def FrameDecoder_new_def)
  show "\<exists>bodies'. bodies = f # bodies' \<and> buf d' @ tail = concat (map frame_of bodies')"
    if "next_frame d = (Inr (Some f), d')"
    using next_frame_push [OF that, of tail] whole
    by (cases bodies) (auto dest: arg_cong [where f = buf])
  show "fst (next_frame d) \<noteq> Inl e"
    using next_frame_push_error(2) [of d e _ tail] whole
    by (cases "next_frame d") (auto split: if_splits)
  show "bodies = []" if "fst (next_frame d) = Inr None" "tail = []"
    using that whole by (auto split: if_splits)
qed

text \<open>One call of \<open>next\<close> on a well-formed stream: the next frame, or the next datagram, and
  nothing lost; it waits only when everything was handed out.\<close>

lemma quic_next_exact:
  assumes "quic_next d items = (r, d', items')" "list_all is_data items"
    and "stream_of d items = concat (map frame_of bodies)" "\<forall>b\<in>set bodies. length b \<le> MAX_FRAME"
  shows "list_all is_data items' \<and>
     (case r of
        Some (Frame f) \<Rightarrow> item_datagrams items' = item_datagrams items
          \<and> (\<exists>bodies'. bodies = f # bodies' \<and> stream_of d' items' = concat (map frame_of bodies'))
      | Some (Datagram b) \<Rightarrow> item_datagrams items = b # item_datagrams items'
          \<and> stream_of d' items' = concat (map frame_of bodies)
      | None \<Rightarrow> bodies = [] \<and> items' = [] \<and> item_datagrams items = [] \<and> buf d' = []
      | _ \<Rightarrow> False)"
  using assms
proof (induction d items rule: quic_next.induct)
  case (1 d items)
  obtain x d1 where nf: "next_frame d = (x, d1)" by force
  note st = next_frame_stream [OF "1.prems"(3,4)]
  consider (frame) f where "x = Inr (Some f)" | (none) "x = Inr None"
    using st(2) nf by (cases x) (auto intro: option.exhaust)
  then show ?case
  proof cases
    case frame
    with nf "1.prems"(1) have "r = Some (Frame f)" "d1 = d'" "items' = items"
      by (auto simp: quic_next.simps [of d items])
    with nf frame "1.prems"(2) st(1) [of f d'] show ?thesis by auto
  next
    case none
    with nf have d1: "d1 = d" using next_frame_None by blast
    show ?thesis
    proof (cases items)
      case Nil
      with none nf d1 "1.prems"(1,3) st(3) show ?thesis
        by (auto simp: quic_next.simps [of d "[]"])
    next
      case (Cons it rest)
      show ?thesis
      proof (cases it)
        case (QChunk c)
        with Cons none nf d1 "1.prems"(1) have "quic_next (decoder_push d c) rest = (r, d', items')"
          by (simp add: quic_next.simps [of d "_ # _"])
        moreover have dg: "item_datagrams items = item_datagrams rest" using Cons QChunk by simp
        ultimately show ?thesis
          unfolding dg using "1.IH" [OF nf [symmetric] none refl Cons QChunk] Cons QChunk d1 "1.prems"(2,3,4)
          by simp
      next
        case (QDatagram b)
        with Cons none nf d1 "1.prems" show ?thesis
          by (auto simp: quic_next.simps [of d "_ # _"])
      qed (use Cons "1.prems"(2) in auto)
    qed
  qed
qed

lemma next_loop_exact:
  assumes "list_all is_data items" "stream_of d items = concat (map frame_of bodies)"
    and "\<forall>b\<in>set bodies. length b \<le> MAX_FRAME" "length bodies + length (item_datagrams items) < n"
  shows "\<exists>evs d'. next_loop n d items = (evs, d', []) \<and> buf d' = [] \<and> event_frames evs = bodies
      \<and> event_datagrams evs = item_datagrams items \<and> length evs = length bodies + length (item_datagrams items)"
  using assms
proof (induction n arbitrary: d items bodies)
  case 0
  then show ?case by simp
next
  case (Suc n)
  obtain r d1 items1 where q: "quic_next d items = (r, d1, items1)" by (metis prod_cases3)
  note ex = quic_next_exact [OF q Suc.prems(1,2,3)]
  show ?case
  proof (cases r)
    case None
    with q ex show ?thesis by simp
  next
    case (Some ev)
    then show ?thesis
    proof (cases ev)
      case (Frame f)
      with Some ex obtain bodies' where b: "bodies = f # bodies'" "list_all is_data items1"
        "stream_of d1 items1 = concat (map frame_of bodies')" "item_datagrams items1 = item_datagrams items"
        by auto
      with Suc.IH [of items1 d1 bodies'] Suc.prems q Some Frame show ?thesis by auto
    next
      case (Datagram b)
      with Some ex Suc.IH [of items1 d1 bodies] Suc.prems q show ?thesis by auto
    qed (use Some ex in auto)
  qed
qed

section \<open>Properties\<close>

text \<open>
  The QUIC channel delivers exactly what was sent.  However the stream was cut into
  chunks and however datagrams arrive in between, calling \<open>next\<close> until it waits returns
  every frame of the stream once and in order and every datagram once and in order, and
  leaves nothing behind.
\<close>
theorem quic_channel_exact:
  assumes "list_all is_data items"
    and "concat (map item_chunk items) = concat (map frame_of bodies)"
    and "\<forall>b\<in>set bodies. length b \<le> MAX_FRAME"
    and "length bodies + length (item_datagrams items) < n"
  shows "\<exists>evs. next_loop n FrameDecoder_new items = (evs, FrameDecoder_new, [])
      \<and> event_frames evs = bodies \<and> event_datagrams evs = item_datagrams items"
proof -
  have "stream_of FrameDecoder_new items = concat (map frame_of bodies)"
    using assms(2) by (simp add: FrameDecoder_new_def)
  from next_loop_exact [OF assms(1) this assms(3,4)] obtain evs d' where
    "next_loop n FrameDecoder_new items = (evs, d', [])" "buf d' = []" "event_frames evs = bodies"
    "event_datagrams evs = item_datagrams items"
    by blast
  then show ?thesis by (auto simp: FrameDecoder_new_def)
qed

theorem quic_channel_exact_witness:
  "\<exists>evs. next_loop 4 FrameDecoder_new [QChunk [0, 0, 0, 1], QDatagram [9], QChunk [7, 0, 0, 0, 0]]
       = (evs, FrameDecoder_new, [])
     \<and> event_frames evs = [[7], []] \<and> event_datagrams evs = [[9]]"
  using quic_channel_exact [of "[QChunk [0, 0, 0, 1], QDatagram [9], QChunk [7, 0, 0, 0, 0]]" "[[7], []]" 4]
  by (simp add: frame_of_def to_be_bytes_def MAX_FRAME_def)

text \<open>
  Client and server read their transports alike: the client's \<open>next\<close> returns the same
  frames and datagrams as the server's on the same input, with every way of losing the
  connection folded into \<open>Disconnected\<close>.
\<close>
theorem client_reads_like_server:
  "conn_ws_next wsitems = map_prod (map_option conn_event) id (ws_next wsitems)
   \<and> conn_quic_next d items = map_prod (map_option conn_event) id (quic_next d items)"
  using conn_ws_next_eq conn_quic_next_eq by blast

end
