(* ===== verification/Client.thy ===== *)
theory Client
  imports OutboundLog SessionTask Channel
begin

text \<open>
  The client (\<open>src/client/src/lib.rs\<close>, \<open>run_exec\<close> and its helpers): connect, attach,
  relay stdio with sequence numbers, and on a lost connection reconnect and resume.

  \<open>run_exec\<close> is two step functions on its local variables: \<open>after_connect\<close> handles the
  result of one connect attempt, \<open>attached_step\<close> one ready branch of the attached loop.
  What was written to stdout and stderr is part of the state; messages sent to the server
  are returned.  Whether a send or a write succeeds is part of the event.
\<close>

section \<open>Errors, targets, state\<close>

datatype ClientError =
    ReadConfig
  | ParseConfig
  | UnknownTarget string
  | ClientIo
  | ClientWebSocket
  | ClientProtocol
  | ConnectionClosed
  | DeniedByServer string
  | ConnectTimeout
  | Http string
  | OidcError string
  | RateLimited string millis
  | NotLoggedIn string
  | NoAuthConfigured

datatype TokenSource = StaticToken string | OidcToken string

record Target =
  tgt_url :: string
  tgt_token :: TokenSource
  tgt_keepalive_interval :: millis
  tgt_keepalive_timeout :: millis
  tgt_connect_timeout :: millis
  tgt_agent_socket :: "string option"
  tgt_quic_addr :: "string option"
  tgt_quic_ca :: "string option"

definition Target_new :: "string \<Rightarrow> TokenSource \<Rightarrow> Target" where
  "Target_new url token =
     \<lparr>tgt_url = url, tgt_token = token, tgt_keepalive_interval = 10 * 1000,
      tgt_keepalive_timeout = 30 * 1000, tgt_connect_timeout = 10 * 1000,
      tgt_agent_socket = None, tgt_quic_addr = None, tgt_quic_ca = None\<rparr>"

record ClientState =
  cl_stdin_open :: bool
  sent_stdin :: "ChannelMessage list"
  client_seq :: u64
  last_server_seq :: u64
  resume_token :: "string option"
  retry_delay :: millis
  agent_channel :: bool
  cl_stdout :: bytes
  cl_stderr :: bytes

definition RESUME_RETRY_DELAY :: millis where "RESUME_RETRY_DELAY = 300"
definition RESUME_RETRY_MAX :: millis where "RESUME_RETRY_MAX = 2000"

definition client_init :: ClientState where
  "client_init =
     \<lparr>cl_stdin_open = True, sent_stdin = [], client_seq = 0, last_server_seq = 0,
      resume_token = None, retry_delay = RESUME_RETRY_DELAY, agent_channel = False,
      cl_stdout = [], cl_stderr = []\<rparr>"

section \<open>Connecting\<close>

definition start_request :: "Target \<Rightarrow> string \<Rightarrow> ClientState \<Rightarrow> ExecRequest" where
  "start_request tgt command st =
     (case resume_token st of
        Some token \<Rightarrow> Resume token (last_server_seq st)
      | None \<Rightarrow> Exec command True (tgt_agent_socket tgt \<noteq> None))"

fun start_reply :: "ChannelMessage \<Rightarrow> ClientError + string option" where
  "start_reply (Started token) = Inr token"
| "start_reply (Denied reason) = Inl (DeniedByServer reason)"
| "start_reply _ = Inl ConnectionClosed"

text \<open>The messages of one attempt and its result, from the results of the calls it makes in
  order: token, transport, the two sends, the welcome and the reply.\<close>

definition connect_and_start ::
  "Target \<Rightarrow> string \<Rightarrow> ClientState \<Rightarrow> string \<Rightarrow>
   ClientError + string \<Rightarrow> ClientError option \<Rightarrow> ClientError option \<Rightarrow> ClientError option \<Rightarrow>
   ClientError + Welcome \<Rightarrow> ClientError + ChannelMessage \<Rightarrow>
   (Hello list \<times> ExecRequest list) \<times> (ClientError + string option)" where
  "connect_and_start tgt command st version token conn hello_fails request_fails welcome reply =
     (case token of
        Inl e \<Rightarrow> (([], []), Inl e)
      | Inr t \<Rightarrow>
          (case conn of
             Some e \<Rightarrow> (([], []), Inl e)
           | None \<Rightarrow>
               (case hello_fails of
                  Some e \<Rightarrow> (([], []), Inl e)
                | None \<Rightarrow>
                    (let h = \<lparr>hello_token = t, client_name = ''herdr-eternal-ssh'',
                              client_version = version\<rparr>
                     in case request_fails of
                          Some e \<Rightarrow> (([h], []), Inl e)
                        | None \<Rightarrow>
                            (([h], [start_request tgt command st]),
                             and_then welcome (\<lambda>_. and_then reply start_reply))))))"

datatype ConnectOutcome =
    GoAttach ClientState
  | GoLogin ClientState string
  | GoRetry ClientState millis \<comment> \<open>sleep this long, then connect again\<close>
  | GiveUp ClientError

definition spawn_agent :: "Target \<Rightarrow> ClientState \<Rightarrow> ClientState" where
  "spawn_agent tgt st =
     (if \<not> agent_channel st \<and> tgt_agent_socket tgt \<noteq> None \<and> resume_token st \<noteq> None
      then st\<lparr>agent_channel := True\<rparr> else st)"

definition after_connect ::
  "Target \<Rightarrow> ClientError + string option \<Rightarrow> ClientState \<Rightarrow> ConnectOutcome" where
  "after_connect tgt r st =
     (case r of
        Inr token \<Rightarrow>
          (let st1 = (if resume_token st = None then st\<lparr>resume_token := token\<rparr> else st)
           in GoAttach ((spawn_agent tgt st1)\<lparr>retry_delay := RESUME_RETRY_DELAY\<rparr>))
      | Inl err \<Rightarrow>
          (case err of
             NotLoggedIn name \<Rightarrow>
               (case tgt_token tgt of
                  OidcToken target_name \<Rightarrow> GoLogin st target_name
                | StaticToken _ \<Rightarrow> GiveUp (NotLoggedIn name))
           | DeniedByServer reason \<Rightarrow> GiveUp (DeniedByServer reason)
           | _ \<Rightarrow>
               if resume_token st \<noteq> None
               then GoRetry (st\<lparr>retry_delay := min (retry_delay st * 2) RESUME_RETRY_MAX\<rparr>)
                      (retry_delay st)
               else GiveUp err))"

section \<open>The attached loop\<close>

datatype AttachedOutcome =
    Attached ClientState
  | Exited ClientState int
  | Lost ClientState
  | Broken ClientState ClientError

definition is_next :: "u64 \<Rightarrow> u64 \<Rightarrow> bool \<Rightarrow> bool" where
  "is_next s last_seen reliable \<longleftrightarrow> s = last_seen + 1 \<or> reliable \<and> last_seen < s"

fun still_unacked :: "u64 \<Rightarrow> ChannelMessage \<Rightarrow> bool" where
  "still_unacked a (Stdin s _) = (a < s)"
| "still_unacked a (StdinEof s) = (a < s)"
| "still_unacked a _ = True"

definition retain_unacked :: "u64 \<Rightarrow> ChannelMessage list \<Rightarrow> ChannelMessage list" where
  "retain_unacked a ms = filter (still_unacked a) ms"

text \<open>The resend at the start of an attachment; \<open>fails\<close> is the index of the first send that
  fails.  Returns what was sent and whether the connection is still usable.\<close>

definition resend :: "nat option \<Rightarrow> ClientState \<Rightarrow> ChannelMessage list \<times> bool" where
  "resend fails st =
     (case fails of
        Some n \<Rightarrow> if n < length (sent_stdin st) then (take n (sent_stdin st), False)
                   else (sent_stdin st, True)
      | None \<Rightarrow> (sent_stdin st, True))"

text \<open>A write to stdout or stderr that may fail after a prefix.\<close>

definition write_out :: "WriteResult \<Rightarrow> bytes \<Rightarrow> bytes" where
  "write_out wr data = (case wr of WriteOk \<Rightarrow> data | WriteErr n \<Rightarrow> take n data)"

fun client_message ::
  "WriteResult \<Rightarrow> bool \<Rightarrow> ChannelMessage \<Rightarrow> ClientState \<Rightarrow> ChannelMessage list \<times> AttachedOutcome" where
  "client_message wr reliable (Stdout s data) st =
     (if is_next s (last_server_seq st) reliable
      then (let st' = st\<lparr>last_server_seq := s, cl_stdout := cl_stdout st @ write_out wr data\<rparr>
            in if wr = WriteOk then ([Ack s], Attached st') else ([], Broken st' ClientIo))
      else ([], Attached st))"
| "client_message wr reliable (Stderr s data) st =
     (if is_next s (last_server_seq st) reliable
      then (let st' = st\<lparr>last_server_seq := s, cl_stderr := cl_stderr st @ write_out wr data\<rparr>
            in if wr = WriteOk then ([Ack s], Attached st') else ([], Broken st' ClientIo))
      else ([], Attached st))"
| "client_message wr reliable (Exit s code) st = ([Ack s], Exited st code)"
| "client_message wr reliable (Ack a) st =
     ([], Attached (st\<lparr>sent_stdin := retain_unacked a (sent_stdin st)\<rparr>))"
| "client_message wr reliable _ st = ([], Attached st)"

datatype AttachedEvent =
    ClientTick millis bool \<comment> \<open>silent for this long; whether the ping is sent\<close>
  | StdinRead "bytes option" bool \<comment> \<open>what was read, and whether the send succeeds\<close>
  | FromServer ConnEvent WriteResult

fun attached_enabled :: "Transport \<Rightarrow> AttachedEvent \<Rightarrow> ClientState \<Rightarrow> bool" where
  "attached_enabled tr (ClientTick _ _) st = needs_ping tr"
| "attached_enabled tr (StdinRead _ _) st = cl_stdin_open st"
| "attached_enabled tr (FromServer _ _) st = True"

text \<open>Reading a chunk of stdin and sending it.  The message joins the resend list only after
  it was sent.\<close>

definition stdin_message :: "u64 \<Rightarrow> bytes \<Rightarrow> ChannelMessage" where
  "stdin_message s data = (if data = [] then StdinEof s else Stdin s data)"

definition client_stdin_read ::
  "bytes option \<Rightarrow> bool \<Rightarrow> ClientState \<Rightarrow> ChannelMessage list \<times> AttachedOutcome" where
  "client_stdin_read r send_ok st =
     (case r of
        None \<Rightarrow> ([], Broken st ClientIo)
      | Some data \<Rightarrow>
          (let s = client_seq st + 1;
               message = stdin_message s data;
               st1 = st\<lparr>client_seq := s, cl_stdin_open := (data \<noteq> [])\<rparr>
           in if send_ok then ([message], Attached (st1\<lparr>sent_stdin := sent_stdin st1 @ [message]\<rparr>))
              else ([], Lost st1)))"

fun attached_step ::
  "Target \<Rightarrow> (bytes \<Rightarrow> ClientError + ChannelMessage) \<Rightarrow> AttachedEvent \<Rightarrow> ClientState \<Rightarrow>
   ChannelMessage list \<times> AttachedOutcome" where
  "attached_step tgt dec (ClientTick silent ping_ok) st =
     (if tgt_keepalive_timeout tgt \<le> silent then ([], Lost st)
      else if \<not> ping_ok then ([], Lost st) else ([], Attached st))"
| "attached_step tgt dec (StdinRead r send_ok) st = client_stdin_read r send_ok st"
| "attached_step tgt dec (FromServer ev wr) st =
     (case ev of
        ConnFrame bs \<Rightarrow>
          (case dec bs of
             Inl e \<Rightarrow> ([], Broken st e)
           | Inr m \<Rightarrow> client_message wr True m st)
      | ConnDatagram bs \<Rightarrow>
          (case dec bs of
             Inl e \<Rightarrow> ([], Attached st)
           | Inr m \<Rightarrow> client_message wr False m st)
      | Disconnected \<Rightarrow> ([], Lost st))"

text \<open>What \<open>run_exec\<close> does when the attached loop is over.\<close>

datatype ExecStep = ExecReturn "ClientError + int" | ExecReconnect ClientState millis

fun after_attached :: "AttachedOutcome \<Rightarrow> ExecStep option" where
  "after_attached (Attached st) = None"
| "after_attached (Exited st code) = Some (ExecReturn (Inr code))"
| "after_attached (Lost st) =
     Some (if resume_token st \<noteq> None then ExecReconnect st RESUME_RETRY_DELAY
           else ExecReturn (Inl ConnectionClosed))"
| "after_attached (Broken st e) = Some (ExecReturn (Inl e))"

section \<open>The client as sender and receiver of the link\<close>

interpretation client_rx: dedup is_next
proof unfold_locales
  fix l s :: u64
  assume "l \<noteq> U64_MAX"
  then have "l < l + 1" by (simp add: u64_less unat_inc u64_not_max [symmetric])
  then show "is_next s l True \<longleftrightarrow> l < s" by (auto simp: is_next_def)
qed (simp add: is_next_def)

fun is_stdin :: "ChannelMessage \<Rightarrow> bool" where
  "is_stdin (Stdin _ _) = True"
| "is_stdin (StdinEof _) = True"
| "is_stdin _ = False"

definition stdin_holds :: "ChannelMessage list \<Rightarrow> ChannelMessage list \<Rightarrow> nat \<Rightarrow> bool" where
  "stdin_holds ms H t \<longleftrightarrow> numbered H \<and> t \<le> length H \<and> list_all is_stdin H \<and> ms = drop t H"

lemma still_unacked_seq: "is_stdin m \<Longrightarrow> seq_of m = Some s \<Longrightarrow> still_unacked a m \<longleftrightarrow> a < s"
  by (cases m) auto

lemma retain_unacked_suffix:
  assumes "numbered H" "list_all is_stdin H" "unat a \<le> length H"
  shows "retain_unacked a (drop t H) = drop (max t (unat a)) H"
proof -
  have keep: "still_unacked a (H ! i) \<longleftrightarrow> unat a \<le> i" if "i < length H" for i
  proof -
    have sq: "seq_of (H ! i) = Some (of_nat (i + 1))" using assms(1) that by (rule numbered_seq)
    have "unat (of_nat (i + 1) :: u64) = i + 1" by (rule numbered_unat_seq [OF assms(1) that sq])
    with sq still_unacked_seq [of "H ! i"] assms(2) that show ?thesis
      by (simp add: list_all_length u64_less less_Suc_eq_le del: of_nat_Suc of_nat_add)
  qed
  show ?thesis unfolding retain_unacked_def
  proof (induction "length H - t" arbitrary: t)
    case 0
    then show ?case by simp
  next
    case (Suc n)
    then have t: "t < length H" by simp
    have IH: "filter (still_unacked a) (drop (Suc t) H) = drop (max (Suc t) (unat a)) H"
      by (rule Suc.hyps(1)) (use Suc in simp)
    have split: "drop t H = H ! t # drop (Suc t) H" using t by (simp add: Cons_nth_drop_Suc)
    show ?case
    proof (cases "unat a \<le> t")
      case True
      with keep [OF t] IH split show ?thesis by (simp add: max_def)
    next
      case False
      with keep [OF t] IH split show ?thesis by (simp add: max_def)
    qed
  qed
qed

interpretation client_tx: replay_buffer "\<lambda>ms m. ms @ [m]" retain_unacked "\<lambda>_ ms. ms" is_stdin stdin_holds
proof unfold_locales
  fix b H t and a :: u64
  assume "stdin_holds b H t" "unat a \<le> length H"
  then show "stdin_holds (retain_unacked a b) H (max t (unat a))"
    by (auto simp: stdin_holds_def retain_unacked_suffix)
next
  fix b H t and s :: u64
  assume "stdin_holds b H t"
  then show "\<exists>k \<ge> t. k \<le> max t (unat s) \<and> b = drop k H"
    by (auto simp: stdin_holds_def)
qed (auto simp: stdin_holds_def intro: numbered_snoc)

text \<open>The two directions of an exec session.\<close>

interpretation downlink: resumable_link log_push "\<lambda>a l. log_trim l a" "\<lambda>s l. log_after l s"
  "\<lambda>_. True" log_holds is_next
  by unfold_locales

interpretation uplink: resumable_link "\<lambda>ms m. ms @ [m]" retain_unacked "\<lambda>_ ms. ms"
  is_stdin stdin_holds stdin_accepts
  by unfold_locales

section \<open>Reconnecting\<close>

text \<open>Consecutive failed attempts: the state and the delays slept in between, \<open>None\<close> when the
  client stops retrying.\<close>

fun retries :: "Target \<Rightarrow> ClientError list \<Rightarrow> ClientState \<Rightarrow> (ClientState \<times> millis list) option" where
  "retries tgt [] st = Some (st, [])"
| "retries tgt (e # es) st =
     (case after_connect tgt (Inl e) st of
        GoRetry st' d \<Rightarrow> map_option (\<lambda>(st'', ds). (st'', d # ds)) (retries tgt es st')
      | _ \<Rightarrow> None)"

fun is_final :: "ClientError \<Rightarrow> bool" where
  "is_final (DeniedByServer _) = True"
| "is_final (NotLoggedIn _) = True"
| "is_final _ = False"

lemma after_connect_retry:
  "resume_token st \<noteq> None \<Longrightarrow> \<not> is_final e \<Longrightarrow>
   after_connect tgt (Inl e) st = GoRetry (st\<lparr>retry_delay := min (retry_delay st * 2) RESUME_RETRY_MAX\<rparr>) (retry_delay st)"
  by (cases e) (auto simp: after_connect_def)

definition backoff :: "nat \<Rightarrow> millis" where
  "backoff n = min (RESUME_RETRY_DELAY * 2 ^ n) RESUME_RETRY_MAX"

lemma backoff_Suc: "min (backoff n * 2) RESUME_RETRY_MAX = backoff (Suc n)"
  by (auto simp: backoff_def min_def RESUME_RETRY_DELAY_def RESUME_RETRY_MAX_def)

lemma retries_backoff:
  assumes "resume_token st \<noteq> None" "retry_delay st = backoff n" "list_all (\<lambda>e. \<not> is_final e) es"
  shows "retries tgt es st =
     Some (st\<lparr>retry_delay := backoff (n + length es)\<rparr>, map backoff [n..<n + length es])"
  using assms
proof (induction es arbitrary: st n)
  case Nil
  then show ?case by simp
next
  case (Cons e es)
  let ?st = "st\<lparr>retry_delay := backoff (Suc n)\<rparr>"
  have "after_connect tgt (Inl e) st = GoRetry ?st (backoff n)"
    using Cons.prems after_connect_retry [of st e tgt] by (simp add: backoff_Suc)
  moreover have "retries tgt es ?st = Some (?st\<lparr>retry_delay := backoff (Suc n + length es)\<rparr>,
      map backoff [Suc n..<Suc n + length es])"
    using Cons.prems Cons.IH [of ?st "Suc n"] by simp
  ultimately show ?case by (simp add: upt_rec)
qed

section \<open>Properties\<close>

text \<open>
  C27: A client with a resume token keeps trying until it gets an answer.  However many attempts
  fail for reasons other than a denial or an expired login, it retries each time, waiting
  300 ms, 600 ms, 1200 ms and then 2 s, and its session state is untouched; once a
  connection succeeds the delay is reset, and a denial stops it at once.
\<close>
theorem resume_retries_with_backoff:
  assumes "resume_token st = Some token" "retry_delay st = RESUME_RETRY_DELAY"
    and "list_all (\<lambda>e. \<not> is_final e) es"
  shows "\<exists>st'. retries tgt es st = Some (st', map (\<lambda>i. min (300 * 2 ^ i) 2000) [0..<length es])
      \<and> st'\<lparr>retry_delay := retry_delay st\<rparr> = st
      \<and> after_connect tgt (Inl (DeniedByServer reason)) st' = GiveUp (DeniedByServer reason)
      \<and> (\<exists>st''. after_connect tgt (Inr t) st' = GoAttach st'' \<and> retry_delay st'' = 300
           \<and> resume_token st'' = Some token \<and> sent_stdin st'' = sent_stdin st)"
proof -
  let ?st = "st\<lparr>retry_delay := backoff (length es)\<rparr>"
  have "retry_delay st = backoff 0"
    using assms(2) by (simp add: backoff_def RESUME_RETRY_DELAY_def RESUME_RETRY_MAX_def)
  then have "retries tgt es st = Some (?st, map backoff [0..<length es])"
    using retries_backoff [of st 0 es tgt] assms(1,3) by simp
  moreover have "backoff = (\<lambda>i. min (300 * 2 ^ i) 2000)"
    by (simp add: fun_eq_iff backoff_def RESUME_RETRY_DELAY_def RESUME_RETRY_MAX_def)
  ultimately show ?thesis using assms(1)
    by (intro exI [of _ ?st]) (simp add: after_connect_def spawn_agent_def Let_def RESUME_RETRY_DELAY_def)
qed

definition demo_client :: ClientState where
  "demo_client = client_init\<lparr>resume_token := Some ''t'', client_seq := 1\<rparr>"

theorem resume_retries_with_backoff_witness:
  "\<exists>st'. retries (Target_new ''u'' (StaticToken ''x'')) [ConnectTimeout, ClientIo, ConnectTimeout, ConnectionClosed] demo_client
      = Some (st', [300, 600, 1200, 2000]) \<and> st'\<lparr>retry_delay := 300\<rparr> = demo_client"
proof -
  have "resume_token demo_client = Some ''t''" "retry_delay demo_client = RESUME_RETRY_DELAY"
    by (simp_all add: demo_client_def client_init_def)
  from resume_retries_with_backoff [OF this, of "[ConnectTimeout, ClientIo, ConnectTimeout, ConnectionClosed]"
      "Target_new ''u'' (StaticToken ''x'')"]
  show ?thesis
    by (auto simp: demo_client_def client_init_def RESUME_RETRY_DELAY_def upt_rec)
qed

text \<open>
  A failed send loses input.  When sending a freshly read chunk fails, the client has already
  taken its number but does not keep the message: what it resends after the reconnect is only
  the older input, the next chunk gets the number after the lost one, and the session task,
  which has applied everything older, accepts it.  The child never gets the lost chunk.
\<close>
theorem failed_send_drops_chunk:
  assumes "client_stdin_read (Some d1) False st = (sent1, Lost st1)" "resend None st1 = (again, True)"
    and "client_stdin_read (Some d2) True st1 = (sent2, Attached st2)" "d1 \<noteq> []" "d2 \<noteq> []"
    and "unat (client_seq st) + 2 < 2 ^ 64"
    and "\<forall>m \<in> set (sent_stdin st). \<exists>s. seq_of m = Some s \<and> s \<le> client_seq st"
  shows "sent1 = [] \<and> sent2 = [Stdin (client_seq st + 2) d2]
    \<and> (\<forall>d. Stdin (client_seq st + 1) d \<notin> set (again @ sent2 @ sent_stdin st2))
    \<and> stdin_accepts (client_seq st + 2) (client_seq st) True"
proof -
  have st1: "sent1 = []" "client_seq st1 = client_seq st + 1" "sent_stdin st1 = sent_stdin st"
    using assms(1) by (auto simp: client_stdin_read_def Let_def)
  have again: "again = sent_stdin st" using assms(2) st1 by (simp add: resend_def)
  have two: "client_seq st + 1 + 1 = client_seq st + 2" by simp
  have st2: "sent2 = [Stdin (client_seq st + 2) d2]" "sent_stdin st2 = sent_stdin st @ sent2"
    using assms(3,5) st1 two by (auto simp: client_stdin_read_def Let_def stdin_message_def)
  have u1: "unat (client_seq st + 1) = unat (client_seq st) + 1" using assms(6) by (simp add: unat_inc)
  then have u2: "unat (client_seq st + 2) = unat (client_seq st) + 2"
    using unat_inc [of "client_seq st + 1"] assms(6) two by simp
  have old: "Stdin (client_seq st + 1) d \<notin> set (sent_stdin st)" for d
    using assms(7) u1 by (force simp: u64_le)
  have "client_seq st + 1 \<noteq> client_seq st + 2" by simp
  with st1 st2 again old u2 show ?thesis by (auto simp: stdin_accepts_def u64_less)
qed

theorem failed_send_drops_chunk_witness:
  "\<exists>st1 st2. client_stdin_read (Some [98]) False demo_client = ([], Lost st1)
     \<and> resend None st1 = ([], True)
     \<and> client_stdin_read (Some [99]) True st1 = ([Stdin 3 [99]], Attached st2)
     \<and> Stdin 2 [98] \<notin> set (sent_stdin st2) \<and> stdin_accepts 3 1 True"
proof -
  let ?st1 = "demo_client\<lparr>client_seq := 2\<rparr>"
  let ?st2 = "?st1\<lparr>client_seq := 3, sent_stdin := [Stdin 3 [99]]\<rparr>"
  have r: "client_stdin_read (Some [98]) False demo_client = ([], Lost ?st1)"
    "resend None ?st1 = ([], True)"
    "client_stdin_read (Some [99]) True ?st1 = ([Stdin 3 [99]], Attached ?st2)"
    by (simp_all add: client_stdin_read_def resend_def stdin_message_def Let_def demo_client_def client_init_def)
  from failed_send_drops_chunk [OF r] have "stdin_accepts 3 1 True"
    by (simp add: demo_client_def client_init_def)
  with r show ?thesis by auto
qed

end
