(* ===== verification/Registry.thy ===== *)
theory Registry
  imports SessionTask "HOL-Library.AList"
begin

text \<open>
  Sessions and their registry (\<open>src/server/src/lib.rs\<close>: \<open>Session\<close>, \<open>AttachGuard\<close>,
  \<open>SessionRegistry\<close>, \<open>expire_sessions\<close>, \<open>new_resume_token\<close>).

  \<open>Arc<Session>\<close> is shared: the registry, the attached connections and the sweep hold the
  same object.  Sessions live in a store from session ids to values, and the registry is the
  hash map from resume tokens to ids, as an association list because it is iterated.  A
  session's inbound channel is its queue; it is closed when the task's receiver is gone.
\<close>

type_synonym sid = nat

record Session =
  ses_inbound :: "SessionInput list"
  ses_task_alive :: bool
  ses_shared :: Shared
  ses_agent :: bool
  ses_attached :: nat
  ses_detached_at :: "millis option"
  ses_resumable :: bool

type_synonym SessionRegistry = "(string \<times> sid) list"
type_synonym store = "sid \<Rightarrow> Session"

text \<open>\<open>inbound.send(..)\<close>: \<open>None\<close> is the error of a channel whose receiver is gone.\<close>

definition inbound_send :: "SessionInput \<Rightarrow> Session \<Rightarrow> Session option" where
  "inbound_send x s =
     (if ses_task_alive s then Some (s\<lparr>ses_inbound := ses_inbound s @ [x]\<rparr>) else None)"

text \<open>\<open>inbound.send(..).ok()\<close>\<close>

definition inbound_send_ok :: "SessionInput \<Rightarrow> Session \<Rightarrow> Session" where
  "inbound_send_ok x s = (case inbound_send x s of Some s' \<Rightarrow> s' | None \<Rightarrow> s)"

section \<open>AttachGuard\<close>

text \<open>
  The guard's constructor and destructor are two atomic actions each: the counter is updated
  first, the detach time afterwards under its own mutex.
\<close>

definition guard_new_count :: "Session \<Rightarrow> Session" where
  "guard_new_count s = s\<lparr>ses_attached := ses_attached s + 1\<rparr>"

definition guard_new_clear :: "Session \<Rightarrow> Session" where
  "guard_new_clear s = s\<lparr>ses_detached_at := None\<rparr>"

definition AttachGuard_new :: "Session \<Rightarrow> Session" where
  "AttachGuard_new s = guard_new_clear (guard_new_count s)"

definition guard_drop_count :: "Session \<Rightarrow> nat \<times> Session" where
  "guard_drop_count s = (ses_attached s, s\<lparr>ses_attached := ses_attached s - 1\<rparr>)"

definition guard_drop_stamp :: "millis \<Rightarrow> nat \<Rightarrow> Session \<Rightarrow> Session" where
  "guard_drop_stamp now prev s = (if prev = 1 then s\<lparr>ses_detached_at := Some now\<rparr> else s)"

definition AttachGuard_drop :: "millis \<Rightarrow> Session \<Rightarrow> Session" where
  "AttachGuard_drop now s =
     (case guard_drop_count s of (prev, s') \<Rightarrow> guard_drop_stamp now prev s')"

section \<open>SessionRegistry\<close>

definition registry_insert :: "string \<Rightarrow> sid \<Rightarrow> SessionRegistry \<Rightarrow> SessionRegistry" where
  "registry_insert token i r = AList.update token i r"

definition registry_get :: "string \<Rightarrow> SessionRegistry \<Rightarrow> sid option" where
  "registry_get token r = map_of r token"

definition registry_remove :: "string \<Rightarrow> SessionRegistry \<Rightarrow> SessionRegistry" where
  "registry_remove token r = AList.delete token r"

definition registry_entries :: "SessionRegistry \<Rightarrow> (string \<times> sid) list" where
  "registry_entries r = r"

text \<open>\<open>detached.elapsed() >= timeout\<close>; \<open>elapsed\<close> saturates at zero like \<open>nat\<close> subtraction.\<close>

definition is_expired :: "millis \<Rightarrow> millis \<Rightarrow> Session \<Rightarrow> bool" where
  "is_expired now timeout s =
     (case ses_detached_at s of Some detached \<Rightarrow> timeout \<le> now - detached | None \<Rightarrow> False)"

definition registry_expired ::
  "millis \<Rightarrow> millis \<Rightarrow> store \<Rightarrow> SessionRegistry \<Rightarrow> (string \<times> sid) list" where
  "registry_expired now timeout st r = filter (\<lambda>(token, i). is_expired now timeout (st i)) r"

section \<open>Expiry\<close>

definition DEFAULT_SESSION_TIMEOUT :: millis where
  "DEFAULT_SESSION_TIMEOUT = 7 * 24 * 60 * 60 * 1000"

definition sweep_interval :: "millis \<Rightarrow> millis" where
  "sweep_interval timeout = max (timeout div 10) 10"

text \<open>What one sweep does to one expired entry, and the whole sweep.\<close>

definition expire_one :: "string \<times> sid \<Rightarrow> SessionRegistry \<times> store \<Rightarrow> SessionRegistry \<times> store" where
  "expire_one e w =
     (case e of (token, i) \<Rightarrow> case w of (r, st) \<Rightarrow>
        (registry_remove token r, st(i := inbound_send_ok Abort (st i))))"

definition expire_sweep ::
  "millis \<Rightarrow> millis \<Rightarrow> SessionRegistry \<times> store \<Rightarrow> SessionRegistry \<times> store" where
  "expire_sweep now timeout w =
     fold expire_one (registry_expired now timeout (snd w) (fst w)) w"

section \<open>Resume tokens\<close>

definition new_resume_token :: "nat \<Rightarrow> nat \<Rightarrow> u64 \<Rightarrow> string" where
  "new_resume_token pid nanos counter =
     show_nat pid @ ''-'' @ show_nat nanos @ ''-'' @ show_nat (unat counter)"

section \<open>Laws of the registry\<close>

lemma registry_get_insert [simp]:
  "registry_get k (registry_insert k' i r) = (if k = k' then Some i else registry_get k r)"
  by (simp add: registry_get_def registry_insert_def update_conv')

lemma registry_get_remove [simp]:
  "registry_get k (registry_remove k' r) = (if k = k' then None else registry_get k r)"
  by (simp add: registry_get_def registry_remove_def delete_conv')

lemma registry_distinct:
  "distinct (map fst r) \<Longrightarrow> distinct (map fst (registry_insert k i r))"
  "distinct (map fst r) \<Longrightarrow> distinct (map fst (registry_remove k r))"
  by (simp_all add: registry_insert_def registry_remove_def distinct_update distinct_delete)

text \<open>The interface the connection handlers rely on.\<close>

locale token_registry =
  fixes insert :: "string \<Rightarrow> 'v \<Rightarrow> 'r \<Rightarrow> 'r"
    and get :: "string \<Rightarrow> 'r \<Rightarrow> 'v option"
    and remove :: "string \<Rightarrow> 'r \<Rightarrow> 'r"
  assumes get_insert: "get k (insert k' v r) = (if k = k' then Some v else get k r)"
    and get_remove: "get k (remove k' r) = (if k = k' then None else get k r)"
begin

lemma remove_idem: "get k (remove k' (remove k' r)) = get k (remove k' r)"
  by (simp add: get_remove)

lemma insert_remove_fresh: "get k r = None \<Longrightarrow> get j (remove k (insert k v r)) = get j r"
  by (simp add: get_insert get_remove)

lemma get_fold_remove: "get k (fold remove ks r) = (if k \<in> set ks then None else get k r)"
  by (induction ks arbitrary: r) (auto simp: get_remove)

end

interpretation sessions: token_registry registry_insert registry_get registry_remove
  by unfold_locales simp_all

section \<open>Laws of the guard\<close>

text \<open>While guards are created and dropped one at a time, a session has a detach time
  exactly when nobody is attached.\<close>

definition guard_ok :: "Session \<Rightarrow> bool" where
  "guard_ok s \<longleftrightarrow> (ses_attached s = 0 \<longleftrightarrow> ses_detached_at s \<noteq> None)"

lemma guard_new_ok: "guard_ok (AttachGuard_new s)"
  by (simp add: guard_ok_def AttachGuard_new_def guard_new_clear_def guard_new_count_def)

lemma guard_drop_ok: "guard_ok s \<Longrightarrow> 0 < ses_attached s \<Longrightarrow> guard_ok (AttachGuard_drop now s)"
  by (auto simp: guard_ok_def AttachGuard_drop_def guard_drop_count_def guard_drop_stamp_def)

datatype GuardOp = NewGuard | DropGuard millis

fun guard_ops :: "GuardOp list \<Rightarrow> Session \<Rightarrow> Session" where
  "guard_ops [] s = s"
| "guard_ops (NewGuard # ops) s = guard_ops ops (AttachGuard_new s)"
| "guard_ops (DropGuard now # ops) s = guard_ops ops (AttachGuard_drop now s)"

text \<open>Only live guards are dropped.\<close>

fun guard_balanced :: "nat \<Rightarrow> GuardOp list \<Rightarrow> bool" where
  "guard_balanced n [] = True"
| "guard_balanced n (NewGuard # ops) = guard_balanced (Suc n) ops"
| "guard_balanced n (DropGuard _ # ops) = (0 < n \<and> guard_balanced (n - 1) ops)"

lemma guard_ops_ok:
  "guard_ok s \<Longrightarrow> guard_balanced (ses_attached s) ops \<Longrightarrow> guard_ok (guard_ops ops s)"
proof (induction ops s rule: guard_ops.induct)
  case (2 ops s)
  then show ?case
    by (simp add: guard_new_ok) (simp add: AttachGuard_new_def guard_new_clear_def guard_new_count_def)
next
  case (3 now ops s)
  then have "guard_ok (AttachGuard_drop now s)" by (simp add: guard_drop_ok)
  moreover have "ses_attached (AttachGuard_drop now s) = ses_attached s - 1"
    by (simp add: AttachGuard_drop_def guard_drop_count_def guard_drop_stamp_def)
  ultimately show ?case using 3 by simp
qed simp

section \<open>Laws of the sweep\<close>

lemma inbound_send_ok_frame [simp]:
  "ses_detached_at (inbound_send_ok x s) = ses_detached_at s"
  "ses_attached (inbound_send_ok x s) = ses_attached s"
  "ses_shared (inbound_send_ok x s) = ses_shared s"
  "ses_resumable (inbound_send_ok x s) = ses_resumable s"
  "ses_task_alive (inbound_send_ok x s) = ses_task_alive s"
  "ses_agent (inbound_send_ok x s) = ses_agent s"
  by (simp_all add: inbound_send_ok_def inbound_send_def)

lemma expire_fold_registry:
  "registry_get k (fst (fold expire_one es w)) =
     (if k \<in> fst ` set es then None else registry_get k (fst w))"
proof (induction es arbitrary: w)
  case Nil
  then show ?case by simp
next
  case (Cons e es)
  have "registry_get k (fst (expire_one e w)) = (if k = fst e then None else registry_get k (fst w))"
    by (cases e; cases w) (simp add: expire_one_def)
  with Cons show ?case by (cases "k = fst e") auto
qed

lemma expire_fold_at:
  "distinct (map snd es) \<Longrightarrow> snd (fold expire_one es w) i = (if i \<in> snd ` set es then inbound_send_ok Abort (snd w i) else snd w i)"
proof (induction es arbitrary: w)
  case (Cons e es)
  have "snd (expire_one e w) i = (if i = snd e then inbound_send_ok Abort (snd w i) else snd w i)"
    by (cases e; cases w) (simp add: expire_one_def)
  with Cons show ?case by auto
qed simp

section \<open>Token uniqueness\<close>

lemma split_at_dash:
  assumes "a @ CHR ''-'' # b = a' @ CHR ''-'' # b'" "CHR ''-'' \<notin> set a" "CHR ''-'' \<notin> set a'"
  shows "a = a' \<and> b = b'"
proof -
  have "takeWhile (\<lambda>c. c \<noteq> CHR ''-'') (a @ CHR ''-'' # b) = a"
    "takeWhile (\<lambda>c. c \<noteq> CHR ''-'') (a' @ CHR ''-'' # b') = a'"
    using assms(2,3) by (subst takeWhile_append2; force)+
  with assms(1) show ?thesis by auto
qed

lemma no_dash: "CHR ''-'' \<notin> set (show_nat n)"
  using show_nat_digits [of n] digit_not_sign by (auto simp: list_all_iff)

section \<open>Properties\<close>

definition demo_session :: Session where
  "demo_session =
     \<lparr>ses_inbound = [], ses_task_alive = True, ses_shared = fresh_shared, ses_agent = False,
      ses_attached = 0, ses_detached_at = Some 100, ses_resumable = True\<rparr>"

text \<open>
  Resume tokens are unique: two tokens are equal only if process id, time and counter all
  agree, so within one process two different counter values never name the same session.
\<close>
theorem resume_token_unique:
  "new_resume_token p n c = new_resume_token p' n' c' \<longleftrightarrow> p = p' \<and> n = n' \<and> c = c'"
proof
  assume eq: "new_resume_token p n c = new_resume_token p' n' c'"
  then have 1: "show_nat p = show_nat p'
      \<and> show_nat n @ ''-'' @ show_nat (unat c) = show_nat n' @ ''-'' @ show_nat (unat c')"
    by (intro split_at_dash) (simp_all add: new_resume_token_def no_dash)
  then have "show_nat n = show_nat n' \<and> show_nat (unat c) = show_nat (unat c')"
    by (intro split_at_dash) (simp_all add: no_dash)
  with 1 show "p = p' \<and> n = n' \<and> c = c'" by (simp add: u64_eq_iff)
qed simp

text \<open>
  C26: An expiry sweep during which nothing else happens does exactly what the detach times say.  A token stops resolving if and only if its
  session has a detach time that is at least the timeout ago, every other token resolves to the same
  session as before, the tasks of the expired sessions are told to abort, and no other session is
  touched, in particular none without a detach time.
\<close>
theorem expire_sweep_exact:
  assumes "distinct (map fst r)" "distinct (map snd r)"
    and "expire_sweep now timeout (r, st) = (r', st')"
  shows "registry_get k r' =
           (case registry_get k r of
              Some i \<Rightarrow> if is_expired now timeout (st i) then None else Some i
            | None \<Rightarrow> None)
       \<and> st' i = (if i \<in> snd ` set r \<and> is_expired now timeout (st i) then inbound_send_ok Abort (st i) else st i)
       \<and> (ses_detached_at (st i) = None \<longrightarrow> st' i = st i)"
proof -
  let ?es = "registry_expired now timeout st r"
  have res: "r' = fst (fold expire_one ?es (r, st))" "st' = snd (fold expire_one ?es (r, st))"
    using assms(3) by (simp_all add: expire_sweep_def)
  have "(k, j) \<in> set ?es \<longleftrightarrow> registry_get k r = Some j \<and> is_expired now timeout (st j)" for k j
    using assms(1) by (auto simp: registry_expired_def registry_get_def)
  then have "k \<in> fst ` set ?es \<longleftrightarrow> (\<exists>j. registry_get k r = Some j \<and> is_expired now timeout (st j))" by force
  then have get: "registry_get k r' = (case registry_get k r of
      Some i \<Rightarrow> if is_expired now timeout (st i) then None else Some i | None \<Rightarrow> None)"
    using expire_fold_registry [of k ?es "(r, st)"] res(1) by (auto split: option.splits)
  have "distinct (map snd ?es)" using assms(2) by (simp add: registry_expired_def distinct_map_filter)
  moreover have "i \<in> snd ` set ?es \<longleftrightarrow> i \<in> snd ` set r \<and> is_expired now timeout (st i)" by (force simp: registry_expired_def)
  ultimately have st: "st' i = (if i \<in> snd ` set r \<and> is_expired now timeout (st i) then inbound_send_ok Abort (st i) else st i)"
    using expire_fold_at [of ?es "(r, st)" i] res(2) by simp
  from get st show ?thesis by (simp add: is_expired_def)
qed

theorem expire_sweep_exact_witness:
  "\<exists>r' st'. expire_sweep 600 500 ([(''a'', 0), (''b'', 1)], \<lambda>i. if i = 0 then demo_session else AttachGuard_new demo_session)
       = (r', st')
     \<and> registry_get ''a'' r' = None \<and> registry_get ''b'' r' = Some 1
     \<and> Abort \<in> set (ses_inbound (st' 0)) \<and> st' 1 = AttachGuard_new demo_session"
proof -
  let ?st = "\<lambda>i::nat. if i = 0 then demo_session else AttachGuard_new demo_session"
  let ?r = "[(''a'', 0), (''b'', 1 :: nat)]"
  obtain r' st' where run: "expire_sweep 600 500 (?r, ?st) = (r', st')" by force
  have d: "distinct (map fst ?r)" "distinct (map snd ?r)" by simp_all
  have ex: "is_expired 600 500 demo_session" "\<not> is_expired 600 500 (AttachGuard_new demo_session)"
    "Abort \<in> set (ses_inbound (inbound_send_ok Abort demo_session))"
    by (simp_all add: is_expired_def demo_session_def AttachGuard_new_def guard_new_clear_def guard_new_count_def
        inbound_send_ok_def inbound_send_def)
  from expire_sweep_exact [OF d run, of "''a''" 0] expire_sweep_exact [OF d run, of "''b''" 1] ex run
  show ?thesis by (auto simp: registry_get_def)
qed

text \<open>
  The detach time is consistent while connections come and go one after the other:
  after any balanced sequence of guard creations and drops, the session has a detach time
  exactly when no connection is attached, so an attached session never looks expired.
\<close>
theorem guard_consistent:
  assumes "guard_ok s" and "guard_balanced (ses_attached s) ops"
  shows "(ses_attached (guard_ops ops s) = 0 \<longleftrightarrow> ses_detached_at (guard_ops ops s) \<noteq> None)
     \<and> (0 < ses_attached (guard_ops ops s) \<longrightarrow> \<not> is_expired now timeout (guard_ops ops s))"
  using guard_ops_ok [OF assms] by (auto simp: guard_ok_def is_expired_def split: option.splits)

theorem guard_consistent_witness:
  "guard_ok demo_session \<and> guard_balanced 0 [NewGuard, NewGuard, DropGuard 5]
   \<and> 0 < ses_attached (guard_ops [NewGuard, NewGuard, DropGuard 5] demo_session)
   \<and> \<not> is_expired 900 1 (guard_ops [NewGuard, NewGuard, DropGuard 5] demo_session)"
proof -
  let ?ops = "[NewGuard, NewGuard, DropGuard 5]"
  have h: "guard_ok demo_session" "guard_balanced (ses_attached demo_session) ?ops"
    by (simp_all add: guard_ok_def demo_session_def)
  have "0 < ses_attached (guard_ops ?ops demo_session)"
    by (simp add: demo_session_def AttachGuard_new_def guard_new_clear_def guard_new_count_def
        AttachGuard_drop_def guard_drop_count_def guard_drop_stamp_def)
  with guard_consistent [OF h, of 900 1] h show ?thesis by simp
qed

text \<open>
  C36: The guard is not atomic.  When the last connection of a session is dropped while a new
  one attaches, and the drop is preempted between its counter update and its time stamp, the
  session ends up attached and stamped as detached; the sweep then expires it after the
  timeout although a client is connected.
\<close>
theorem guard_race_expires_attached:
  assumes "ses_attached s = 1"
  shows "(case guard_drop_count s of (prev, s1) \<Rightarrow>
            let s2 = guard_drop_stamp now prev (guard_new_clear (guard_new_count s1))
            in ses_attached s2 = 1 \<and> \<not> guard_ok s2 \<and> is_expired (now + timeout) timeout s2)"
  using assms
  by (simp add: guard_drop_count_def guard_drop_stamp_def guard_new_clear_def guard_new_count_def
      guard_ok_def is_expired_def)

theorem guard_race_expires_attached_witness:
  "\<exists>s2. ses_attached s2 = 1 \<and> \<not> guard_ok s2 \<and> is_expired (50 + 500) 500 s2
     \<and> s2 = demo_session\<lparr>ses_attached := 1, ses_detached_at := Some 50\<rparr>"
proof -
  have "ses_attached (AttachGuard_new demo_session) = 1"
    by (simp add: demo_session_def AttachGuard_new_def guard_new_clear_def guard_new_count_def)
  from guard_race_expires_attached [OF this, of 50 500] show ?thesis
    by (simp add: demo_session_def AttachGuard_new_def guard_drop_count_def guard_drop_stamp_def
        guard_new_clear_def guard_new_count_def Let_def)
qed

end
