(* ===== verification/Spawn.thy ===== *)
theory Spawn
  imports Registry Channel
begin

text \<open>
  Starting a session (\<open>src/server/src/lib.rs\<close>: \<open>session_environment\<close>,
  \<open>start_session\<close>): the environment and the command line of the wrapper shell, and the
  fresh session object with its task.

  Creating the pipes and spawning the child are calls of the operating system; their result
  (the parent's pipe ends and the child, or the error) is an argument.  The daemon's own
  environment and the passwd entry of its user are arguments too.
\<close>

record PasswdUser =
  pw_name :: string
  pw_dir :: string

type_synonym env = "(string \<times> string) list"

abbreviation set_env :: "string \<Rightarrow> string \<Rightarrow> env \<Rightarrow> env" where
  "set_env k v e \<equiv> AList.update k v e"

definition is_locale_var :: "string \<Rightarrow> bool" where
  "is_locale_var key \<longleftrightarrow> key = ''LANG'' \<or> key = ''TZ'' \<or> take 3 key = ''LC_''"

definition session_environment :: "env \<Rightarrow> PasswdUser option \<Rightarrow> string \<Rightarrow> env" where
  "session_environment vars user shell =
     (let e1 = set_env ''SHELL'' shell [];
          e2 = set_env ''PATH'' (case map_of vars ''PATH'' of Some p \<Rightarrow> p | None \<Rightarrow> ''/usr/bin:/bin'') e1;
          e3 = (case user of
                  Some u \<Rightarrow> set_env ''HOME'' (pw_dir u)
                              (set_env ''LOGNAME'' (pw_name u) (set_env ''USER'' (pw_name u) e2))
                | None \<Rightarrow> e2)
      in fold (\<lambda>(key, val) e. if is_locale_var key then set_env key val e else e) vars e3)"

text \<open>The arguments of \<open>/bin/sh\<close>: the wrapper script, the login shell and the command.\<close>

definition wrapper_args :: "string \<Rightarrow> string \<Rightarrow> string list" where
  "wrapper_args shell command =
     [''-c'', [CHR 0x22] @ ''$0'' @ [CHR 0x22] @ '' -c '' @ [CHR 0x22] @ ''$1'' @ [CHR 0x22]
        @ '' 3>&-; echo '' @ [CHR 0x22] @ ''$?'' @ [CHR 0x22] @ '' >&3'', shell, command]"

definition child_environment ::
  "env \<Rightarrow> PasswdUser option \<Rightarrow> string \<Rightarrow> env \<Rightarrow> string option \<Rightarrow> env" where
  "child_environment vars user shell session_env agent_socket =
     (let e1 = fold (\<lambda>(key, val) e. set_env key val e) session_env
                 (session_environment vars user shell)
      in case agent_socket of Some path \<Rightarrow> set_env ''SSH_AUTH_SOCK'' path e1 | None \<Rightarrow> e1)"

record Spawned =
  sp_args :: "string list"
  sp_env :: env
  sp_session :: Session
  sp_task :: TaskState

definition fresh_session :: "millis \<Rightarrow> bool \<Rightarrow> bool \<Rightarrow> Session" where
  "fresh_session now resumable agent =
     \<lparr>ses_inbound = [], ses_task_alive = True,
      ses_shared = \<lparr>sh_log = OutboundLog_default, sh_stdin_applied = 0\<rparr>,
      ses_agent = agent, ses_attached = 0, ses_detached_at = Some now, ses_resumable = resumable\<rparr>"

definition start_session ::
  "(string list \<Rightarrow> env \<Rightarrow> ServerError + SessionIo) \<Rightarrow> env \<Rightarrow> PasswdUser option \<Rightarrow> millis \<Rightarrow>
   string \<Rightarrow> string \<Rightarrow> bool \<Rightarrow> string option \<Rightarrow> env \<Rightarrow> ServerError + Spawned" where
  "start_session spawn vars user now shell command resumable agent_socket session_env =
     (let args = wrapper_args shell command;
          e = child_environment vars user shell session_env agent_socket
      in and_then (spawn args e)
           (\<lambda>io. let session = fresh_session now resumable (agent_socket \<noteq> None)
                 in Inr \<lparr>sp_args = args, sp_env = e, sp_session = session,
                         sp_task = session_task_start io (ses_shared session)\<rparr>))"

section \<open>Laws\<close>

text \<open>Setting variables one after the other: the last assignment wins.\<close>

lemma fold_env_if:
  "map_of (fold (\<lambda>(key, val) e. if P key then set_env key val e else e) vars e) k =
     (if P k \<and> k \<in> fst ` set vars then map_of (rev vars) k else map_of e k)"
proof (induction vars arbitrary: e)
  case Nil
  then show ?case by simp
next
  case (Cons kv vars)
  obtain key val where kv: "kv = (key, val)" by (cases kv)
  show ?case
  proof (cases "k \<in> fst ` set vars")
    case True
    then have "\<exists>v. map_of (rev vars) k = Some v"
      by (metis map_of_eq_None_iff not_Some_eq set_rev)
    with True Cons kv show ?thesis by (auto simp: map_add_def update_conv')
  next
    case False
    then have "map_of (rev vars) k = None" by (simp add: map_of_eq_None_iff)
    with False Cons kv show ?thesis by (auto simp: map_add_def update_conv')
  qed
qed

lemmas fold_locale_env = fold_env_if [where P = is_locale_var]
lemmas fold_set_env = fold_env_if [where P = "\<lambda>_. True", simplified]

lemma session_environment_get:
  "map_of (session_environment vars user shell) k =
     (if is_locale_var k \<and> k \<in> fst ` set vars then map_of (rev vars) k
      else if k = ''SHELL'' then Some shell
      else if k = ''PATH'' then Some (case map_of vars ''PATH'' of Some p \<Rightarrow> p | None \<Rightarrow> ''/usr/bin:/bin'')
      else case user of
        None \<Rightarrow> None
      | Some u \<Rightarrow> if k = ''HOME'' then Some (pw_dir u)
                   else if k = ''USER'' \<or> k = ''LOGNAME'' then Some (pw_name u) else None)"
  by (auto simp: session_environment_def Let_def fold_locale_env update_conv' split: option.splits)

section \<open>Properties\<close>

text \<open>
  C29: The daemon's environment does not leak into a session.  Every variable of the child is
  one of the login variables, \<open>SSH_AUTH_SOCK\<close>, an explicitly configured session variable,
  or a locale variable, and only \<open>PATH\<close> and the locale variables carry a value of the
  daemon's own environment.
\<close>
theorem child_environment_confined:
  assumes "map_of (child_environment vars user shell session_env agent_socket) k = Some v"
  shows "k = ''SSH_AUTH_SOCK'' \<and> agent_socket = Some v
    \<or> map_of (rev session_env) k = Some v
    \<or> is_locale_var k \<and> map_of (rev vars) k = Some v
    \<or> k = ''SHELL'' \<and> v = shell
    \<or> k = ''PATH'' \<and> (map_of vars ''PATH'' = Some v \<or> map_of vars ''PATH'' = None \<and> v = ''/usr/bin:/bin'')
    \<or> (\<exists>u. user = Some u \<and> (k = ''HOME'' \<and> v = pw_dir u
                               \<or> k \<in> {''USER'', ''LOGNAME''} \<and> v = pw_name u))"
  using assms
  by (auto simp: child_environment_def Let_def fold_set_env session_environment_get update_conv'
      split: option.splits if_splits)

theorem child_environment_confined_witness:
  "map_of (child_environment [(''LANG'', ''C''), (''CREDENTIALS_DIRECTORY'', ''/run/x'')] None
      ''/bin/sh'' [] None) ''LANG'' = Some ''C''
   \<and> (is_locale_var ''LANG'' \<and> map_of (rev [(''LANG'', ''C''), (''CREDENTIALS_DIRECTORY'', ''/run/x'')]) ''LANG'' = Some ''C'')
   \<and> map_of (child_environment [(''LANG'', ''C''), (''CREDENTIALS_DIRECTORY'', ''/run/x'')] None
      ''/bin/sh'' [] None) ''CREDENTIALS_DIRECTORY'' = None"
proof -
  let ?e = "child_environment [(''LANG'', ''C''), (''CREDENTIALS_DIRECTORY'', ''/run/x'')] None ''/bin/sh'' [] None"
  have e: "map_of ?e ''LANG'' = Some ''C''" "map_of ?e ''CREDENTIALS_DIRECTORY'' = None"
    by (simp_all add: child_environment_def session_environment_def is_locale_var_def)
  from child_environment_confined [OF e(1)] e show ?thesis by simp
qed

end
