(* ===== verification/Attach.thy ===== *)
theory Attach
  imports Spawn
begin

text \<open>
  One connection of the server (\<open>src/server/src/lib.rs\<close>: \<open>handle_connection\<close>,
  \<open>deny\<close>, \<open>attach\<close>): authenticate, start or find the session, then stream its outbound
  log to the client and forward the client's messages to the session task.

  The attach loop is three step functions, in the order of the loop body: \<open>attach_flush\<close>
  sends what the log holds beyond \<open>sent_up_to\<close>, \<open>attach_ack\<close> acknowledges stdin,
  \<open>attach_select\<close> handles one ready branch.  A send may fail; \<open>fails\<close> says after how
  many successful sends of this step it does, and with which error.  A connection that
  returns has its \<open>AttachGuard\<close> dropped by \<open>attach_return\<close>.
\<close>

section \<open>The attach loop\<close>

record AttachState =
  sent_up_to :: u64
  acked_stdin :: u64
  exit_seq :: "u64 option"
  last_activity :: millis

datatype AttachOutcome =
    Loop AttachState
  | Return "ServerError + unit" bool \<comment> \<open>the result, and whether the channel was closed\<close>

type_synonym send_failure = "(nat \<times> ServerError) option"

definition KEEPALIVE_TIMEOUT :: millis where "KEEPALIVE_TIMEOUT = 45 * 1000"

definition attach_init :: "millis \<Rightarrow> u64 \<Rightarrow> AttachState" where
  "attach_init now seen = \<lparr>sent_up_to = seen, acked_stdin = 0, exit_seq = None, last_activity = now\<rparr>"

definition started_message :: "string \<Rightarrow> Session \<Rightarrow> ChannelMessage" where
  "started_message token s = Started (if ses_resumable s then Some token else None)"

fun note_exit :: "ChannelMessage \<Rightarrow> AttachState \<Rightarrow> AttachState" where
  "note_exit (Exit s _) st = st\<lparr>exit_seq := Some s\<rparr>"
| "note_exit _ st = st"

text \<open>The \<open>for message in session.log.after(sent_up_to)\<close> loop: the messages sent, the state,
  and the error that ended it.\<close>

fun attach_send_loop ::
  "send_failure \<Rightarrow> ChannelMessage list \<Rightarrow> AttachState \<Rightarrow>
   ChannelMessage list \<times> AttachState \<times> ServerError option" where
  "attach_send_loop fails [] st = ([], st, None)"
| "attach_send_loop fails (m # ms) st =
     (let st1 = note_exit m st
      in case fails of
           Some (0, e) \<Rightarrow> ([], st1, Some e)
         | _ \<Rightarrow>
             (let st2 = st1\<lparr>sent_up_to := sent_up_to st1 + 1\<rparr>;
                  fails' = (case fails of Some (Suc n, e) \<Rightarrow> Some (n, e) | _ \<Rightarrow> fails)
              in case attach_send_loop fails' ms st2 of (sent, r) \<Rightarrow> (m # sent, r)))"

definition attach_flush ::
  "send_failure \<Rightarrow> AttachState \<Rightarrow> Session \<Rightarrow> ChannelMessage list \<times> AttachOutcome" where
  "attach_flush fails st s =
     (case attach_send_loop fails (log_after (sh_log (ses_shared s)) (sent_up_to st)) st of
        (sent, st', None) \<Rightarrow> (sent, Loop st')
      | (sent, st', Some e) \<Rightarrow> (sent, Return (Inl e) False))"

definition attach_ack ::
  "ServerError option \<Rightarrow> AttachState \<Rightarrow> Session \<Rightarrow> ChannelMessage list \<times> AttachOutcome" where
  "attach_ack fails st s =
     (let applied = sh_stdin_applied (ses_shared s)
      in if acked_stdin st < applied
         then (case fails of
                 Some e \<Rightarrow> ([], Return (Inl e) False)
               | None \<Rightarrow> ([Ack applied], Loop (st\<lparr>acked_stdin := applied\<rparr>)))
         else ([], Loop st))"

datatype AttachEvent =
    KeepaliveTick millis "ServerError option" \<comment> \<open>the time, and the error of the ping if it fails\<close>
  | LatestChanged bool \<comment> \<open>\<open>True\<close> when \<open>changed()\<close> returned \<open>Ok\<close>\<close>
  | ChannelEvent millis Event

fun attach_enabled :: "Transport \<Rightarrow> AttachEvent \<Rightarrow> AttachState \<Rightarrow> bool" where
  "attach_enabled tr (KeepaliveTick _ _) st = needs_ping tr"
| "attach_enabled tr (LatestChanged _) st = (exit_seq st = None)"
| "attach_enabled tr (ChannelEvent _ _) st = True"

text \<open>A client that went away: a session that is not resumable dies with it.\<close>

definition abandon :: "string \<Rightarrow> SessionRegistry \<Rightarrow> Session \<Rightarrow> SessionRegistry \<times> Session" where
  "abandon token r s =
     (if ses_resumable s then (r, s) else (registry_remove token r, inbound_send_ok Abort s))"

definition session_trim :: "u64 \<Rightarrow> Session \<Rightarrow> Session" where
  "session_trim a s = s\<lparr>ses_shared := (ses_shared s)\<lparr>sh_log := log_trim (sh_log (ses_shared s)) a\<rparr>\<rparr>"

text \<open>A decoded frame: an acknowledgement trims the log and may complete the session, anything
  else goes to the session task.\<close>

fun attach_message ::
  "string \<Rightarrow> ChannelMessage \<Rightarrow> AttachState \<Rightarrow> SessionRegistry \<Rightarrow> Session \<Rightarrow>
   AttachOutcome \<times> SessionRegistry \<times> Session" where
  "attach_message token (Ack a) st r s =
     (let s' = session_trim a s
      in if (case exit_seq st of Some e \<Rightarrow> e \<le> a | None \<Rightarrow> False)
         then (Return (Inr ()) True, registry_remove token r, s')
         else (Loop st, r, s'))"
| "attach_message token m st r s = (Loop st, r, inbound_send_ok (Message m) s)"

fun attach_select ::
  "(bytes \<Rightarrow> ServerError + ChannelMessage) \<Rightarrow> string \<Rightarrow> AttachEvent \<Rightarrow> AttachState \<Rightarrow>
   SessionRegistry \<Rightarrow> Session \<Rightarrow> AttachOutcome \<times> SessionRegistry \<times> Session" where
  "attach_select dec token (KeepaliveTick now ping) st r s =
     (if KEEPALIVE_TIMEOUT \<le> now - last_activity st
      then (case abandon token r s of (r', s') \<Rightarrow> (Return (Inr ()) False, r', s'))
      else case ping of
             Some e \<Rightarrow> (Return (Inl e) False, r, s)
           | None \<Rightarrow> (Loop st, r, s))"
| "attach_select dec token (LatestChanged ok) st r s =
     (if \<not> ok \<and> log_after (sh_log (ses_shared s)) (sent_up_to st) = []
      then (Return (Inl SessionAborted) True, registry_remove token r, s)
      else (Loop st, r, s))"
| "attach_select dec token (ChannelEvent now ev) st r s =
     (let st' = st\<lparr>last_activity := now\<rparr>
      in case ev of
           Datagram bs \<Rightarrow>
             (case dec bs of
                Inr m \<Rightarrow> (Loop st', r, inbound_send_ok (DatagramInput m) s)
              | Inl _ \<Rightarrow> (Loop st', r, s))
         | Frame bs \<Rightarrow>
             (case dec bs of
                Inl e \<Rightarrow> (Return (Inl e) False, r, s)
              | Inr m \<Rightarrow> attach_message token m st' r s)
         | Closed \<Rightarrow> (case abandon token r s of (r', s') \<Rightarrow> (Return (Inr ()) False, r', s'))
         | Failed e \<Rightarrow>
             if ses_resumable s then (Return (Inr ()) False, r, s)
             else (Return (Inl e) False, registry_remove token r, inbound_send_ok Abort s))"

text \<open>Entering and leaving \<open>attach\<close>: the guard, both of its actions at once.\<close>

definition attach_enter :: "Session \<Rightarrow> Session" where
  "attach_enter s = AttachGuard_new s"

definition attach_return :: "millis \<Rightarrow> Session \<Rightarrow> Session" where
  "attach_return now s = AttachGuard_drop now s"

section \<open>The handshake\<close>

datatype ServerSend = SendWelcome Welcome | SendMessage ChannelMessage | CloseChannel

datatype Handshake =
    HandshakeFailed ServerError
  | HandshakeAttach string sid u64
  | HandshakeAgent sid

definition deny :: "string \<Rightarrow> ServerSend list" where
  "deny reason = [SendMessage (Denied reason), CloseChannel]"

text \<open>
  The state of the server a connection works on: the registry, the sessions, and the task
  states of the running sessions; \<open>new_sid\<close> is the identity of a newly allocated session.
\<close>

record Server =
  srv_registry :: SessionRegistry
  srv_store :: store
  srv_tasks :: "sid \<Rightarrow> TaskState option"

text \<open>Starting the session of an \<open>Exec\<close> request: the agent hub first, if asked for.\<close>

definition exec_session ::
  "ServerError + string \<Rightarrow> (string list \<Rightarrow> env \<Rightarrow> ServerError + SessionIo) \<Rightarrow> env \<Rightarrow> PasswdUser option \<Rightarrow>
   millis \<Rightarrow> string \<Rightarrow> env \<Rightarrow> string \<Rightarrow> bool \<Rightarrow> bool \<Rightarrow> ServerError + Spawned" where
  "exec_session hub_socket spawn vars user now shell session_env command resumable forward_agent =
     (if forward_agent
      then and_then hub_socket
             (\<lambda>path. start_session spawn vars user now shell command resumable (Some path) session_env)
      else start_session spawn vars user now shell command resumable None session_env)"

text \<open>The request.  Creating the guard is what the connection does next, at the start of \<open>attach\<close> or before it
  serves an agent channel, so it is not part of this.\<close>

definition handle_request ::
  "(string \<Rightarrow> bool \<Rightarrow> bool \<Rightarrow> ServerError + Spawned) \<Rightarrow> string \<Rightarrow> sid \<Rightarrow> ExecRequest \<Rightarrow> Server \<Rightarrow>
   ServerSend list \<times> Handshake \<times> Server" where
  "handle_request start new_token new_sid req srv =
     (case req of
        Exec command resumable forward_agent \<Rightarrow>
          (case start command resumable forward_agent of
             Inl e \<Rightarrow> ([], HandshakeFailed e, srv)
           | Inr sp \<Rightarrow>
               ([], HandshakeAttach new_token new_sid 0,
                srv\<lparr>srv_registry := registry_insert new_token new_sid (srv_registry srv),
                    srv_store := (srv_store srv)(new_sid := sp_session sp),
                    srv_tasks := (srv_tasks srv)(new_sid := Some (sp_task sp))\<rparr>))
      | Resume token seen \<Rightarrow>
          (case registry_get token (srv_registry srv) of
             None \<Rightarrow> (deny ''unknown resume token'', HandshakeFailed UnknownResumeToken, srv)
           | Some i \<Rightarrow> ([], HandshakeAttach token i seen, srv))
      | AgentChannel token \<Rightarrow>
          (case registry_get token (srv_registry srv) of
             None \<Rightarrow> (deny ''unknown resume token'', HandshakeFailed UnknownResumeToken, srv)
           | Some i \<Rightarrow>
               if ses_agent (srv_store srv i)
               then ([], HandshakeAgent i, srv)
               else (deny ''agent forwarding not enabled'', HandshakeFailed AgentNotEnabled, srv)))"

definition handle_connection ::
  "(string \<Rightarrow> AuthError + unit) \<Rightarrow> Welcome \<Rightarrow> (string \<Rightarrow> bool \<Rightarrow> bool \<Rightarrow> ServerError + Spawned) \<Rightarrow>
   string \<Rightarrow> sid \<Rightarrow> ServerError + Hello \<Rightarrow> ServerError option \<Rightarrow> ServerError + ExecRequest \<Rightarrow> Server \<Rightarrow>
   ServerSend list \<times> Handshake \<times> Server" where
  "handle_connection verify_token welcome start new_token new_sid hello send_fails request srv =
     (case hello of
        Inl e \<Rightarrow> ([], HandshakeFailed e, srv)
      | Inr h \<Rightarrow>
          (case verify_token (hello_token h) of
             Inl e \<Rightarrow> ([CloseChannel], HandshakeFailed (AuthFailed e), srv)
           | Inr _ \<Rightarrow>
               (case send_fails of
                  Some e \<Rightarrow> ([], HandshakeFailed e, srv)
                | None \<Rightarrow>
                    (case request of
                       Inl e \<Rightarrow> ([SendWelcome welcome], HandshakeFailed e, srv)
                     | Inr req \<Rightarrow>
                         (case handle_request start new_token new_sid req srv of
                            (sends, r) \<Rightarrow> (SendWelcome welcome # sends, r))))))"

section \<open>Laws of the attach loop\<close>

text \<open>The exit message a stretch of messages leaves noted.\<close>

fun exit_noted :: "ChannelMessage list \<Rightarrow> u64 option \<Rightarrow> u64 option" where
  "exit_noted [] e = e"
| "exit_noted (m # ms) e = exit_noted ms (case m of Exit s _ \<Rightarrow> Some s | _ \<Rightarrow> e)"

lemma note_exit_eq:
  "note_exit m st = st\<lparr>exit_seq := (case m of Exit s _ \<Rightarrow> Some s | _ \<Rightarrow> exit_seq st)\<rparr>"
  by (cases m) simp_all

lemma attach_send_loop_ok:
  "attach_send_loop None ms st =
     (ms, st\<lparr>sent_up_to := sent_up_to st + of_nat (length ms), exit_seq := exit_noted ms (exit_seq st)\<rparr>, None)"
  by (induction ms arbitrary: st) (simp_all add: note_exit_eq Let_def add.assoc)

lemma attach_send_loop_fail:
  "attach_send_loop (Some (n, e)) ms st =
     (if n < length ms
      then (take n ms, st\<lparr>sent_up_to := sent_up_to st + of_nat n, exit_seq := exit_noted (take (Suc n) ms) (exit_seq st)\<rparr>, Some e)
      else (ms, st\<lparr>sent_up_to := sent_up_to st + of_nat (length ms), exit_seq := exit_noted ms (exit_seq st)\<rparr>, None))"
proof (induction ms arbitrary: n st)
  case Nil
  then show ?case by simp
next
  case (Cons m ms)
  then show ?case by (cases n) (simp_all add: note_exit_eq Let_def add.assoc)
qed

lemma exit_noted_none: "\<not> list_ex is_exit ms \<Longrightarrow> exit_noted ms e = e"
  by (induction ms arbitrary: e) (auto split: ChannelMessage.splits)

lemma exit_noted_last:
  "\<not> list_ex is_exit ms \<Longrightarrow> exit_noted (ms @ [Exit s c]) e = Some s"
  by (induction ms arbitrary: e) auto

text \<open>A flush sends the next stretch of the history, also when a send fails on the way.\<close>

definition flushed :: "ChannelMessage list \<Rightarrow> AttachState \<Rightarrow> AttachState" where
  "flushed ms st = st\<lparr>sent_up_to := sent_up_to st + of_nat (length ms), exit_seq := exit_noted ms (exit_seq st)\<rparr>"

lemma attach_flush_eq:
  assumes "log_holds (sh_log (ses_shared s)) H t" "t \<le> unat (sent_up_to st)"
    and "ms = drop (unat (sent_up_to st)) H"
  shows "attach_flush fails st s =
     (case fails of
        Some (n, e) \<Rightarrow> if n < length ms then (take n ms, Return (Inl e) False) else (ms, Loop (flushed ms st))
      | None \<Rightarrow> (ms, Loop (flushed ms st)))"
proof -
  have after: "log_after (sh_log (ses_shared s)) (sent_up_to st) = ms"
    using log_after_suffix [OF assms(1), of "sent_up_to st"] assms(2,3) by (simp add: max_def)
  show ?thesis
  proof (cases fails)
    case None
    then show ?thesis by (simp add: attach_flush_def after attach_send_loop_ok flushed_def)
  next
    case (Some ne)
    obtain n e where "ne = (n, e)" by (cases ne)
    with Some show ?thesis by (simp add: attach_flush_def after attach_send_loop_fail flushed_def)
  qed
qed

lemma flushed_up_to:
  assumes "ms = drop (unat (sent_up_to st)) H" "unat (sent_up_to st) \<le> length H"
  shows "sent_up_to (flushed ms st) = of_nat (length H)"
proof -
  have "sent_up_to st + of_nat (length ms) = (of_nat (unat (sent_up_to st) + length ms) :: u64)" by simp
  also have "\<dots> = of_nat (length H)" using assms by (simp del: of_nat_add)
  finally show ?thesis by (simp add: flushed_def)
qed

lemma abandon_resumable [simp]: "ses_resumable s \<Longrightarrow> abandon token r s = (r, s)"
  by (simp add: abandon_def)

lemma inbound_send_ok_queue:
  "ses_inbound (inbound_send_ok x s) = ses_inbound s @ (if ses_task_alive s then [x] else [])"
  by (simp add: inbound_send_ok_def inbound_send_def)

lemma session_trim_frame [simp]:
  "ses_inbound (session_trim a s) = ses_inbound s" "ses_resumable (session_trim a s) = ses_resumable s"
  "ses_task_alive (session_trim a s) = ses_task_alive s"
  "sh_stdin_applied (ses_shared (session_trim a s)) = sh_stdin_applied (ses_shared s)"
  "sh_log (ses_shared (session_trim a s)) = log_trim (sh_log (ses_shared s)) a"
  by (simp_all add: session_trim_def)

lemma attach_message_cases:
  "attach_message token m st r s =
     (case m of
        Ack a \<Rightarrow>
          if (\<exists>e. exit_seq st = Some e \<and> e \<le> a)
          then (Return (Inr ()) True, registry_remove token r, session_trim a s)
          else (Loop st, r, session_trim a s)
      | _ \<Rightarrow> (Loop st, r, inbound_send_ok (Message m) s))"
  by (cases m) (auto simp: Let_def split: option.splits)

section \<open>Properties\<close>

text \<open>
  An attachment streams the log without gaps and without repetition.  With the log holding
  the history \<open>H\<close> from message \<open>t\<close> on and everything up to \<open>sent_up_to\<close> sent, a flush sends
  exactly the following messages in order: all of them, after which the connection is up to
  date and has noted an \<open>Exit\<close> that was among them, or, when the \<open>n\<close>-th send fails, the
  first \<open>n\<close>, and the connection is given up with that error.
\<close>
theorem attach_flush_contiguous:
  assumes "log_holds (sh_log (ses_shared s)) H t" "t \<le> unat (sent_up_to st)" "unat (sent_up_to st) \<le> length H"
    and "attach_flush fails st s = (sent, out)"
  shows "(case out of
      Loop st' \<Rightarrow> sent = drop (unat (sent_up_to st)) H \<and> sent_up_to st' = of_nat (length H)
        \<and> (\<forall>e c. last (Ack 0 # sent) = Exit e c \<longrightarrow> \<not> list_ex is_exit (butlast sent) \<longrightarrow> exit_seq st' = Some e)
    | Return res closed \<Rightarrow>
        \<exists>n e. fails = Some (n, e) \<and> res = Inl e \<and> sent = take n (drop (unat (sent_up_to st)) H))"
proof -
  let ?ms = "drop (unat (sent_up_to st)) H"
  note eq = attach_flush_eq [OF assms(1,2) refl, of fails]
  have noted: "exit_seq (flushed ?ms st) = Some e"
    if "last (Ack 0 # ?ms) = Exit e c" "\<not> list_ex is_exit (butlast ?ms)" for e c
    using that exit_noted_last [of "butlast ?ms" e c]
    by (cases ?ms rule: rev_cases) (auto simp: flushed_def)
  note up = flushed_up_to [OF refl assms(3)]
  show ?thesis
  proof (cases "\<exists>n e. fails = Some (n, e) \<and> n < length ?ms")
    case True
    with eq assms(4) show ?thesis by auto
  next
    case False
    with eq assms(4) have "sent = ?ms" "out = Loop (flushed ?ms st)"
      by (auto split: option.splits if_splits)
    with up noted show ?thesis by simp
  qed
qed

definition demo_log_session :: Session where
  "demo_log_session = demo_session\<lparr>ses_shared :=
     \<lparr>sh_log = \<lparr>log_buffer = [Stdout 2 [33], Exit 3 0], log_trimmed = 1, log_latest = 3\<rparr>,
      sh_stdin_applied = 0\<rparr>\<rparr>"

lemma demo_log_session_holds:
  "log_holds (sh_log (ses_shared demo_log_session)) [Stdout 1 [104], Stdout 2 [33], Exit 3 0] 1"
  by (auto simp: log_holds_def demo_log_session_def numbered_def less_Suc_eq)

theorem attach_flush_contiguous_witness:
  "\<exists>st'. attach_flush None (attach_init 0 2) demo_log_session = ([Exit 3 0], Loop st')
     \<and> sent_up_to st' = 3 \<and> exit_seq st' = Some 3"
proof -
  obtain sent out where run: "attach_flush None (attach_init 0 2) demo_log_session = (sent, out)" by force
  have u: "unat (sent_up_to (attach_init 0 2)) = 2" by (simp add: attach_init_def)
  show ?thesis
    using attach_flush_contiguous [OF demo_log_session_holds _ _ run] u run
    by (auto split: AttachOutcome.splits)
qed

text \<open>
  A resumable session survives every way its connection can end.  Whatever branch the
  attach loop takes, the session stays registered unless the client acknowledged the
  \<open>Exit\<close> message that was sent on this connection (or the log's publisher is gone), and it
  is never told to abort.
\<close>
theorem resumable_session_survives:
  assumes "ses_resumable s" "attach_select dec token ev st r s = (out, r', s')"
  shows "(r' = r \<or> r' = registry_remove token r \<and>
           (ev = LatestChanged False
            \<or> (\<exists>now bs a e. ev = ChannelEvent now (Frame bs) \<and> dec bs = Inr (Ack a)
                 \<and> exit_seq st = Some e \<and> e \<le> a)))
       \<and> (\<exists>xs. ses_inbound s' = ses_inbound s @ xs \<and> Abort \<notin> set xs)
       \<and> ses_resumable s'"
proof (cases ev)
  case (ChannelEvent now e)
  with assms show ?thesis
    by (auto simp: Let_def attach_message_cases inbound_send_ok_queue
        split: Event.splits sum.splits ChannelMessage.splits if_splits)
qed (use assms in \<open>auto split: if_splits option.splits\<close>)

theorem resumable_session_survives_witness:
  "\<exists>out r' s'. attach_select (\<lambda>_. Inl SessionAborted) ''t'' (ChannelEvent 5 Closed) (attach_init 0 0) [(''t'', 0)] demo_session
       = (out, r', s') \<and> r' = [(''t'', 0)] \<and> ses_resumable s' \<and> (\<exists>xs. ses_inbound s' = xs \<and> Abort \<notin> set xs)"
proof -
  obtain out r' s' where run: "attach_select (\<lambda>_. Inl SessionAborted) ''t'' (ChannelEvent 5 Closed)
      (attach_init 0 0) [(''t'', 0)] demo_session = (out, r', s')" by (metis prod_cases3)
  have "ses_resumable demo_session" by (simp add: demo_session_def)
  from resumable_session_survives [OF this run] run show ?thesis by (auto simp: demo_session_def)
qed

text \<open>
  A session that is not resumable ends with its client: when the connection is closed,
  fails, or is silent for the keepalive timeout, the session is unregistered and its task,
  if still running, is told to abort.
\<close>
theorem plain_session_ends_with_client:
  assumes "\<not> ses_resumable s" "ses_task_alive s"
    and "ev \<in> {ChannelEvent now Closed, ChannelEvent now (Failed e), KeepaliveTick now ping}"
    and "KEEPALIVE_TIMEOUT \<le> now - last_activity st"
    and "attach_select dec token ev st r s = (out, r', s')"
  shows "registry_get token r' = None \<and> Abort \<in> set (ses_inbound s') \<and> (\<exists>res. out = Return res False)"
  using assms by (auto simp: abandon_def inbound_send_ok_queue Let_def)

theorem plain_session_ends_with_client_witness:
  "\<exists>out r' s'. attach_select (\<lambda>_. Inl SessionAborted) ''t'' (ChannelEvent 90000 Closed) (attach_init 0 0) [(''t'', 0)]
       (demo_session\<lparr>ses_resumable := False\<rparr>) = (out, r', s')
     \<and> registry_get ''t'' r' = None \<and> Abort \<in> set (ses_inbound s')"
proof -
  let ?s = "demo_session\<lparr>ses_resumable := False\<rparr>"
  obtain out r' s' where run: "attach_select (\<lambda>_. Inl SessionAborted) ''t'' (ChannelEvent 90000 Closed)
      (attach_init 0 0) [(''t'', 0)] ?s = (out, r', s')" by (metis prod_cases3)
  from plain_session_ends_with_client [OF _ _ _ _ run, of 90000 SessionAborted None] run show ?thesis
    by (simp add: demo_session_def attach_init_def KEEPALIVE_TIMEOUT_def)
qed

text \<open>
  The other exits of the loop forget that rule.  When a frame cannot be decoded or a ping
  fails, the connection returns with the error while a session that is not resumable stays
  registered and its task is not told anything: the command runs on without a client.
\<close>
theorem plain_session_leaks_on_error:
  assumes "ev = ChannelEvent now (Frame bs) \<and> dec bs = Inl e
      \<or> ev = KeepaliveTick now (Some e) \<and> now - last_activity st < KEEPALIVE_TIMEOUT"
  shows "attach_select dec token ev st r s = (Return (Inl e) False, r, s)"
  using assms by auto

theorem plain_session_leaks_on_error_witness:
  "attach_select (\<lambda>_. Inl SessionAborted) ''t'' (ChannelEvent 5 (Frame [])) (attach_init 0 0) [(''t'', 0)]
       (demo_session\<lparr>ses_resumable := False\<rparr>)
     = (Return (Inl SessionAborted) False, [(''t'', 0)], demo_session\<lparr>ses_resumable := False\<rparr>)"
  by (rule plain_session_leaks_on_error [of _ 5 "[]"]) simp

text \<open>
  C13: Nothing happens before authentication.  If a connection gets as far as receiving a
  welcome, reaching a session or changing the state of the server, the token of its hello
  was accepted; and a request then reaches only the session its token names.
\<close>
theorem connection_requires_auth:
  assumes "handle_connection verify_token welcome start new_token new_sid hello send_fails request srv
      = (sends, r, srv')"
    and "srv' \<noteq> srv \<or> SendWelcome w \<in> set sends \<or> r = HandshakeAttach token i seen \<or> r = HandshakeAgent i"
  shows "\<exists>h. hello = Inr h \<and> verify_token (hello_token h) = Inr ()
    \<and> (r = HandshakeAttach token i seen \<longrightarrow>
         token = new_token \<and> i = new_sid \<and> seen = 0 \<and> (\<exists>c b f. request = Inr (Exec c b f))
         \<or> request = Inr (Resume token seen) \<and> registry_get token (srv_registry srv) = Some i \<and> srv' = srv)"
  using assms
  by (auto simp: handle_connection_def handle_request_def deny_def
      split: sum.splits option.splits prod.splits ExecRequest.splits if_splits)

definition demo_server :: Server where
  "demo_server = \<lparr>srv_registry = [(''t'', 0)], srv_store = (\<lambda>_. demo_session), srv_tasks = (\<lambda>_. None)\<rparr>"

theorem connection_requires_auth_witness:
  "\<exists>sends. handle_connection (\<lambda>t. if t = ''pw'' then Inr () else Inl Rejected)
       \<lparr>welcome_user = ''u'', server_version = ''1''\<rparr> (\<lambda>_ _ _. Inl SessionAborted) ''n'' 1
       (Inr \<lparr>hello_token = ''pw'', client_name = ''c'', client_version = ''1''\<rparr>) None (Inr (Resume ''t'' 4)) demo_server
     = (sends, HandshakeAttach ''t'' 0 4, demo_server)
     \<and> registry_get ''t'' (srv_registry demo_server) = Some 0"
proof -
  have run: "handle_connection (\<lambda>t. if t = ''pw'' then Inr () else Inl Rejected)
       \<lparr>welcome_user = ''u'', server_version = ''1''\<rparr> (\<lambda>_ _ _. Inl SessionAborted) ''n'' 1
       (Inr \<lparr>hello_token = ''pw'', client_name = ''c'', client_version = ''1''\<rparr>) None (Inr (Resume ''t'' 4)) demo_server
     = ([SendWelcome \<lparr>welcome_user = ''u'', server_version = ''1''\<rparr>], HandshakeAttach ''t'' 0 4, demo_server)"
    by (simp add: handle_connection_def handle_request_def demo_server_def registry_get_def)
  from connection_requires_auth [OF run, of _ "''t''" 0 4] run show ?thesis by simp
qed

end
