(* ===== verification/Handover.thy ===== *)
theory Handover
  imports Attach
begin

text \<open>
  Handing sessions over from one daemon instance to the next
  (\<open>src/server/src/lib.rs\<close>: \<open>Server::handover_sessions\<close>,
  \<open>Server::restore_sessions\<close>): every resumable session whose task answers gives back its
  state and its open pipes; the state travels in \<open>sessions.json\<close>, the pipes through the
  systemd fd store under the names \<open><token>.<role>\<close>.

  Writing and reading \<open>sessions.json\<close> is modelled by the list of records itself; a file
  that is missing or unreadable is an argument.  Whether a task answers in time is part of
  the environment.
\<close>

section \<open>Handing over\<close>

text \<open>How the task of a session reacts to the request, given its current state.\<close>

definition fd_name :: "string \<Rightarrow> string \<Rightarrow> string" where
  "fd_name token role = token @ ''.'' @ role"

type_synonym named_fds = "(string \<times> fd) list"
type_synonym records = "(string \<times> SessionRecord) list"

text \<open>
  One iteration of the loop.  \<open>answer\<close> is the reply of the task: \<open>None\<close> when it does not
  answer within the timeout.
\<close>

definition handover_one ::
  "(sid \<Rightarrow> SessionHandover option) \<Rightarrow> string \<times> sid \<Rightarrow>
   named_fds \<times> records \<times> Server \<Rightarrow> named_fds \<times> records \<times> Server" where
  "handover_one answer e w =
     (case e of (token, i) \<Rightarrow> case w of (fds, recs, srv) \<Rightarrow>
        (let s = srv_store srv i
         in if \<not> ses_resumable s then (fds, recs, srv)
            else case inbound_send Handover s of
                   None \<Rightarrow> (fds, recs, srv)
                 | Some s' \<Rightarrow>
                     (let srv' = srv\<lparr>srv_store := (srv_store srv)(i := s')\<rparr>
                      in case answer i of
                           None \<Rightarrow> (fds, recs, srv')
                         | Some ho \<Rightarrow>
                             (fds @ map (\<lambda>(role, fd). (fd_name token role, fd)) (ho_fds ho),
                              AList.update token ((ho_state ho)\<lparr>rec_forward_agent := ses_agent s\<rparr>) recs,
                              srv'\<lparr>srv_registry := registry_remove token (srv_registry srv')\<rparr>))))"

text \<open>
  The whole handover: the loop, then writing the file.  The result is the named pipes or the
  error of the write, the content of the file, and the server.
\<close>

definition handover_sessions ::
  "(sid \<Rightarrow> SessionHandover option) \<Rightarrow> ServerError option \<Rightarrow> Server \<Rightarrow>
   (ServerError + named_fds) \<times> records option \<times> Server" where
  "handover_sessions answer write_fails srv =
     (case fold (handover_one answer) (registry_entries (srv_registry srv)) ([], [], srv) of
        (fds, recs, srv') \<Rightarrow>
          (case write_fails of
             Some e \<Rightarrow> (Inl e, None, srv')
           | None \<Rightarrow> (Inr fds, Some recs, srv')))"

section \<open>Restoring\<close>

text \<open>
  What the operating system and the agent hub contribute: the time, a fresh pipe whose write
  end is closed (so its first read returns end of file), whether an fd can be registered with
  the runtime, and the start of the hub.
\<close>

record RestoreEnv =
  re_now :: millis
  re_pipe :: "string \<Rightarrow> ServerError + fd"
  re_from_fd :: "fd \<Rightarrow> ServerError option"
  re_hub :: "ServerError option"

text \<open>Grouping the fds by token: later names overwrite earlier ones of the same role.\<close>

definition fds_by_token :: "named_fds \<Rightarrow> string \<Rightarrow> string \<Rightarrow> fd option" where
  "fds_by_token fds token role =
     map_of (rev (List.map_filter (\<lambda>(name, fd).
        case rsplit_once CHR ''.'' name of
          Some (t, r) \<Rightarrow> if t = token then Some (r, fd) else None
        | None \<Rightarrow> None) fds)) role"

definition receiver :: "RestoreEnv \<Rightarrow> string \<Rightarrow> fd option \<Rightarrow> ServerError + fd" where
  "receiver re role fd =
     and_then (case fd of Some f \<Rightarrow> Inr f | None \<Rightarrow> re_pipe re role)
       (\<lambda>f. case re_from_fd re f of Some e \<Rightarrow> Inl e | None \<Rightarrow> Inr f)"

definition restore_io :: "RestoreEnv \<Rightarrow> (string \<Rightarrow> fd option) \<Rightarrow> SessionRecord \<Rightarrow> ServerError + SessionIo" where
  "restore_io re roles rec =
     (let stdin = (case roles ''stdin'' of
                     Some f \<Rightarrow> if re_from_fd re f = None then Some f else None
                   | None \<Rightarrow> None)
      in and_then (receiver re ''stdout'' (roles ''stdout''))
           (\<lambda>out. and_then (receiver re ''stderr'' (roles ''stderr''))
              (\<lambda>err. and_then (receiver re ''exit'' (roles ''exit''))
                 (\<lambda>ex. Inr \<lparr>io_stdin = stdin, io_stdout = out, io_stderr = err, io_exit = ex,
                            io_exit_code = rec_exit_code rec, io_child = False, io_pgid = rec_pgid rec\<rparr>))))"

definition restore_session :: "millis \<Rightarrow> SessionRecord \<Rightarrow> Session" where
  "restore_session now rec =
     \<lparr>ses_inbound = [], ses_task_alive = True,
      ses_shared = \<lparr>sh_log = log_restore (rec_trimmed rec) (rec_buffer rec),
                    sh_stdin_applied = rec_stdin_applied rec\<rparr>,
      ses_agent = rec_forward_agent rec, ses_attached = 0, ses_detached_at = Some now,
      ses_resumable = True\<rparr>"

definition restore_task :: "SessionIo \<Rightarrow> SessionRecord \<Rightarrow> TaskState" where
  "restore_task io rec = session_task_start io (ses_shared (restore_session 0 rec))"

text \<open>One record; an error leaves the server as it is and ends the restore.\<close>

definition restore_one ::
  "RestoreEnv \<Rightarrow> named_fds \<Rightarrow> string \<times> sid \<times> SessionRecord \<Rightarrow> Server \<Rightarrow> (ServerError + unit) \<times> Server" where
  "restore_one re fds e srv =
     (case e of (token, i, rec) \<Rightarrow>
        (case restore_io re (fds_by_token fds token) rec of
           Inl err \<Rightarrow> (Inl err, srv)
         | Inr io \<Rightarrow>
             (case (if rec_forward_agent rec then re_hub re else None) of
                Some err \<Rightarrow> (Inl err, srv)
              | None \<Rightarrow>
                  (Inr (),
                   srv\<lparr>srv_registry := registry_insert token i (srv_registry srv),
                       srv_store := (srv_store srv)(i := restore_session (re_now re) rec),
                       srv_tasks := (srv_tasks srv)(i := Some (restore_task io rec))\<rparr>))))"

fun restore_loop ::
  "RestoreEnv \<Rightarrow> named_fds \<Rightarrow> (string \<times> sid \<times> SessionRecord) list \<Rightarrow> Server \<Rightarrow> (ServerError + unit) \<times> Server" where
  "restore_loop re fds [] srv = (Inr (), srv)"
| "restore_loop re fds (e # es) srv =
     (case restore_one re fds e srv of
        (Inl err, srv') \<Rightarrow> (Inl err, srv')
      | (Inr _, srv') \<Rightarrow> restore_loop re fds es srv')"

text \<open>\<open>None\<close> for a missing \<open>sessions.json\<close>, an error for a malformed one; each record gets a
  newly allocated session.\<close>

definition restore_sessions ::
  "RestoreEnv \<Rightarrow> named_fds \<Rightarrow> (ServerError + (string \<times> sid \<times> SessionRecord) list) option \<Rightarrow> Server \<Rightarrow>
   (ServerError + unit) \<times> Server" where
  "restore_sessions re fds json srv =
     (case json of
        None \<Rightarrow> (Inr (), srv)
      | Some (Inl e) \<Rightarrow> (Inl e, srv)
      | Some (Inr recs) \<Rightarrow> restore_loop re fds recs srv)"

section \<open>Laws\<close>

lemma roles_no_dot:
  "CHR ''.'' \<notin> set ''stdin''" "CHR ''.'' \<notin> set ''stdout''"
  "CHR ''.'' \<notin> set ''stderr''" "CHR ''.'' \<notin> set ''exit''"
  by simp_all

lemma fd_name_split: "CHR ''.'' \<notin> set role \<Longrightarrow> rsplit_once CHR ''.'' (fd_name token role) = Some (token, role)"
  using rsplit_once_join [of "CHR ''.''" role token] by (simp add: fd_name_def)

lemma handover_roles: "\<forall>rf \<in> set (handover_fds ok st). CHR ''.'' \<notin> set (fst rf)"
  by (auto simp: handover_fds_def split: option.splits if_splits)

text \<open>The pipes of one session found again by name, whatever other sessions handed over.\<close>

lemma map_filter_named:
  assumes "\<forall>rf \<in> set fs. CHR ''.'' \<notin> set (fst rf)"
  shows "List.map_filter (\<lambda>(name, fd).
        case rsplit_once CHR ''.'' name of
          Some (t, r) \<Rightarrow> if t = token then Some (r, fd) else None
        | None \<Rightarrow> None) (map (\<lambda>(role, fd). (fd_name token' role, fd)) fs)
      = (if token' = token then fs else [])"
  using assms
proof (induction fs)
  case Nil
  then show ?case by (simp add: map_filter_simps)
next
  case (Cons rf fs)
  obtain r f where rf: "rf = (r, f)" by (cases rf)
  have "rsplit_once CHR ''.'' (fd_name token' r) = Some (token', r)"
    by (rule fd_name_split) (use Cons.prems rf in auto)
  with Cons rf show ?case by (auto simp: map_filter_simps)
qed

lemma fds_by_token_append:
  assumes "\<forall>rf \<in> set fs. CHR ''.'' \<notin> set (fst rf)"
  shows "fds_by_token (fds @ map (\<lambda>(role, fd). (fd_name token' role, fd)) fs) token role
      = (case (if token' = token then map_of (rev fs) role else None) of
           Some f \<Rightarrow> Some f | None \<Rightarrow> fds_by_token fds token role)"
  using map_filter_named [where fs = fs and token = token and token' = token', OF assms]
  by (simp add: fds_by_token_def List.map_filter_def map_add_def split: option.splits)

lemma handover_fds_roles:
  "map_of (rev (handover_fds (\<lambda>_. True) st)) ''stdin'' = io_stdin st"
  "map_of (rev (handover_fds (\<lambda>_. True) st)) ''stdout'' = (if stdout_open st then Some (io_stdout st) else None)"
  "map_of (rev (handover_fds (\<lambda>_. True) st)) ''stderr'' = (if stderr_open st then Some (io_stderr st) else None)"
  "map_of (rev (handover_fds (\<lambda>_. True) st)) ''exit'' = (if io_exit_code st = None then Some (io_exit st) else None)"
  by (simp_all add: handover_fds_def split: option.splits)

definition restore_env_ok :: "RestoreEnv \<Rightarrow> bool" where
  "restore_env_ok re \<longleftrightarrow>
     (\<forall>f. re_from_fd re f = None) \<and> re_hub re = None \<and> (\<forall>role. \<exists>f. re_pipe re role = Inr f)"

lemma receiver_ok:
  assumes "restore_env_ok re"
  shows "\<exists>f. receiver re role fd = Inr f \<and> (\<forall>f'. fd = Some f' \<longrightarrow> f = f')"
proof (cases fd)
  case None
  obtain f where "re_pipe re role = Inr f" using assms by (auto simp: restore_env_ok_def)
  with None assms show ?thesis by (simp add: receiver_def restore_env_ok_def)
qed (use assms in \<open>simp add: receiver_def restore_env_ok_def\<close>)

text \<open>The pipes of a session that was handed over and restored: the same ones, where they were
  still open.\<close>

lemma restore_io_handover:
  assumes "restore_env_ok re" "roles = map_of (rev (handover_fds (\<lambda>_. True) st))"
    and "rec_exit_code rec = io_exit_code st" "rec_pgid rec = io_pgid st"
  shows "\<exists>io. restore_io re roles rec = Inr io \<and> io_stdin io = io_stdin st
     \<and> io_exit_code io = io_exit_code st \<and> io_pgid io = io_pgid st
     \<and> (stdout_open st \<longrightarrow> io_stdout io = io_stdout st)
     \<and> (stderr_open st \<longrightarrow> io_stderr io = io_stderr st)
     \<and> (io_exit_code st = None \<longrightarrow> io_exit io = io_exit st)"
proof -
  have roles: "roles r = map_of (rev (handover_fds (\<lambda>_. True) st)) r" for r by (simp add: assms(2))
  obtain out where out: "receiver re ''stdout'' (roles ''stdout'') = Inr out" "\<forall>f. roles ''stdout'' = Some f \<longrightarrow> out = f"
    using receiver_ok [OF assms(1)] by blast
  obtain err where err: "receiver re ''stderr'' (roles ''stderr'') = Inr err" "\<forall>f. roles ''stderr'' = Some f \<longrightarrow> err = f"
    using receiver_ok [OF assms(1)] by blast
  obtain ex where ex: "receiver re ''exit'' (roles ''exit'') = Inr ex" "\<forall>f. roles ''exit'' = Some f \<longrightarrow> ex = f"
    using receiver_ok [OF assms(1)] by blast
  let ?io = "\<lparr>io_stdin = io_stdin st, io_stdout = out, io_stderr = err, io_exit = ex,
              io_exit_code = io_exit_code st, io_child = False, io_pgid = io_pgid st\<rparr>"
  have "(case roles ''stdin'' of Some f \<Rightarrow> if re_from_fd re f = None then Some f else None | None \<Rightarrow> None) = io_stdin st"
    using assms(1) by (simp add: roles handover_fds_roles restore_env_ok_def split: option.splits)
  then have "restore_io re roles rec = Inr ?io"
    using out(1) err(1) ex(1) assms(3,4) by (simp add: restore_io_def)
  moreover have "stdout_open st \<longrightarrow> out = io_stdout st" "stderr_open st \<longrightarrow> err = io_stderr st"
    "io_exit_code st = None \<longrightarrow> ex = io_exit st"
    using out(2) err(2) ex(2) by (simp_all add: roles handover_fds_roles)
  ultimately show ?thesis by (intro exI [of _ ?io]) simp
qed

lemma restore_session_shared:
  assumes "task_ok H t st sh"
  shows "ses_shared (restore_session now (ho_state (make_handover ok st sh))) = sh"
  using log_restore_snapshot [of "sh_log sh" H t] assms
  by (simp add: restore_session_def make_handover_def log_snapshot_def task_ok_def)

lemma restore_session_agent [simp]:
  "ses_shared (restore_session now (rec\<lparr>rec_forward_agent := b\<rparr>)) = ses_shared (restore_session now rec)"
  by (simp add: restore_session_def)

section \<open>All sessions\<close>

lemma update_fresh: "k \<notin> fst ` set xs \<Longrightarrow> AList.update k v xs = xs @ [(k, v)]"
  by (induction xs) auto

definition handed_over :: "(sid \<Rightarrow> SessionHandover option) \<Rightarrow> store \<Rightarrow> string \<times> sid \<Rightarrow> bool" where
  "handed_over answer st e \<longleftrightarrow>
     ses_resumable (st (snd e)) \<and> ses_task_alive (st (snd e)) \<and> answer (snd e) \<noteq> None"

definition record_of :: "(sid \<Rightarrow> SessionHandover option) \<Rightarrow> store \<Rightarrow> string \<times> sid \<Rightarrow> string \<times> SessionRecord" where
  "record_of answer st e =
     (fst e, (ho_state (the (answer (snd e))))\<lparr>rec_forward_agent := ses_agent (st (snd e))\<rparr>)"

definition fds_of :: "(sid \<Rightarrow> SessionHandover option) \<Rightarrow> string \<times> sid \<Rightarrow> named_fds" where
  "fds_of answer e = map (\<lambda>(role, fd). (fd_name (fst e) role, fd)) (ho_fds (the (answer (snd e))))"

text \<open>Handing over changes no field of a session that decides about the others.\<close>

definition same_kind :: "store \<Rightarrow> store \<Rightarrow> bool" where
  "same_kind st st' \<longleftrightarrow> (\<forall>i. ses_resumable (st' i) = ses_resumable (st i)
     \<and> ses_task_alive (st' i) = ses_task_alive (st i) \<and> ses_agent (st' i) = ses_agent (st i))"

lemma same_kind_handed_over:
  "same_kind st st' \<Longrightarrow> handed_over answer st' = handed_over answer st"
  "same_kind st st' \<Longrightarrow> record_of answer st' = record_of answer st"
  by (auto simp: same_kind_def handed_over_def record_of_def fun_eq_iff)

lemma handover_one_cases:
  assumes "fst e \<notin> fst ` set recs" "handover_one answer e (fds, recs, srv) = (fds', recs', srv')"
  shows "same_kind (srv_store srv) (srv_store srv')
    \<and> (if handed_over answer (srv_store srv) e
       then fds' = fds @ fds_of answer e \<and> recs' = recs @ [record_of answer (srv_store srv) e]
         \<and> srv_registry srv' = registry_remove (fst e) (srv_registry srv)
       else fds' = fds \<and> recs' = recs \<and> srv_registry srv' = srv_registry srv)"
  using assms
  by (cases e)
     (auto simp: handover_one_def handed_over_def record_of_def fds_of_def same_kind_def inbound_send_def
       update_fresh Let_def split: if_splits option.splits)

lemma handover_fold:
  assumes "distinct (map fst es)" "fst ` set es \<inter> fst ` set recs = {}"
    and "fold (handover_one answer) es (fds, recs, srv) = (fds', recs', srv')"
    and "ho = filter (handed_over answer (srv_store srv)) es"
  shows "fds' = fds @ concat (map (fds_of answer) ho)
    \<and> recs' = recs @ map (record_of answer (srv_store srv)) ho
    \<and> srv_registry srv' = fold registry_remove (map fst ho) (srv_registry srv)"
  using assms
proof (induction es arbitrary: fds recs srv ho)
  case Nil
  then show ?case by simp
next
  case (Cons e es)
  obtain fds1 recs1 srv1 where one: "handover_one answer e (fds, recs, srv) = (fds1, recs1, srv1)"
    by (metis prod_cases3)
  have fresh: "fst e \<notin> fst ` set recs" using Cons.prems(2) by auto
  note c = handover_one_cases [OF fresh one]
  note k = same_kind_handed_over [OF conjunct1 [OF c]]
  have disj: "fst ` set es \<inter> fst ` set recs1 = {}"
    using Cons.prems(1,2) c by (auto simp: record_of_def split: if_splits)
  have rest: "fold (handover_one answer) es (fds1, recs1, srv1) = (fds', recs', srv')"
    using Cons.prems(3) one by simp
  have "distinct (map fst es)" using Cons.prems(1) by simp
  from Cons.IH [OF this disj rest refl] c Cons.prems(4) show ?case
    by (auto simp: k split: if_splits)
qed

lemma handover_sessions_eq:
  assumes "distinct (map fst (srv_registry srv))"
    and "handover_sessions answer None srv = (Inr fds, Some recs, old)"
  shows "fds = concat (map (fds_of answer) (filter (handed_over answer (srv_store srv)) (srv_registry srv)))"
    "recs = map (record_of answer (srv_store srv)) (filter (handed_over answer (srv_store srv)) (srv_registry srv))"
    "srv_registry old =
       fold registry_remove (map fst (filter (handed_over answer (srv_store srv)) (srv_registry srv))) (srv_registry srv)"
  using handover_fold [OF assms(1) _ _ refl, of "[]" answer "[]" srv fds recs old] assms(2)
  by (auto simp: handover_sessions_def registry_entries_def split: prod.splits)

lemma fds_by_token_other:
  "fst e \<noteq> token \<Longrightarrow> \<forall>rf \<in> set (ho_fds (the (answer (snd e)))). CHR ''.'' \<notin> set (fst rf) \<Longrightarrow>
   fds_by_token (fds @ fds_of answer e) token role = fds_by_token fds token role"
  using fds_by_token_append [of "ho_fds (the (answer (snd e)))" fds "fst e" token role]
  by (simp add: fds_of_def)

lemma fds_by_token_all:
  assumes "distinct (map fst es)" "e \<in> set es"
    and "\<forall>e \<in> set es. \<forall>rf \<in> set (ho_fds (the (answer (snd e)))). CHR ''.'' \<notin> set (fst rf)"
  shows "fds_by_token (concat (map (fds_of answer) es)) (fst e) = map_of (rev (ho_fds (the (answer (snd e)))))"
  using assms
proof (induction es rule: rev_induct)
  case Nil
  then show ?case by simp
next
  case (snoc x es)
  show ?case
  proof (rule ext)
    fix role
    show "fds_by_token (concat (map (fds_of answer) (es @ [x]))) (fst e) role
        = map_of (rev (ho_fds (the (answer (snd e))))) role"
    proof (cases "e = x")
      case False
      with snoc.prems have "e \<in> set es" "fst x \<noteq> fst e" by auto
      then show ?thesis using snoc fds_by_token_other [of x "fst e" answer] by simp
    next
      case True
      have other: "fds_by_token (concat (map (fds_of answer) ys)) (fst x) role = None"
        if "fst x \<notin> fst ` set ys" "\<forall>e \<in> set ys. \<forall>rf \<in> set (ho_fds (the (answer (snd e)))). CHR ''.'' \<notin> set (fst rf)"
        for ys
        using that
      proof (induction ys rule: rev_induct)
        case Nil
        then show ?case by (simp add: fds_by_token_def map_filter_simps)
      next
        case (snoc y ys)
        then show ?case using fds_by_token_other [of y "fst x" answer] by auto
      qed
      have "fst x \<notin> fst ` set es" using snoc.prems(1) by auto
      with other [of es] snoc.prems(3) True show ?thesis
        using fds_by_token_append [of "ho_fds (the (answer (snd x)))" "concat (map (fds_of answer) es)" "fst x" "fst x" role]
        by (auto simp: fds_of_def split: option.splits)
    qed
  qed
qed

lemma restore_one_other:
  "restore_one re fds e srv = (r, srv') \<Longrightarrow>
   (fst e \<noteq> token \<longrightarrow> registry_get token (srv_registry srv') = registry_get token (srv_registry srv))
   \<and> (fst (snd e) \<noteq> i \<longrightarrow> srv_store srv' i = srv_store srv i \<and> srv_tasks srv' i = srv_tasks srv i)"
  by (auto simp: restore_one_def split: prod.splits sum.splits option.splits if_splits)

lemma restore_loop_other:
  "restore_loop re fds recs srv = (r, srv') \<Longrightarrow>
   (token \<notin> fst ` set recs \<longrightarrow> registry_get token (srv_registry srv') = registry_get token (srv_registry srv))
   \<and> (i \<notin> (fst \<circ> snd) ` set recs \<longrightarrow> srv_store srv' i = srv_store srv i \<and> srv_tasks srv' i = srv_tasks srv i)"
proof (induction recs arbitrary: srv)
  case (Cons e recs)
  obtain r1 srv1 where one: "restore_one re fds e srv = (r1, srv1)" by force
  with Cons restore_one_other [OF one, of token i] show ?case by (cases r1) auto
qed simp

lemma restore_one_ok:
  assumes "restore_env_ok re" "restore_io re (fds_by_token fds token) rec = Inr io"
  shows "\<exists>srv'. restore_one re fds (token, i, rec) srv = (Inr (), srv')
    \<and> registry_get token (srv_registry srv') = Some i \<and> srv_store srv' i = restore_session (re_now re) rec
    \<and> srv_tasks srv' i = Some (restore_task io rec)"
  using assms by (simp add: restore_one_def restore_env_ok_def)

lemma restore_io_total: "restore_env_ok re \<Longrightarrow> \<exists>io. restore_io re roles rec = Inr io"
  using receiver_ok [of re "''stdout''" "roles ''stdout''"] receiver_ok [of re "''stderr''" "roles ''stderr''"]
    receiver_ok [of re "''exit''" "roles ''exit''"]
  by (auto simp: restore_io_def Let_def)

lemma restore_loop_ok:
  assumes "restore_env_ok re" "distinct (map fst recs)" "distinct (map (fst \<circ> snd) recs)"
    and "(token, i, rec) \<in> set recs" "restore_io re (fds_by_token fds token) rec = Inr io"
  shows "\<exists>srv'. restore_loop re fds recs srv = (Inr (), srv')
    \<and> registry_get token (srv_registry srv') = Some i \<and> srv_store srv' i = restore_session (re_now re) rec
    \<and> srv_tasks srv' i = Some (restore_task io rec)"
proof -
  have total: "\<exists>srv'. restore_loop re fds xs srv = (Inr (), srv')" for xs srv
  proof (induction xs arbitrary: srv)
    case (Cons x xs)
    obtain tk j rc where x: "x = (tk, j, rc)" by (cases x)
    obtain io where "restore_io re (fds_by_token fds tk) rc = Inr io" using restore_io_total [OF assms(1)] by blast
    from restore_one_ok [OF assms(1) this, of j srv] x Cons.IH show ?case by auto
  qed simp
  show ?thesis using assms(2-4)
  proof (induction recs arbitrary: srv)
    case (Cons x recs)
    obtain tk j rc where x: "x = (tk, j, rc)" by (cases x)
    obtain io' where io': "restore_io re (fds_by_token fds tk) rc = Inr io'"
      using restore_io_total [OF assms(1)] by blast
    obtain srv1 where one: "restore_one re fds x srv = (Inr (), srv1)"
      "registry_get tk (srv_registry srv1) = Some j" "srv_store srv1 j = restore_session (re_now re) rc"
      "srv_tasks srv1 j = Some (restore_task io' rc)"
      using restore_one_ok [OF assms(1) io', of j srv] x by blast
    show ?case
    proof (cases "x = (token, i, rec)")
      case True
      with io' assms(5) x have same: "io' = io" "tk = token" "j = i" "rc = rec" by auto
      obtain srv2 where rest: "restore_loop re fds recs srv1 = (Inr (), srv2)" using total by blast
      have "token \<notin> fst ` set recs" "i \<notin> (fst \<circ> snd) ` set recs" using Cons.prems True by auto
      with restore_loop_other [OF rest, of token i] one rest same show ?thesis by simp
    next
      case False
      with Cons one(1) show ?thesis by auto
    qed
  qed simp
qed

section \<open>Properties\<close>

text \<open>The file read back holds the records that were written, in any order, one fresh session
  for each.\<close>

definition file_of :: "records \<Rightarrow> (string \<times> sid \<times> SessionRecord) list \<Rightarrow> bool" where
  "file_of recs json \<longleftrightarrow>
     set (map (\<lambda>(token, i, rec). (token, rec)) json) = set recs
     \<and> distinct (map fst json) \<and> distinct (map (fst \<circ> snd) json)"

text \<open>The reply of a task: its own state and the state it shares with the connections.\<close>

definition answers :: "(sid \<rightharpoonup> TaskState \<times> Shared) \<Rightarrow> sid \<Rightarrow> SessionHandover option" where
  "answers tasks i = map_option (\<lambda>(st, sh). make_handover (\<lambda>_. True) st sh) (tasks i)"

lemma answers_roles:
  "answers tasks i \<noteq> None \<Longrightarrow> \<forall>rf \<in> set (ho_fds (the (answers tasks i))). CHR ''.'' \<notin> set (fst rf)"
  using handover_roles by (fastforce simp: answers_def make_handover_def log_snapshot_def)

text \<open>
  A restart of the daemon preserves every resumable session whose task is running.  After
  the handover the old daemon no longer serves the token, and after the restore the new one
  does: the session has the same outbound log and the same count of applied input, and its
  task continues on the same pipes, with the same process group and exit code and the next
  sequence number, so the log still holds the same history.
\<close>
theorem restart_preserves_session:
  assumes "distinct (map fst (srv_registry srv))" "(token, i) \<in> set (srv_registry srv)"
    and "ses_resumable (srv_store srv i)" "ses_task_alive (srv_store srv i)"
    and "tasks i = Some (st, sh)" "task_ok H t st sh"
    and "handover_sessions (answers tasks) None srv = (Inr fds, Some recs, old)" "file_of recs json"
    and "restore_env_ok re"
  shows "registry_get token (srv_registry old) = None
    \<and> (\<exists>new j st'. restore_sessions re fds (Some (Inr json)) srv0 = (Inr (), new)
         \<and> registry_get token (srv_registry new) = Some j \<and> srv_tasks new j = Some st'
         \<and> ses_shared (srv_store new j) = sh \<and> ses_resumable (srv_store new j)
         \<and> ses_agent (srv_store new j) = ses_agent (srv_store srv i)
         \<and> task_ok H t st' sh \<and> last_client_seq st' = last_client_seq st
         \<and> io_stdin st' = io_stdin st \<and> io_exit_code st' = io_exit_code st \<and> io_pgid st' = io_pgid st
         \<and> (stdout_open st \<longrightarrow> io_stdout st' = io_stdout st)
         \<and> (stderr_open st \<longrightarrow> io_stderr st' = io_stderr st)
         \<and> (io_exit_code st = None \<longrightarrow> io_exit st' = io_exit st))"
proof -
  let ?ans = "answers tasks"
  let ?ho = "filter (handed_over ?ans (srv_store srv)) (srv_registry srv)"
  note all = handover_sessions_eq [OF assms(1,7)]
  have mem: "(token, i) \<in> set ?ho"
    using assms(2-5) by (simp add: handed_over_def answers_def)
  have ans: "?ans i = Some (make_handover (\<lambda>_. True) st sh)" using assms(5) by (simp add: answers_def)
  define rec where "rec = (ho_state (make_handover (\<lambda>_. True) st sh))\<lparr>rec_forward_agent := ses_agent (srv_store srv i)\<rparr>"
  have "record_of ?ans (srv_store srv) (token, i) = (token, rec)" by (simp add: record_of_def ans rec_def)
  then have "(token, rec) \<in> set recs" using mem by (force simp: all(2))
  then have "(token, rec) \<in> (\<lambda>(token, i, rec). (token, rec)) ` set json"
    using assms(8) by (simp add: file_of_def)
  then obtain j where j: "(token, j, rec) \<in> set json" by auto
  have "distinct (map fst ?ho)" using assms(1) by (simp add: distinct_map_filter)
  moreover have "\<forall>e \<in> set ?ho. \<forall>rf \<in> set (ho_fds (the (?ans (snd e)))). CHR ''.'' \<notin> set (fst rf)"
    using answers_roles by (auto simp: handed_over_def)
  ultimately have roles: "fds_by_token fds token = map_of (rev (handover_fds (\<lambda>_. True) st))"
    using fds_by_token_all [OF _ mem, of ?ans] all(1)
    by (simp add: ans make_handover_def log_snapshot_def)
  have fields: "rec_exit_code rec = io_exit_code st" "rec_pgid rec = io_pgid st"
    by (simp_all add: rec_def make_handover_def log_snapshot_def)
  obtain io where io: "restore_io re (fds_by_token fds token) rec = Inr io" "io_stdin io = io_stdin st"
    "io_exit_code io = io_exit_code st" "io_pgid io = io_pgid st"
    "stdout_open st \<longrightarrow> io_stdout io = io_stdout st" "stderr_open st \<longrightarrow> io_stderr io = io_stderr st"
    "io_exit_code st = None \<longrightarrow> io_exit io = io_exit st"
    using restore_io_handover [OF assms(9) roles fields] by (elim exE conjE)
  have shared: "ses_shared (restore_session now rec) = sh" for now
    using restore_session_shared [OF assms(6), of now "\<lambda>_. True"] by (simp add: rec_def)
  have task: "task_ok H t (restore_task io rec) sh"
    using task_ok_start [of sh H t io] assms(6) by (simp add: restore_task_def shared task_ok_def)
  obtain new where new: "restore_loop re fds json srv0 = (Inr (), new)"
    "registry_get token (srv_registry new) = Some j" "srv_store new j = restore_session (re_now re) rec"
    "srv_tasks new j = Some (restore_task io rec)"
    using restore_loop_ok [OF assms(9) _ _ j io(1), of srv0] assms(8) unfolding file_of_def by blast
  have seq: "last_client_seq (restore_task io rec) = last_client_seq st"
    using task assms(6) by (simp add: task_ok_def)
  have pipes: "io_stdin (restore_task io rec) = io_stdin io" "io_exit_code (restore_task io rec) = io_exit_code io"
    "io_pgid (restore_task io rec) = io_pgid io" "io_stdout (restore_task io rec) = io_stdout io"
    "io_stderr (restore_task io rec) = io_stderr io" "io_exit (restore_task io rec) = io_exit io"
    by (simp_all add: restore_task_def session_task_start_def)
  have flags: "ses_resumable (restore_session (re_now re) rec)"
    "ses_agent (restore_session (re_now re) rec) = ses_agent (srv_store srv i)"
    by (simp_all add: restore_session_def rec_def)
  have "token \<in> set (map fst ?ho)" using mem by force
  then have gone: "registry_get token (srv_registry old) = None"
    unfolding all(3) sessions.get_fold_remove by simp
  show ?thesis
    by (intro conjI gone exI [of _ new] exI [of _ j] exI [of _ "restore_task io rec"] task)
       (simp_all add: restore_sessions_def new shared flags seq pipes io)
qed

definition demo_tasks :: "sid \<rightharpoonup> TaskState \<times> Shared" where
  "demo_tasks = [0 \<mapsto> (session_task_start demo_io fresh_shared, fresh_shared)]"

definition empty_server :: Server where
  "empty_server = \<lparr>srv_registry = [], srv_store = (\<lambda>_. demo_session), srv_tasks = (\<lambda>_. None)\<rparr>"

definition demo_restore_env :: RestoreEnv where
  "demo_restore_env = \<lparr>re_now = 9, re_pipe = (\<lambda>_. Inr 99), re_from_fd = (\<lambda>_. None), re_hub = None\<rparr>"

lemma demo_restore_env_ok: "restore_env_ok demo_restore_env"
  by (simp add: restore_env_ok_def demo_restore_env_def)

theorem restart_preserves_session_witness:
  "\<exists>fds recs old json new j st'.
      handover_sessions (answers demo_tasks) None demo_server = (Inr fds, Some recs, old)
    \<and> restore_sessions demo_restore_env fds (Some (Inr json)) empty_server = (Inr (), new)
    \<and> registry_get ''t'' (srv_registry new) = Some j \<and> srv_tasks new j = Some st'
    \<and> io_stdin st' = Some 4 \<and> io_pgid st' = 100"
proof -
  let ?st = "session_task_start demo_io fresh_shared"
  obtain fds rec old where
    ho: "handover_sessions (answers demo_tasks) None demo_server = (Inr fds, Some [(''t'', rec)], old)"
    by (simp add: handover_sessions_def handover_one_def registry_entries_def demo_server_def demo_session_def
        inbound_send_def answers_def demo_tasks_def Let_def)
  have js: "file_of [(''t'', rec)] [(''t'', 5, rec)]" by (simp add: file_of_def)
  have "task_ok [] 0 ?st fresh_shared" by (simp add: task_ok_start)
  from restart_preserves_session [OF _ _ _ _ _ this ho js demo_restore_env_ok, of "''t''" 0 empty_server] ho
  show ?thesis
    by (fastforce simp: demo_server_def demo_session_def demo_tasks_def session_task_start_def demo_io_def)
qed

text \<open>
  C38: A session whose command has finished is not handed over.  Its task has already ended, so
  no record is written for it: after the restart its token is unknown and a client that has
  not yet received the last output and the exit code is denied, although the old daemon still
  had them in the log.
\<close>
theorem finished_session_lost_on_restart:
  assumes "distinct (map fst (srv_registry srv))" "registry_get token (srv_registry srv) = Some i"
    and "\<not> ses_task_alive (srv_store srv i)"
    and "handover_sessions answer None srv = (Inr fds, Some recs, old)" "file_of recs json"
    and "restore_sessions re fds (Some (Inr json)) srv0 = (r, new)" "registry_get token (srv_registry srv0) = None"
  shows "token \<notin> fst ` set recs \<and>
     handle_request start new_token new_sid (Resume token seen) new
       = (deny ''unknown resume token'', HandshakeFailed UnknownResumeToken, new)"
proof -
  have "(token, k) \<in> set (srv_registry srv) \<Longrightarrow> k = i" for k
    using assms(1,2) by (simp add: registry_get_def)
  then have rec: "token \<notin> fst ` set recs"
    using assms(3) handover_sessions_eq(2) [OF assms(1,4)] by (auto simp: record_of_def handed_over_def)
  have "fst ` set json = fst ` set (map (\<lambda>(token, i, rec). (token, rec)) json)" by force
  then have "token \<notin> fst ` set json" using rec assms(5) by (simp add: file_of_def)
  then have "registry_get token (srv_registry new) = None"
    using restore_loop_other [of re fds json srv0 r new token] assms(6,7) by (simp add: restore_sessions_def)
  with rec show ?thesis by (simp add: handle_request_def)
qed

definition finished_server :: Server where
  "finished_server = \<lparr>srv_registry = [(''t'', 0)],
     srv_store = (\<lambda>_. demo_log_session\<lparr>ses_task_alive := False\<rparr>), srv_tasks = (\<lambda>_. None)\<rparr>"

theorem finished_session_lost_on_restart_witness:
  "\<exists>old. handover_sessions (\<lambda>_. None) None finished_server = (Inr [], Some [], old)
    \<and> log_buffer (sh_log (ses_shared (srv_store finished_server 0))) = [Stdout 2 [33], Exit 3 0]
    \<and> restore_sessions demo_restore_env [] (Some (Inr [])) empty_server = (Inr (), empty_server)
    \<and> handle_request (\<lambda>_ _ _. Inl SessionAborted) ''n'' 1 (Resume ''t'' 1) empty_server
       = (deny ''unknown resume token'', HandshakeFailed UnknownResumeToken, empty_server)"
proof -
  have ho: "handover_sessions (\<lambda>_. None) None finished_server = (Inr [], Some [], finished_server)"
    by (simp add: handover_sessions_def handover_one_def registry_entries_def finished_server_def inbound_send_def
        Let_def)
  have js: "file_of [] []" by (simp add: file_of_def)
  have re: "restore_sessions demo_restore_env [] (Some (Inr [])) empty_server = (Inr (), empty_server)"
    by (simp add: restore_sessions_def)
  from finished_session_lost_on_restart [OF _ _ _ ho js re, of "''t''" 0
      "\<lambda>_ _ _. Inl SessionAborted" "''n''" 1 1] ho re
  show ?thesis
    by (simp add: finished_server_def empty_server_def demo_log_session_def registry_get_def)
qed

end
