(* ===== verification/System.thy ===== *)
theory System
  imports Client Handover
begin

text \<open>
  One exec session end to end: the client's \<open>run_exec\<close>, any number of connections one after
  the other (old ones may linger), the attach loops of the server, the session with its
  outbound log, and the session task, composed from the definitions of the component
  theories.

  A connection is a pair of ordered streams and a pair of bags of datagrams, of decoded
  messages: that a channel delivers what was sent, in order, is the subject of Proto and
  Channel.  A datagram may be delivered late, several times, or never.  A stream may stop
  at any point.  The daemon may be restarted, and the expiry sweep may run.  The steps of
  an attach loop (flush, acknowledge, one select branch) are separate steps here and
  interleave freely, so every behaviour of the code is a behaviour of this system.

  Ghost fields record what the outside world saw: the bytes read from the child's pipes and
  written to its stdin, the history of everything ever logged, and every stdin message the
  client made.
\<close>

section \<open>State\<close>

datatype Phase =
    Away
  | Waiting nat \<comment> \<open>request sent on this connection, no answer yet\<close>
  | On nat
  | Finished "ClientError + int"

record Conn =
  cn_req :: "ExecRequest option"
  cn_att :: "AttachState option"
  cn_up :: "ChannelMessage list"
  cn_up_dg :: "ChannelMessage list"
  cn_down :: "ChannelMessage list"
  cn_down_dg :: "ChannelMessage list"

definition no_conn :: Conn where
  "no_conn = \<lparr>cn_req = None, cn_att = None, cn_up = [], cn_up_dg = [], cn_down = [], cn_down_dg = []\<rparr>"

record System =
  sy_client :: ClientState
  sy_phase :: Phase
  sy_conns :: "nat \<Rightarrow> Conn"
  sy_next :: nat
  sy_task :: "TaskState option"
  sy_session :: Session
  sy_registry :: SessionRegistry
  gh_hist :: "ChannelMessage list"
  gh_out :: bytes
  gh_err :: bytes
  gh_in :: bytes
  gh_reads :: "ChannelMessage list"
  gh_lost :: bool \<comment> \<open>the send of a freshly read stdin message failed\<close>
  gh_epipe :: bool \<comment> \<open>a write to the child's stdin failed\<close>

abbreviation sy_log :: "System \<Rightarrow> OutboundLog" where
  "sy_log s \<equiv> sh_log (ses_shared (sy_session s))"

abbreviation sy_applied :: "System \<Rightarrow> u64" where
  "sy_applied s \<equiv> sh_stdin_applied (ses_shared (sy_session s))"

definition set_conn :: "nat \<Rightarrow> Conn \<Rightarrow> System \<Rightarrow> System" where
  "set_conn c C s = s\<lparr>sy_conns := (sy_conns s)(c := C)\<rparr>"

text \<open>The state after \<open>Exec\<close> was served: the session is attached to connection 0, and the
  client has not read the answer yet.\<close>

definition sys_init :: "string \<Rightarrow> SessionIo \<Rightarrow> bool \<Rightarrow> millis \<Rightarrow> System" where
  "sys_init tok io agent now =
     (let ses = attach_enter (fresh_session now True agent)
      in \<lparr>sy_client = client_init, sy_phase = Waiting 0,
          sy_conns = (\<lambda>_. no_conn)(0 := no_conn\<lparr>cn_att := Some (attach_init now 0),
                                               cn_down := [started_message tok ses]\<rparr>),
          sy_next = 1,
          sy_task = Some (session_task_start io (ses_shared ses)), sy_session = ses,
          sy_registry = [(tok, 0)],
          gh_hist = [], gh_out = [], gh_err = [], gh_in = [], gh_reads = [],
          gh_lost = False, gh_epipe = False\<rparr>)"

section \<open>Actions of the server\<close>

text \<open>One iteration of the session task.\<close>

definition task_act :: "TaskEnv \<Rightarrow> TaskEvent \<Rightarrow> TaskState \<Rightarrow> System \<Rightarrow> System" where
  "task_act env ev st s =
     (let ses = sy_session s
      in case session_task_step env ev st (ses_shared ses) of
           (out, sh', eff) \<Rightarrow>
             s\<lparr>sy_task := (case out of TaskRunning st' \<Rightarrow> Some st' | _ \<Rightarrow> None),
               sy_session := ses\<lparr>ses_inbound := (case ev of Inbound (Some _) \<Rightarrow> tl (ses_inbound ses) | _ \<Rightarrow> ses_inbound ses),
                                 ses_shared := sh',
                                 ses_task_alive := (case out of TaskRunning _ \<Rightarrow> True | _ \<Rightarrow> False)\<rparr>,
               gh_hist := gh_hist s @ drop (length (log_buffer (sh_log (ses_shared ses)))) (log_buffer (sh_log sh')),
               gh_out := gh_out s @ read_stdout ev,
               gh_err := gh_err s @ read_stderr ev,
               gh_in := gh_in s @ written eff,
               gh_epipe := (gh_epipe s \<or> env_write env \<noteq> WriteOk)\<rparr>)"

text \<open>What the task may see: its pipes, the head of its queue, or the end of the queue when
  the session is no longer registered.\<close>

fun task_may :: "string \<Rightarrow> TaskEvent \<Rightarrow> System \<Rightarrow> bool" where
  "task_may tok (Inbound (Some x)) s = (x \<noteq> Handover \<and> ses_inbound (sy_session s) \<noteq> [] \<and> hd (ses_inbound (sy_session s)) = x)"
| "task_may tok (Inbound None) s = (registry_get tok (sy_registry s) = None)"
| "task_may tok _ s = True"

text \<open>A restart of the daemon: every attach loop is gone, the running task of a registered session is
  handed over and restored if it answers in time (\<open>intime\<close>), any other one is not.  A connection whose request was not read yet may still be
  served by the new daemon, which inherits the listening socket.\<close>

definition detach_all :: "(nat \<Rightarrow> Conn) \<Rightarrow> nat \<Rightarrow> Conn" where
  "detach_all conns c = (conns c)\<lparr>cn_att := None\<rparr>"

definition restart_act :: "string \<Rightarrow> RestoreEnv \<Rightarrow> bool \<Rightarrow> System \<Rightarrow> System" where
  "restart_act tok re intime s =
     (let s' = s\<lparr>sy_conns := detach_all (sy_conns s)\<rparr>;
          gone = s'\<lparr>sy_task := None, sy_registry := [],
                     sy_session := (sy_session s)\<lparr>ses_task_alive := False\<rparr>\<rparr>
      in case (if registry_get tok (sy_registry s) = None \<or> \<not> intime then None else sy_task s) of
           None \<Rightarrow> gone
         | Some st \<Rightarrow>
             (let ho = make_handover (\<lambda>_. True) st (ses_shared (sy_session s));
                  rec = (ho_state ho)\<lparr>rec_forward_agent := ses_agent (sy_session s)\<rparr>;
                  fds = map (\<lambda>(role, fd). (fd_name tok role, fd)) (ho_fds ho)
              in case restore_io re (fds_by_token fds tok) rec of
                   Inl _ \<Rightarrow> gone
                 | Inr io \<Rightarrow>
                     s'\<lparr>sy_task := Some (restore_task io rec),
                        sy_session := restore_session (re_now re) rec\<rparr>))"

text \<open>Leaving the attach loop drops the guard.\<close>

fun att_of :: "AttachOutcome \<Rightarrow> AttachState option" where
  "att_of (Loop a) = Some a"
| "att_of (Return _ _) = None"

fun leave :: "millis \<Rightarrow> AttachOutcome \<Rightarrow> Session \<Rightarrow> Session" where
  "leave now (Loop _) ses = ses"
| "leave now (Return _ _) ses = attach_return now ses"

definition flush_act :: "send_failure \<Rightarrow> millis \<Rightarrow> nat \<Rightarrow> AttachState \<Rightarrow> System \<Rightarrow> System" where
  "flush_act fails now c a s =
     (case attach_flush fails a (sy_session s) of
        (sent, out) \<Rightarrow>
          (set_conn c ((sy_conns s c)\<lparr>cn_down := cn_down (sy_conns s c) @ sent,
                                     cn_down_dg := cn_down_dg (sy_conns s c) @ filter worth_duplicating sent,
                                     cn_att := att_of out\<rparr>) s)
            \<lparr>sy_session := leave now out (sy_session s)\<rparr>)"

definition ack_act :: "ServerError option \<Rightarrow> millis \<Rightarrow> nat \<Rightarrow> AttachState \<Rightarrow> System \<Rightarrow> System" where
  "ack_act fails now c a s =
     (case attach_ack fails a (sy_session s) of
        (sent, out) \<Rightarrow>
          (set_conn c ((sy_conns s c)\<lparr>cn_down := cn_down (sy_conns s c) @ sent, cn_att := att_of out\<rparr>) s)
            \<lparr>sy_session := leave now out (sy_session s)\<rparr>)"

definition server_act ::
  "string \<Rightarrow> (bytes \<Rightarrow> ServerError + ChannelMessage) \<Rightarrow> AttachEvent \<Rightarrow> millis \<Rightarrow> nat \<Rightarrow> AttachState \<Rightarrow> System \<Rightarrow> System" where
  "server_act tok dec ev now c a s =
     (case attach_select dec tok ev a (sy_registry s) (sy_session s) of
        (out, r', ses') \<Rightarrow>
          (set_conn c ((sy_conns s c)\<lparr>cn_up := (case ev of ChannelEvent _ (Frame _) \<Rightarrow> tl (cn_up (sy_conns s c))
                                                | _ \<Rightarrow> cn_up (sy_conns s c)),
                                     cn_att := att_of out\<rparr>) s)
            \<lparr>sy_registry := r', sy_session := leave now out ses'\<rparr>)"

text \<open>
  What an attach loop may see: the next frame of its stream, a datagram sent to it, the end of
  the connection, its timers.  The session holds the publisher of the log, so the watch never
  reports that it is gone.
\<close>

fun server_may :: "(bytes \<Rightarrow> ServerError + ChannelMessage) \<Rightarrow> AttachEvent \<Rightarrow> Conn \<Rightarrow> bool" where
  "server_may dec (ChannelEvent _ (Frame bs)) C = (cn_up C \<noteq> [] \<and> dec bs = Inr (hd (cn_up C)))"
| "server_may dec (ChannelEvent _ (Datagram bs)) C = (\<exists>m \<in> set (cn_up_dg C). dec bs = Inr m)"
| "server_may dec (LatestChanged ok) C = ok"
| "server_may dec _ C = True"

definition server_view :: "System \<Rightarrow> Server" where
  "server_view s = \<lparr>srv_registry = sy_registry s, srv_store = (\<lambda>_. sy_session s), srv_tasks = (\<lambda>_. sy_task s)\<rparr>"

fun sent_messages :: "ServerSend list \<Rightarrow> ChannelMessage list" where
  "sent_messages [] = []"
| "sent_messages (SendMessage m # xs) = m # sent_messages xs"
| "sent_messages (_ # xs) = sent_messages xs"

text \<open>Serving the resume request of a connection.\<close>

definition accept_act :: "millis \<Rightarrow> nat \<Rightarrow> ExecRequest \<Rightarrow> System \<Rightarrow> System" where
  "accept_act now c req s =
     (let C = (sy_conns s c)\<lparr>cn_req := None\<rparr>
      in case handle_request (\<lambda>_ _ _. Inl Io) [] 0 req (server_view s) of
           (sends, HandshakeAttach token i seen, _) \<Rightarrow>
             (set_conn c (C\<lparr>cn_att := Some (attach_init now seen),
                           cn_down := cn_down C @ sent_messages sends @ [started_message token (sy_session s)]\<rparr>) s)
               \<lparr>sy_session := attach_enter (sy_session s)\<rparr>
         | (sends, _, _) \<Rightarrow> set_conn c (C\<lparr>cn_down := cn_down C @ sent_messages sends\<rparr>) s)"

text \<open>
  The sweep gives up the session.  This may happen at any time here, attached or not: the sweep first collects
  the expired sessions and deals with each of them later, and a race of two guards can leave a detach
  time on an attached session.  So nothing about System depends on the detach time, and it does not matter
  that a guard is created or dropped in one step.
\<close>

definition expire_act :: "string \<Rightarrow> System \<Rightarrow> System" where
  "expire_act tok s =
     (case expire_one (tok, 0) (sy_registry s, \<lambda>_. sy_session s) of
        (r', st') \<Rightarrow> s\<lparr>sy_registry := r', sy_session := st' 0\<rparr>)"

section \<open>Actions of the client\<close>

text \<open>Where \<open>run_exec\<close> is after the attached loop did something.\<close>

fun outcome_client :: "AttachedOutcome \<Rightarrow> ClientState" where
  "outcome_client (Attached st) = st"
| "outcome_client (Exited st _) = st"
| "outcome_client (Lost st) = st"
| "outcome_client (Broken st _) = st"

definition outcome_phase :: "nat \<Rightarrow> AttachedOutcome \<Rightarrow> Phase" where
  "outcome_phase c out =
     (case after_attached out of
        None \<Rightarrow> On c
      | Some (ExecReturn r) \<Rightarrow> Finished r
      | Some (ExecReconnect _ _) \<Rightarrow> Away)"

text \<open>An event of the attached loop other than a read from stdin.  Acknowledgements are sent
  without looking at the result (\<open>sent\<close> is false when the send fails).\<close>

definition client_act ::
  "Target \<Rightarrow> (bytes \<Rightarrow> ClientError + ChannelMessage) \<Rightarrow> AttachedEvent \<Rightarrow> bool \<Rightarrow> nat \<Rightarrow> System \<Rightarrow> System" where
  "client_act tgt dec ev sent c s =
     (case attached_step tgt dec ev (sy_client s) of
        (msgs, out) \<Rightarrow>
          (set_conn c ((sy_conns s c)\<lparr>cn_down := (case ev of FromServer (ConnFrame _) _ \<Rightarrow> tl (cn_down (sy_conns s c))
                                                  | _ \<Rightarrow> cn_down (sy_conns s c)),
                                     cn_up := cn_up (sy_conns s c) @ (if sent then msgs else [])\<rparr>) s)
            \<lparr>sy_client := outcome_client out, sy_phase := outcome_phase c out\<rparr>)"

fun client_may :: "(bytes \<Rightarrow> ClientError + ChannelMessage) \<Rightarrow> AttachedEvent \<Rightarrow> Conn \<Rightarrow> bool" where
  "client_may dec (FromServer (ConnFrame bs) _) C = (cn_down C \<noteq> [] \<and> dec bs = Inr (hd (cn_down C)))"
| "client_may dec (FromServer (ConnDatagram bs) _) C = (\<exists>m \<in> set (cn_down_dg C). dec bs = Inr m)"
| "client_may dec (FromServer Disconnected _) C = True"
| "client_may dec (ClientTick _ _) C = True"
| "client_may dec (StdinRead _ _) C = False"

text \<open>A read from stdin.  When the send fails the frame may still have reached the peer
  (\<open>leak\<close>).\<close>

definition stdin_act ::
  "Target \<Rightarrow> bytes option \<Rightarrow> bool \<Rightarrow> bool \<Rightarrow> nat \<Rightarrow> System \<Rightarrow> System" where
  "stdin_act tgt r ok leak c s =
     (let made = (case r of Some data \<Rightarrow> [stdin_message (client_seq (sy_client s) + 1) data] | None \<Rightarrow> [])
      in case attached_step tgt (\<lambda>_. Inl ClientProtocol) (StdinRead r ok) (sy_client s) of
           (msgs, out) \<Rightarrow>
             (set_conn c ((sy_conns s c)\<lparr>cn_up := cn_up (sy_conns s c) @ msgs @ (if \<not> ok \<and> leak then made else []),
                                        cn_up_dg := cn_up_dg (sy_conns s c) @ filter worth_duplicating msgs\<rparr>) s)
               \<lparr>sy_client := outcome_client out, sy_phase := outcome_phase c out,
                gh_reads := gh_reads s @ made, gh_lost := (gh_lost s \<or> \<not> ok)\<rparr>)"

definition connect_act :: "Target \<Rightarrow> string \<Rightarrow> System \<Rightarrow> System" where
  "connect_act tgt command s =
     (set_conn (sy_next s) (no_conn\<lparr>cn_req := Some (start_request tgt command (sy_client s))\<rparr>) s)
       \<lparr>sy_next := sy_next s + 1, sy_phase := Waiting (sy_next s)\<rparr>"

text \<open>The result of a connect attempt whose request was sent: \<open>fails\<close> is the first resend that
  fails.  An expired login shows before that, when the token is fetched.\<close>

definition connected_act ::
  "Target \<Rightarrow> ClientError + string option \<Rightarrow> nat option \<Rightarrow> nat \<Rightarrow> System \<Rightarrow> System" where
  "connected_act tgt r fails c s =
     (case after_connect tgt r (sy_client s) of
        GoAttach cl \<Rightarrow>
          (case resend fails cl of
             (msgs, ok) \<Rightarrow>
               (set_conn c ((sy_conns s c)\<lparr>cn_up := cn_up (sy_conns s c) @ msgs\<rparr>) s)
                 \<lparr>sy_client := cl,
                  sy_phase := outcome_phase c (if ok then Attached cl else Lost cl)\<rparr>)
      | GoLogin cl _ \<Rightarrow> s\<lparr>sy_client := cl, sy_phase := Away\<rparr>
      | GoRetry cl _ \<Rightarrow> s\<lparr>sy_client := cl, sy_phase := Away\<rparr>
      | GiveUp e \<Rightarrow> s\<lparr>sy_phase := Finished (Inl e)\<rparr>)"

definition pop_down :: "nat \<Rightarrow> System \<Rightarrow> System" where
  "pop_down c s = set_conn c ((sy_conns s c)\<lparr>cn_down := tl (cn_down (sy_conns s c))\<rparr>) s"

section \<open>The step relation\<close>

inductive step :: "string \<Rightarrow> Target \<Rightarrow> string \<Rightarrow> System \<Rightarrow> System \<Rightarrow> bool" for tok tgt command where
  Task: "sy_task s = Some st \<Longrightarrow> task_enabled ev st \<Longrightarrow> task_may tok ev s \<Longrightarrow>
    step tok tgt command s (task_act env ev st s)"
| Restart: "restore_env_ok re \<Longrightarrow> step tok tgt command s (restart_act tok re intime s)"
| Flush: "cn_att (sy_conns s c) = Some a \<Longrightarrow> step tok tgt command s (flush_act fails now c a s)"
| StdinAck: "cn_att (sy_conns s c) = Some a \<Longrightarrow> step tok tgt command s (ack_act fails' now c a s)"
| ServerEvent: "cn_att (sy_conns s c) = Some a \<Longrightarrow> server_may dec ev' (sy_conns s c) \<Longrightarrow>
    step tok tgt command s (server_act tok dec ev' now c a s)"
| Accept: "cn_req (sy_conns s c) = Some req \<Longrightarrow> step tok tgt command s (accept_act now c req s)"
| Expire: "step tok tgt command s (expire_act tok s)"
| ClientEvent: "sy_phase s = On c \<Longrightarrow> client_may cdec cev (sy_conns s c) \<Longrightarrow>
    step tok tgt command s (client_act tgt cdec cev sent c s)"
| ClientStdin: "sy_phase s = On c \<Longrightarrow> cl_stdin_open (sy_client s) \<Longrightarrow>
    step tok tgt command s (stdin_act tgt r ok leak c s)"
| Connect: "sy_phase s = Away \<Longrightarrow> step tok tgt command s (connect_act tgt command s)"
| Answer: "sy_phase s = Waiting c \<Longrightarrow> cn_down (sy_conns s c) = m # rest \<Longrightarrow>
    step tok tgt command s (connected_act tgt (start_reply m) n c (pop_down c s))"
| ConnectFails: "sy_phase s = Waiting c \<Longrightarrow> \<not> is_final e \<Longrightarrow>
    step tok tgt command s (connected_act tgt (Inl e) n c s)"

inductive reachable :: "string \<Rightarrow> Target \<Rightarrow> string \<Rightarrow> System \<Rightarrow> bool" for tok tgt command where
  Init: "io_stdin io \<noteq> None \<Longrightarrow> io_exit_code io = None \<Longrightarrow>
    reachable tok tgt command (sys_init tok io agent now)"
| Step: "reachable tok tgt command s \<Longrightarrow> step tok tgt command s s' \<Longrightarrow> reachable tok tgt command s'"

inductive_cases step_elim: "step tok tgt command s s'"

lemmas step_cases = step_elim [consumes 1, case_names Task Restart Flush StdinAck ServerEvent Accept Expire
    ClientEvent ClientStdin Connect Answer ConnectFails]

section \<open>Frame lemmas\<close>

lemma set_conn_simps [simp]:
  "sy_conns (set_conn c C s) = (sy_conns s)(c := C)"
  "sy_client (set_conn c C s) = sy_client s" "sy_phase (set_conn c C s) = sy_phase s"
  "sy_next (set_conn c C s) = sy_next s" "sy_task (set_conn c C s) = sy_task s"
  "sy_session (set_conn c C s) = sy_session s" "sy_registry (set_conn c C s) = sy_registry s"
  "gh_hist (set_conn c C s) = gh_hist s" "gh_out (set_conn c C s) = gh_out s"
  "gh_err (set_conn c C s) = gh_err s" "gh_in (set_conn c C s) = gh_in s"
  "gh_reads (set_conn c C s) = gh_reads s" "gh_lost (set_conn c C s) = gh_lost s"
  "gh_epipe (set_conn c C s) = gh_epipe s"
  by (simp_all add: set_conn_def)

lemma attach_guard_frame [simp]:
  "ses_shared (attach_enter ses) = ses_shared ses" "ses_shared (attach_return now ses) = ses_shared ses"
  "ses_inbound (attach_enter ses) = ses_inbound ses" "ses_inbound (attach_return now ses) = ses_inbound ses"
  "ses_task_alive (attach_enter ses) = ses_task_alive ses"
  "ses_task_alive (attach_return now ses) = ses_task_alive ses"
  "ses_resumable (attach_enter ses) = ses_resumable ses"
  "ses_resumable (attach_return now ses) = ses_resumable ses"
  by (simp_all add: attach_enter_def attach_return_def AttachGuard_new_def AttachGuard_drop_def
      guard_new_clear_def guard_new_count_def guard_drop_count_def guard_drop_stamp_def)

lemma leave_frame [simp]:
  "ses_shared (leave now out ses) = ses_shared ses" "ses_inbound (leave now out ses) = ses_inbound ses"
  "ses_task_alive (leave now out ses) = ses_task_alive ses" "ses_resumable (leave now out ses) = ses_resumable ses"
  by (cases out; simp)+

lemma expire_act_frame:
  "sy_conns (expire_act tok s) = sy_conns s" "sy_client (expire_act tok s) = sy_client s"
  "sy_phase (expire_act tok s) = sy_phase s" "sy_task (expire_act tok s) = sy_task s"
  "gh_hist (expire_act tok s) = gh_hist s" "gh_out (expire_act tok s) = gh_out s"
  "gh_err (expire_act tok s) = gh_err s" "gh_in (expire_act tok s) = gh_in s"
  "gh_reads (expire_act tok s) = gh_reads s" "gh_lost (expire_act tok s) = gh_lost s"
  "gh_epipe (expire_act tok s) = gh_epipe s"
  "ses_shared (sy_session (expire_act tok s)) = ses_shared (sy_session s)"
  "ses_task_alive (sy_session (expire_act tok s)) = ses_task_alive (sy_session s)"
  "ses_resumable (sy_session (expire_act tok s)) = ses_resumable (sy_session s)"
  by (simp_all add: expire_act_def expire_one_def)

lemma expire_act_inbound: "\<exists>n. ses_inbound (sy_session (expire_act tok s)) = ses_inbound (sy_session s) @ replicate n Abort"
  by (auto simp: expire_act_def expire_one_def inbound_send_ok_def inbound_send_def intro: exI [of _ 0] exI [of _ "Suc 0"])

lemma attach_select_shared:
  assumes "attach_select dec tok ev a r ses = (out, r', ses')"
  shows "ses_task_alive ses' = ses_task_alive ses"
    "sh_stdin_applied (ses_shared ses') = sh_stdin_applied (ses_shared ses)"
  using assms
  by (cases "(dec, tok, ev, a, r, ses)" rule: attach_select.cases;
      auto simp: Let_def attach_message_cases abandon_def
        split: if_splits option.splits Event.splits sum.splits ChannelMessage.splits)+

end
