(* ===== verification/SystemOutput.thy ===== *)
theory SystemOutput
  imports System "HOL-Library.Sublist"
begin

text \<open>
  The output direction of a session end to end: the client's stdout and stderr are exactly a
  prefix of what the child wrote, complete when the exit code is returned.  The invariant has
  three parts: the log is the history of what was read from the child (\<open>log_inv\<close>), nothing
  is acknowledged that the client does not have (\<open>ack_inv\<close>), and the stream of the current
  connection continues where the client is (\<open>down_inv\<close>).
\<close>

section \<open>The log\<close>

definition exit_last :: "ChannelMessage list \<Rightarrow> bool" where
  "exit_last H \<longleftrightarrow> (\<exists>H0 e c. H = H0 @ [Exit e c] \<and> \<not> list_ex is_exit H0)"

abbreviation trimmed :: "System \<Rightarrow> nat" where
  "trimmed s \<equiv> unat (log_trimmed (sy_log s))"

definition log_inv :: "System \<Rightarrow> bool" where
  "log_inv s \<longleftrightarrow>
     log_holds (sy_log s) (gh_hist s) (trimmed s)
     \<and> (\<forall>st. sy_task s = Some st \<longrightarrow> task_ok (gh_hist s) (trimmed s) st (ses_shared (sy_session s)))
     \<and> stdout_bytes (gh_hist s) = gh_out s \<and> stderr_bytes (gh_hist s) = gh_err s
     \<and> list_all is_output (gh_hist s)
     \<and> (list_ex is_exit (gh_hist s) \<longrightarrow> sy_task s = None \<and> exit_last (gh_hist s))"

lemma log_invD:
  assumes "log_inv s"
  shows "log_holds (sy_log s) (gh_hist s) (trimmed s)" "numbered (gh_hist s)" "trimmed s \<le> length (gh_hist s)"
  using assms by (auto simp: log_inv_def log_holds_def)

lemma default_trimmed [simp]: "log_trimmed OutboundLog_default = 0"
  by (simp add: OutboundLog_default_def)

lemma log_inv_init: "log_inv (sys_init tok io agent now)"
proof -
  have "log_holds (sh_log fresh_shared) [] 0" by simp
  then have "task_ok [] 0 (session_task_start io fresh_shared) fresh_shared" by (rule task_ok_start)
  then show ?thesis
    by (simp add: log_inv_def sys_init_def fresh_session_def Let_def)
qed

text \<open>Everything the log invariant is about.\<close>

lemma log_inv_cong:
  assumes "log_inv s" "sy_log s' = sy_log s" "gh_hist s' = gh_hist s" "gh_out s' = gh_out s" "gh_err s' = gh_err s"
    and "sy_task s' = sy_task s" "sy_applied s' = sy_applied s"
  shows "log_inv s'"
  using assms by (auto simp: log_inv_def task_ok_def)

text \<open>One step of the task appends one stretch to the history.\<close>

lemma task_act_hist:
  assumes "log_inv s" "sy_task s = Some st" "task_enabled ev st" "length (gh_hist s) + 2 < 2 ^ 64"
    and "s' = task_act env ev st s"
  shows "\<exists>H'. gh_hist s' = gh_hist s @ H' \<and> log_holds (sy_log s') (gh_hist s @ H') (trimmed s)
     \<and> stdout_bytes H' = read_stdout ev \<and> stderr_bytes H' = read_stderr ev \<and> list_all is_output H'
     \<and> (\<forall>st'. sy_task s' = Some st' \<longrightarrow> task_ok (gh_hist s @ H') (trimmed s) st' (ses_shared (sy_session s')))
     \<and> (list_ex is_exit H' \<longrightarrow> sy_task s' = None \<and> (\<exists>e c. H' = [Exit e c]))"
proof -
  let ?sh = "ses_shared (sy_session s)"
  obtain out sh' eff where st: "session_task_step env ev st ?sh = (out, sh', eff)" by (metis prod_cases3)
  have ok: "task_ok (gh_hist s) (trimmed s) st ?sh" using assms(1,2) by (simp add: log_inv_def)
  obtain H' where H': "log_holds (sh_log sh') (gh_hist s @ H') (trimmed s)"
    "stdout_bytes H' = read_stdout ev" "stderr_bytes H' = read_stderr ev" "list_all is_output H'"
    "\<forall>st'. out = TaskRunning st' \<longrightarrow> task_ok (gh_hist s @ H') (trimmed s) st' sh'"
    "if out = TaskEnded then \<exists>c. H' = [Exit (of_nat (length (gh_hist s) + 1)) c] else \<not> list_ex is_exit H'"
    using session_task_step_log [OF ok assms(4,3) st] by blast
  have "log_buffer (sh_log sh') = log_buffer (sh_log ?sh) @ H'"
    using H'(1) log_invD [OF assms(1)] by (simp add: log_holds_def)
  with H' st show ?thesis
    by (intro exI [of _ H']) (auto simp: assms(5) task_act_def Let_def split: TaskOutcome.splits if_splits)
qed

lemma task_act_frame:
  "sy_client (task_act env ev st s) = sy_client s" "sy_phase (task_act env ev st s) = sy_phase s"
  "sy_conns (task_act env ev st s) = sy_conns s" "sy_next (task_act env ev st s) = sy_next s"
  "sy_registry (task_act env ev st s) = sy_registry s" "gh_reads (task_act env ev st s) = gh_reads s"
  "gh_lost (task_act env ev st s) = gh_lost s"
  "gh_out (task_act env ev st s) = gh_out s @ read_stdout ev" "gh_err (task_act env ev st s) = gh_err s @ read_stderr ev"
  by (simp_all add: task_act_def Let_def split_beta)

lemma log_inv_task:
  assumes "log_inv s" "sy_task s = Some st" "task_enabled ev st" "length (gh_hist s) + 2 < 2 ^ 64"
  shows "log_inv (task_act env ev st s)"
proof -
  let ?s = "task_act env ev st s"
  obtain H' where H': "gh_hist ?s = gh_hist s @ H'" "log_holds (sy_log ?s) (gh_hist s @ H') (trimmed s)"
    "stdout_bytes H' = read_stdout ev" "stderr_bytes H' = read_stderr ev" "list_all is_output H'"
    "\<forall>st'. sy_task ?s = Some st' \<longrightarrow> task_ok (gh_hist s @ H') (trimmed s) st' (ses_shared (sy_session ?s))"
    "list_ex is_exit H' \<longrightarrow> sy_task ?s = None \<and> (\<exists>e c. H' = [Exit e c])"
    using task_act_hist [OF assms refl] by blast
  have t: "trimmed ?s = trimmed s" using H'(2) log_holds_unique by metis
  have "\<not> list_ex is_exit (gh_hist s)" using assms(1,2) by (auto simp: log_inv_def)
  then have "list_ex is_exit (gh_hist ?s) \<longrightarrow> sy_task ?s = None \<and> exit_last (gh_hist ?s)"
    using H'(1,7) by (auto simp: exit_last_def)
  with H' t assms(1) show ?thesis by (simp add: log_inv_def task_act_frame)
qed

text \<open>The restart keeps the log and the count of applied input.\<close>

lemma restart_act_cases:
  assumes "log_inv s" "restore_env_ok re" "s' = restart_act tok re intime s"
  shows "ses_shared (sy_session s') = ses_shared (sy_session s)"
    and "case sy_task s' of
      None \<Rightarrow> ses_inbound (sy_session s') = ses_inbound (sy_session s) \<and> \<not> ses_task_alive (sy_session s')
    | Some st' \<Rightarrow> \<exists>st. sy_task s = Some st \<and> task_ok (gh_hist s) (trimmed s) st' (ses_shared (sy_session s))
        \<and> io_stdin st' = io_stdin st \<and> ses_inbound (sy_session s') = [] \<and> ses_task_alive (sy_session s')"
proof -
  have "ses_shared (sy_session s') = ses_shared (sy_session s) \<and>
   (case sy_task s' of
      None \<Rightarrow> ses_inbound (sy_session s') = ses_inbound (sy_session s) \<and> \<not> ses_task_alive (sy_session s')
    | Some st' \<Rightarrow> \<exists>st. sy_task s = Some st \<and> task_ok (gh_hist s) (trimmed s) st' (ses_shared (sy_session s))
        \<and> io_stdin st' = io_stdin st \<and> ses_inbound (sy_session s') = [] \<and> ses_task_alive (sy_session s'))"
  proof (cases "if registry_get tok (sy_registry s) = None \<or> \<not> intime then None else sy_task s")
    case None
    then show ?thesis using assms(3) by (simp add: restart_act_def Let_def)
  next
    case run: (Some st)
    then have Some: "sy_task s = Some st" by (simp split: if_splits)
    let ?sh = "ses_shared (sy_session s)" and ?ho = "make_handover (\<lambda>_. True) st (ses_shared (sy_session s))"
    define rec where "rec = (ho_state ?ho)\<lparr>rec_forward_agent := ses_agent (sy_session s)\<rparr>"
    have ok: "task_ok (gh_hist s) (trimmed s) st ?sh" using assms(1) Some by (simp add: log_inv_def)
    have fds: "ho_fds ?ho = handover_fds (\<lambda>_. True) st" by (simp add: make_handover_def log_snapshot_def)
    have roles: "fds_by_token (map (\<lambda>(role, fd). (fd_name tok role, fd)) (ho_fds ?ho)) tok
        = map_of (rev (handover_fds (\<lambda>_. True) st))"
      using fds_by_token_all [of "[(tok, 0)]" "(tok, 0)" "\<lambda>_. Some ?ho"] handover_roles [of "\<lambda>_. True" st]
      by (simp add: fds_of_def fds)
    have "rec_exit_code rec = io_exit_code st" "rec_pgid rec = io_pgid st"
      by (simp_all add: rec_def make_handover_def log_snapshot_def)
    from restore_io_handover [OF assms(2) roles this] obtain io where
      io: "restore_io re (fds_by_token (map (\<lambda>(role, fd). (fd_name tok role, fd)) (ho_fds ?ho)) tok) rec = Inr io"
      "io_stdin io = io_stdin st" by blast
    have shared: "ses_shared (restore_session n rec) = ?sh" for n
      using restore_session_shared [OF ok, of n "\<lambda>_. True"] by (simp add: rec_def)
    have s': "sy_task s' = Some (restore_task io rec)" "sy_session s' = restore_session (re_now re) rec"
      using assms(3) io(1) run by (simp_all add: restart_act_def Let_def rec_def [symmetric])
    have "task_ok (gh_hist s) (trimmed s) (restore_task io rec) ?sh"
      using task_ok_start [of ?sh "gh_hist s" "trimmed s" io] ok by (simp add: restore_task_def shared task_ok_def)
    moreover have "io_stdin (restore_task io rec) = io_stdin st"
      using io(2) by (simp add: restore_task_def session_task_start_def)
    ultimately show ?thesis using Some s' shared by (simp add: restore_session_def)
  qed
  then show "ses_shared (sy_session s') = ses_shared (sy_session s)"
    and "case sy_task s' of
      None \<Rightarrow> ses_inbound (sy_session s') = ses_inbound (sy_session s) \<and> \<not> ses_task_alive (sy_session s')
    | Some st' \<Rightarrow> \<exists>st. sy_task s = Some st \<and> task_ok (gh_hist s) (trimmed s) st' (ses_shared (sy_session s))
        \<and> io_stdin st' = io_stdin st \<and> ses_inbound (sy_session s') = [] \<and> ses_task_alive (sy_session s')"
    by blast+
qed

lemma restart_act_frame:
  "sy_client (restart_act tok re intime s) = sy_client s" "sy_phase (restart_act tok re intime s) = sy_phase s"
  "sy_conns (restart_act tok re intime s) = detach_all (sy_conns s)" "sy_next (restart_act tok re intime s) = sy_next s"
  "gh_hist (restart_act tok re intime s) = gh_hist s" "gh_out (restart_act tok re intime s) = gh_out s"
  "gh_err (restart_act tok re intime s) = gh_err s" "gh_in (restart_act tok re intime s) = gh_in s"
  "gh_reads (restart_act tok re intime s) = gh_reads s" "gh_lost (restart_act tok re intime s) = gh_lost s"
  "gh_epipe (restart_act tok re intime s) = gh_epipe s"
  by (simp_all add: restart_act_def Let_def split: option.splits sum.splits)

lemma log_inv_restart:
  assumes "log_inv s" "restore_env_ok re"
  shows "log_inv (restart_act tok re intime s)"
proof -
  note c = restart_act_cases [OF assms refl, of tok intime]
  show ?thesis
  proof (cases "sy_task (restart_act tok re intime s)")
    case None
    with c assms(1) show ?thesis by (simp add: log_inv_def restart_act_frame)
  next
    case (Some st)
    with assms(1) c(2) have "\<not> list_ex is_exit (gh_hist s)" by (auto simp: log_inv_def)
    with Some c assms(1) show ?thesis by (auto simp: log_inv_def restart_act_frame)
  qed
qed

text \<open>An acknowledgement drops only acknowledged entries.\<close>

lemma log_inv_trim:
  assumes "log_inv s" "sy_log s' = log_trim (sy_log s) a" "gh_hist s' = gh_hist s" "gh_out s' = gh_out s"
    and "gh_err s' = gh_err s" "sy_task s' = sy_task s" "sy_applied s' = sy_applied s"
  shows "log_inv s' \<and> trimmed s' \<le> max (trimmed s) (unat a)"
proof -
  note h = log_holds_trim_gen [OF log_invD(1) [OF assms(1)], of a]
  have t: "trimmed s' = max (trimmed s) (min (unat a) (length (gh_hist s)))"
    using log_holds_unique [OF h] assms(2) by simp
  then have "log_holds (sy_log s') (gh_hist s') (trimmed s')" using h assms(2,3) by simp
  with assms t show ?thesis by (auto simp: log_inv_def task_ok_def)
qed

lemma attach_select_log:
  assumes "attach_select dec tok ev a r ses = (out, r', ses')"
  shows "sh_log (ses_shared ses') = sh_log (ses_shared ses)
    \<or> (\<exists>now bs x. ev = ChannelEvent now (Frame bs) \<and> dec bs = Inr (Ack x)
          \<and> sh_log (ses_shared ses') = log_trim (sh_log (ses_shared ses)) x)"
  using assms
  by (cases "(dec, tok, ev, a, r, ses)" rule: attach_select.cases)
     (auto simp: Let_def attach_message_cases abandon_def
        split: if_splits option.splits Event.splits sum.splits ChannelMessage.splits)

lemma attach_select_state:
  assumes "attach_select dec tok ev a r ses = (Loop a', r', ses')"
  shows "sent_up_to a' = sent_up_to a"
  using assms
  by (cases "(dec, tok, ev, a, r, ses)" rule: attach_select.cases)
     (auto simp: Let_def attach_message_cases abandon_def
        split: if_splits option.splits Event.splits sum.splits ChannelMessage.splits)

lemma attach_select_resumable:
  assumes "attach_select dec tok ev a r ses = (out, r', ses')"
  shows "ses_resumable ses' = ses_resumable ses"
  using assms
  by (cases "(dec, tok, ev, a, r, ses)" rule: attach_select.cases)
     (auto simp: Let_def attach_message_cases abandon_def
        split: if_splits option.splits Event.splits sum.splits ChannelMessage.splits)

section \<open>One connection, seen from the client\<close>

abbreviation data_of :: "ChannelMessage list \<Rightarrow> ChannelMessage list" where
  "data_of ms \<equiv> filter (\<lambda>m. seq_of m \<noteq> None) ms"

text \<open>
  The connection the client uses, when it has applied everything up to \<open>l\<close>.  Before the
  request is served the connection is empty and the request names \<open>l\<close>.  Afterwards the
  stream carries the messages from \<open>k\<close> (at or before the client's position) to \<open>m\<close> (the
  server's), and datagrams repeat some of them.
\<close>

definition stream_ok :: "ChannelMessage list \<Rightarrow> u64 \<Rightarrow> Conn \<Rightarrow> nat \<Rightarrow> nat \<Rightarrow> bool" where
  "stream_ok H l C k m \<longleftrightarrow>
     k \<le> unat l \<and> unat l \<le> m \<and> m \<le> length H \<and> data_of (cn_down C) = drop k (take m H)
     \<and> (\<forall>a. cn_att C = Some a \<longrightarrow> unat (sent_up_to a) = m)
     \<and> (\<forall>d \<in> set (cn_down_dg C). worth_duplicating d \<and> (\<exists>i < m. d = H ! i))"

definition answered :: "Conn \<Rightarrow> bool" where
  "answered C \<longleftrightarrow> (\<exists>x rest. cn_down C = x # rest \<and> ((\<exists>tk. x = Started (Some tk)) \<or> (\<exists>why. x = Denied why)))"

definition conn_ok :: "bool \<Rightarrow> ChannelMessage list \<Rightarrow> u64 \<Rightarrow> Conn \<Rightarrow> bool" where
  "conn_ok waiting H l C \<longleftrightarrow>
     (case cn_req C of
        Some req \<Rightarrow> (\<exists>tk. req = Resume tk l) \<and> waiting \<and> cn_att C = None \<and> cn_down C = [] \<and> cn_down_dg C = []
      | None \<Rightarrow> (\<exists>k m. stream_ok H l C k m) \<and> (waiting \<longrightarrow> answered C))"

lemma conn_okI:
  "cn_req C = None \<Longrightarrow> stream_ok H l C k m \<Longrightarrow> (w \<Longrightarrow> answered C) \<Longrightarrow> conn_ok w H l C"
  by (auto simp: conn_ok_def)

lemma conn_okE:
  assumes "conn_ok w H l C" "cn_att C \<noteq> None \<or> \<not> w \<or> cn_down C \<noteq> []"
  obtains k m where "cn_req C = None" "stream_ok H l C k m" "w \<longrightarrow> answered C"
  using assms by (auto simp: conn_ok_def split: option.splits)

lemma stream_ok_grow: "stream_ok H l C k m \<Longrightarrow> stream_ok (H @ H') l C k m"
  by (fastforce simp: stream_ok_def nth_append)

lemma conn_ok_grow: "conn_ok w H l C \<Longrightarrow> conn_ok w (H @ H') l C"
  by (auto simp: conn_ok_def split: option.splits intro: stream_ok_grow)

lemma numbered_data: "numbered H \<Longrightarrow> data_of (drop k (take m H)) = drop k (take m H)"
  by (auto simp: filter_id_conv numbered_def in_set_conv_nth dest!: in_set_dropD in_set_takeD)

text \<open>What the server does to it.\<close>

lemma stream_ok_cong:
  "stream_ok H l C k m \<Longrightarrow> cn_down C' = cn_down C \<Longrightarrow> cn_down_dg C' = cn_down_dg C \<Longrightarrow>
   (\<And>a'. cn_att C' = Some a' \<Longrightarrow> \<exists>a. cn_att C = Some a \<and> sent_up_to a' = sent_up_to a) \<Longrightarrow>
   stream_ok H l C' k m"
  by (fastforce simp: stream_ok_def)

lemma conn_ok_cong:
  assumes "conn_ok w H l C" "cn_down C' = cn_down C" "cn_down_dg C' = cn_down_dg C" "cn_req C' = cn_req C"
    and "\<And>a'. cn_att C' = Some a' \<Longrightarrow> \<exists>a. cn_att C = Some a \<and> sent_up_to a' = sent_up_to a"
  shows "conn_ok w H l C'"
proof (cases "cn_req C")
  case None
  with assms(1) obtain k m where "stream_ok H l C k m" "w \<longrightarrow> answered C" by (auto simp: conn_ok_def)
  then show ?thesis
    using None assms(2-4) stream_ok_cong [OF _ assms(2,3,5)] by (intro conn_okI) (auto simp: answered_def)
next
  case (Some r)
  have "cn_att C' = None" using Some assms(1,5) by (cases "cn_att C'") (auto simp: conn_ok_def)
  with Some assms(1-4) show ?thesis by (simp add: conn_ok_def)
qed

lemma answered_append: "answered C \<Longrightarrow> cn_down C' = cn_down C @ ms \<Longrightarrow> answered C'"
  by (auto simp: answered_def)

lemma conn_ok_append_ack:
  assumes "conn_ok w H l C" "cn_att C = Some a" "list_all (\<lambda>m. seq_of m = None) ms"
    and "\<And>a'. att = Some a' \<Longrightarrow> sent_up_to a' = sent_up_to a"
  shows "conn_ok w H l (C\<lparr>cn_down := cn_down C @ ms, cn_att := att\<rparr>)"
proof -
  have "cn_att C \<noteq> None \<or> \<not> w \<or> cn_down C \<noteq> []" by (simp add: assms(2))
  with assms(1) obtain k m where c: "cn_req C = None" "stream_ok H l C k m" "w \<longrightarrow> answered C"
    by (rule conn_okE)
  let ?C = "C\<lparr>cn_down := cn_down C @ ms, cn_att := att\<rparr>"
  have "data_of ms = []" using assms(3) by (auto simp: filter_empty_conv list_all_iff)
  moreover have "unat (sent_up_to a') = m" if "att = Some a'" for a'
    using c(2) assms(2) assms(4) [OF that] by (simp add: stream_ok_def)
  ultimately have "stream_ok H l ?C k m" using c(2) by (simp add: stream_ok_def)
  moreover have "answered ?C" if w using c(3) that answered_append [of C ?C ms] by simp
  ultimately show ?thesis using c(1) by (intro conn_okI [of ?C]) simp_all
qed

lemma conn_ok_append:
  assumes "conn_ok w H l C" "cn_att C = Some a" "numbered H"
    and "n \<le> length H - unat (sent_up_to a)" "sent = take n (drop (unat (sent_up_to a)) H)"
    and "\<And>a'. att = Some a' \<Longrightarrow> unat (sent_up_to a') = unat (sent_up_to a) + n"
  shows "conn_ok w H l (C\<lparr>cn_down := cn_down C @ sent,
      cn_down_dg := cn_down_dg C @ filter worth_duplicating sent, cn_att := att\<rparr>)"
proof -
  let ?C = "C\<lparr>cn_down := cn_down C @ sent, cn_down_dg := cn_down_dg C @ filter worth_duplicating sent, cn_att := att\<rparr>"
  have "cn_att C \<noteq> None \<or> \<not> w \<or> cn_down C \<noteq> []" by (simp add: assms(2))
  with assms(1) obtain k m where c: "cn_req C = None" "stream_ok H l C k m" "w \<longrightarrow> answered C"
    by (rule conn_okE)
  with assms(2) have m: "unat (sent_up_to a) = m" "k \<le> m" "m \<le> length H" by (auto simp: stream_ok_def)
  have sent: "sent = drop m (take (m + n) H)" using assms(5) m by (simp add: take_drop add.commute)
  have "take (m + n) H = take m H @ sent" using assms(5) m(1) take_add [of m n H] by simp
  then have cat: "drop k (take (m + n) H) = drop k (take m H) @ sent" using m by simp
  have mem: "\<exists>i < m + n. d = H ! i" if d: "d \<in> set sent" for d
  proof -
    obtain j where "j < length (take (m + n) H)" "d = take (m + n) H ! j"
      using d unfolding sent by (metis in_set_conv_nth in_set_dropD)
    then show ?thesis by (intro exI [of _ j]) auto
  qed
  have data: "data_of sent = sent" unfolding sent by (rule numbered_data [OF assms(3)])
  have dg: "worth_duplicating d \<and> (\<exists>i < m + n. d = H ! i)" if "d \<in> set (cn_down_dg ?C)" for d
  proof (cases "d \<in> set (cn_down_dg C)")
    case True
    with c(2) obtain i where "worth_duplicating d" "i < m" "d = H ! i" by (auto simp: stream_ok_def)
    then show ?thesis by (auto intro: exI [of _ i])
  next
    case False
    with that mem show ?thesis by auto
  qed
  have "stream_ok H l ?C k (m + n)"
    unfolding stream_ok_def
  proof (intro conjI ballI allI impI)
    show "data_of (cn_down ?C) = drop k (take (m + n) H)"
      using c(2) data by (simp add: cat stream_ok_def)
    fix d assume "d \<in> set (cn_down_dg ?C)"
    then show "worth_duplicating d" "\<exists>i < m + n. d = H ! i" using dg by blast+
  qed (use c(2) m assms(4,6) in \<open>simp_all add: stream_ok_def\<close>)
  moreover have "answered ?C" if w using c(3) that answered_append [of C ?C sent] by simp
  ultimately show ?thesis using c(1) by (intro conn_okI [of ?C]) simp_all
qed

text \<open>What the client does to it: reading the answer, a frame, or a datagram.\<close>

lemma conn_ok_skip:
  assumes "conn_ok w H l C" "cn_down C = x # rest" "seq_of x = None"
  shows "conn_ok False H l (C\<lparr>cn_down := rest\<rparr>)"
proof -
  from assms(1,2) obtain k m where c: "cn_req C = None" "stream_ok H l C k m" by (auto elim: conn_okE)
  then have "stream_ok H l (C\<lparr>cn_down := rest\<rparr>) k m" using assms(2,3) by (simp add: stream_ok_def)
  with c show ?thesis by (intro conn_okI) auto
qed

text \<open>The next data message on the stream is entry \<open>k\<close> of the history; reading it moves \<open>k\<close>.\<close>

lemma conn_ok_data:
  assumes "conn_ok False H l C" "cn_down C = x # rest" "seq_of x \<noteq> None"
  obtains k where "k < length H" "k \<le> unat l" "x = H ! k"
    "\<And>l'. unat l \<le> unat l' \<Longrightarrow> k + 1 \<le> unat l' \<Longrightarrow> unat l' \<le> max (unat l) (k + 1) \<Longrightarrow>
       conn_ok False H l' (C\<lparr>cn_down := rest\<rparr>)"
proof -
  from assms(1) obtain k m where c: "cn_req C = None" "stream_ok H l C k m" by (auto elim: conn_okE)
  with assms(2,3) have d: "x # data_of rest = drop k (take m H)" by (simp add: stream_ok_def)
  then have k: "k < m" "m \<le> length H" using c(2) by (auto simp: stream_ok_def dest: arg_cong [where f = length])
  then have "drop k (take m H) = H ! k # drop (Suc k) (take m H)" by (simp add: Cons_nth_drop_Suc [symmetric])
  with d have x: "x = H ! k" "data_of rest = drop (Suc k) (take m H)" by simp_all
  show thesis
  proof (rule that [of k])
    fix l' :: u64
    assume "unat l \<le> unat l'" "k + 1 \<le> unat l'" "unat l' \<le> max (unat l) (k + 1)"
    then have "stream_ok H l' (C\<lparr>cn_down := rest\<rparr>) (Suc k) m"
      using c(2) x k by (auto simp: stream_ok_def max_def split: if_splits)
    with c show "conn_ok False H l' (C\<lparr>cn_down := rest\<rparr>)" by (intro conn_okI) auto
  qed (use c x k in \<open>auto simp: stream_ok_def\<close>)
qed

lemma conn_ok_datagram:
  assumes "conn_ok False H l C" "d \<in> set (cn_down_dg C)"
  obtains i where "i < length H" "d = H ! i" "worth_duplicating d"
    "\<And>l'. unat l \<le> unat l' \<Longrightarrow> unat l' \<le> max (unat l) (i + 1) \<Longrightarrow> conn_ok False H l' C"
proof -
  from assms(1) obtain k m where c: "cn_req C = None" "stream_ok H l C k m" by (auto elim: conn_okE)
  with assms(2) obtain i where i: "i < m" "d = H ! i" "worth_duplicating d" by (auto simp: stream_ok_def)
  show thesis
  proof (rule that [of i])
    fix l' :: u64
    assume "unat l \<le> unat l'" "unat l' \<le> max (unat l) (i + 1)"
    then have "stream_ok H l' C k m" using c(2) i(1) by (auto simp: stream_ok_def max_def split: if_splits)
    with c show "conn_ok False H l' C" by (intro conn_okI) auto
  qed (use c i in \<open>auto simp: stream_ok_def\<close>)
qed

section \<open>The client's position\<close>

abbreviation seen :: "System \<Rightarrow> u64" where
  "seen s \<equiv> last_server_seq (sy_client s)"

fun client_ok :: "Phase \<Rightarrow> ChannelMessage list \<Rightarrow> ClientState \<Rightarrow> bool" where
  "client_ok (Finished (Inr code)) H cl \<longleftrightarrow>
     cl_stdout cl = stdout_bytes H \<and> cl_stderr cl = stderr_bytes H \<and> (\<exists>H0 e. H = H0 @ [Exit e code])"
| "client_ok (Finished (Inl _)) H cl \<longleftrightarrow>
     prefix (cl_stdout cl) (stdout_bytes H) \<and> prefix (cl_stderr cl) (stderr_bytes H)"
| "client_ok _ H cl \<longleftrightarrow>
     unat (last_server_seq cl) \<le> length H
     \<and> cl_stdout cl = stdout_bytes (take (unat (last_server_seq cl)) H)
     \<and> cl_stderr cl = stderr_bytes (take (unat (last_server_seq cl)) H)
     \<and> \<not> list_ex is_exit (take (unat (last_server_seq cl)) H)"

fun is_finished :: "Phase \<Rightarrow> bool" where
  "is_finished (Finished _) = True"
| "is_finished _ = False"

text \<open>What may have been acknowledged: what the client has, or everything once it is done.\<close>

definition ack_bound :: "Phase \<Rightarrow> ChannelMessage list \<Rightarrow> ClientState \<Rightarrow> nat" where
  "ack_bound ph H cl = (if is_finished ph then length H else unat (last_server_seq cl))"

definition ack_ok :: "System \<Rightarrow> bool" where
  "ack_ok s \<longleftrightarrow>
     trimmed s \<le> ack_bound (sy_phase s) (gh_hist s) (sy_client s)
     \<and> (\<forall>c a. Ack a \<in> set (cn_up (sy_conns s c)) \<longrightarrow> unat a \<le> ack_bound (sy_phase s) (gh_hist s) (sy_client s))"

definition cur_ok :: "System \<Rightarrow> bool" where
  "cur_ok s \<longleftrightarrow>
     (\<forall>c. sy_phase s = Waiting c \<or> sy_phase s = On c \<longrightarrow>
        conn_ok (sy_phase s = Waiting c) (gh_hist s) (seen s) (sy_conns s c))"

definition token_ok :: "System \<Rightarrow> bool" where
  "token_ok s \<longleftrightarrow>
     (sy_phase s = Away \<or> (\<exists>c. sy_phase s = On c) \<longrightarrow> resume_token (sy_client s) \<noteq> None)
     \<and> ses_resumable (sy_session s)"

definition down_inv :: "System \<Rightarrow> bool" where
  "down_inv s \<longleftrightarrow>
     client_ok (sy_phase s) (gh_hist s) (sy_client s) \<and> ack_ok s \<and> cur_ok s \<and> token_ok s"

lemma client_ok_grow:
  "client_ok ph H cl \<Longrightarrow> (\<And>code. ph = Finished (Inr code) \<Longrightarrow> H' = []) \<Longrightarrow> client_ok ph (H @ H') cl"
  by (cases "(ph, H, cl)" rule: client_ok.cases) (auto simp: prefix_def)

lemma prefix_cut: "prefix (concat (map f (take n H))) (concat (map f H))"
  by (metis append_take_drop_id concat_append map_append prefixI)

lemma client_ok_prefix:
  assumes "client_ok ph H cl"
  shows "prefix (cl_stdout cl) (stdout_bytes H) \<and> prefix (cl_stderr cl) (stderr_bytes H)"
  using assms by (cases "(ph, H, cl)" rule: client_ok.cases) (auto simp: prefix_cut)

lemma client_ok_le: "client_ok ph H cl \<Longrightarrow> ack_bound ph H cl \<le> length H"
  by (cases "(ph, H, cl)" rule: client_ok.cases) (auto simp: ack_bound_def)

lemma client_ok_running:
  "\<not> is_finished ph \<Longrightarrow> \<not> is_finished ph' \<Longrightarrow> client_ok ph H cl \<Longrightarrow>
   last_server_seq cl' = last_server_seq cl \<Longrightarrow> cl_stdout cl' = cl_stdout cl \<Longrightarrow> cl_stderr cl' = cl_stderr cl \<Longrightarrow>
   client_ok ph' H cl'"
  by (cases "(ph, H, cl)" rule: client_ok.cases; cases "(ph', H, cl')" rule: client_ok.cases) simp_all

lemma client_ok_fail:
  "client_ok ph H cl \<Longrightarrow> cl_stdout cl' = cl_stdout cl \<Longrightarrow> cl_stderr cl' = cl_stderr cl \<Longrightarrow>
   client_ok (Finished (Inl e)) H cl'"
  using client_ok_prefix by auto

lemma down_inv_init: "down_inv (sys_init tok io agent now)"
proof -
  let ?s = "sys_init tok io agent now"
  have "stream_ok [] 0 (sy_conns ?s 0) 0 0" and "answered (sy_conns ?s 0)" and "cn_req (sy_conns ?s 0) = None"
    by (simp_all add: sys_init_def Let_def no_conn_def stream_ok_def attach_init_def started_message_def answered_def
        fresh_session_def)
  then have "conn_ok True [] 0 (sy_conns ?s 0)" by (intro conn_okI)
  moreover have "Ack a \<notin> set (cn_up (sy_conns ?s c))" for a c
    by (simp add: sys_init_def Let_def no_conn_def)
  ultimately show ?thesis
    by (simp add: down_inv_def ack_ok_def cur_ok_def token_ok_def ack_bound_def)
       (simp add: sys_init_def Let_def client_init_def fresh_session_def)
qed

section \<open>The server's steps\<close>

lemma down_inv_task:
  assumes "log_inv s" "down_inv s" "sy_task s = Some st" "task_enabled ev st" "length (gh_hist s) + 2 < 2 ^ 64"
  shows "down_inv (task_act env ev st s)"
proof -
  let ?s = "task_act env ev st s"
  obtain H' where H': "gh_hist ?s = gh_hist s @ H'" "log_holds (sy_log ?s) (gh_hist s @ H') (trimmed s)"
    using task_act_hist [OF assms(1,3-5) refl] by blast
  have t: "trimmed ?s = trimmed s" using H'(2) log_holds_unique by metis
  have "\<not> list_ex is_exit (gh_hist s)" using assms(1,3) by (auto simp: log_inv_def)
  then have "client_ok (sy_phase s) (gh_hist s @ H') (sy_client s)"
    using assms(2) by (intro client_ok_grow) (auto simp: down_inv_def)
  moreover have "ses_resumable (sy_session ?s) = ses_resumable (sy_session s)"
    by (simp add: task_act_def Let_def split_beta)
  moreover have "ack_bound (sy_phase s) (gh_hist s) (sy_client s) \<le> ack_bound (sy_phase s) (gh_hist s @ H') (sy_client s)"
    by (simp add: ack_bound_def)
  ultimately show ?thesis
    using assms(2) H'(1) t
    by (auto simp: down_inv_def ack_ok_def cur_ok_def token_ok_def task_act_frame intro: conn_ok_grow order_trans)
qed

text \<open>A step that leaves the client alone and changes connections only in ways that keep the
  current one in order.\<close>

lemma down_inv_server:
  assumes "down_inv s" "sy_phase s' = sy_phase s" "gh_hist s' = gh_hist s" "sy_client s' = sy_client s"
    and "trimmed s' \<le> ack_bound (sy_phase s) (gh_hist s) (sy_client s)"
    and "\<And>c. set (cn_up (sy_conns s' c)) \<subseteq> set (cn_up (sy_conns s c))"
    and "\<And>c w. conn_ok w (gh_hist s) (seen s) (sy_conns s c) \<Longrightarrow> \<not> is_finished (sy_phase s) \<Longrightarrow>
          conn_ok w (gh_hist s) (seen s) (sy_conns s' c)"
    and "ses_resumable (sy_session s') = ses_resumable (sy_session s)"
  shows "down_inv s'"
proof -
  have "ack_ok s'" using assms(1-6) by (fastforce simp: down_inv_def ack_ok_def)
  moreover have "cur_ok s'" using assms(1-4,7) by (auto simp: down_inv_def cur_ok_def)
  ultimately show ?thesis using assms(1-4,8) by (simp add: down_inv_def token_ok_def)
qed

lemma down_inv_bounds:
  assumes "down_inv s"
  shows "trimmed s \<le> ack_bound (sy_phase s) (gh_hist s) (sy_client s)"
    "\<not> is_finished (sy_phase s) \<Longrightarrow> trimmed s \<le> unat (seen s)"
  using assms by (auto simp: down_inv_def ack_ok_def ack_bound_def)

lemma down_inv_restart:
  assumes "log_inv s" "down_inv s" "restore_env_ok re"
  shows "down_inv (restart_act tok re intime s)"
proof (rule down_inv_server [OF assms(2)])
  show "trimmed (restart_act tok re intime s) \<le> ack_bound (sy_phase s) (gh_hist s) (sy_client s)"
    using restart_act_cases(1) [OF assms(1,3) refl, of tok intime] down_inv_bounds(1) [OF assms(2)] by simp
  show "ses_resumable (sy_session (restart_act tok re intime s)) = ses_resumable (sy_session s)"
    using assms(2)
    by (auto simp: restart_act_def Let_def restore_session_def down_inv_def token_ok_def
        split: option.splits sum.splits)
  show "conn_ok w (gh_hist s) (seen s) (sy_conns (restart_act tok re intime s) c)"
    if "conn_ok w (gh_hist s) (seen s) (sy_conns s c)" for w c
    by (rule conn_ok_cong [OF that]) (simp_all add: restart_act_frame detach_all_def)
qed (simp_all add: restart_act_frame detach_all_def)

lemma flush_act_frame:
  "sy_phase (flush_act fails now c a s) = sy_phase s" "gh_hist (flush_act fails now c a s) = gh_hist s"
  "sy_client (flush_act fails now c a s) = sy_client s" "sy_task (flush_act fails now c a s) = sy_task s"
  "ses_shared (sy_session (flush_act fails now c a s)) = ses_shared (sy_session s)"
  "ses_inbound (sy_session (flush_act fails now c a s)) = ses_inbound (sy_session s)"
  "ses_task_alive (sy_session (flush_act fails now c a s)) = ses_task_alive (sy_session s)"
  "ses_resumable (sy_session (flush_act fails now c a s)) = ses_resumable (sy_session s)"
  "gh_out (flush_act fails now c a s) = gh_out s" "gh_err (flush_act fails now c a s) = gh_err s"
  "gh_in (flush_act fails now c a s) = gh_in s" "gh_reads (flush_act fails now c a s) = gh_reads s"
  "gh_lost (flush_act fails now c a s) = gh_lost s" "gh_epipe (flush_act fails now c a s) = gh_epipe s"
  "cn_up (sy_conns (flush_act fails now c a s) c') = cn_up (sy_conns s c')"
  "cn_up_dg (sy_conns (flush_act fails now c a s) c') = cn_up_dg (sy_conns s c')"
  "cn_req (sy_conns (flush_act fails now c a s) c') = cn_req (sy_conns s c')"
  by (simp_all add: flush_act_def split_beta)

lemma down_inv_flush:
  assumes "log_inv s" "down_inv s" "cn_att (sy_conns s c) = Some a"
  shows "down_inv (flush_act fails now c a s)"
proof (rule down_inv_server [OF assms(2)])
  fix c' w
  assume ok: "conn_ok w (gh_hist s) (seen s) (sy_conns s c')" and run: "\<not> is_finished (sy_phase s)"
  show "conn_ok w (gh_hist s) (seen s) (sy_conns (flush_act fails now c a s) c')"
  proof (cases "c' = c")
    case False
    with ok show ?thesis by (simp add: flush_act_def split_beta)
  next
    case True
    let ?u = "unat (sent_up_to a)" and ?H = "gh_hist s"
    let ?ms = "drop ?u ?H"
    have "cn_att (sy_conns s c) \<noteq> None \<or> \<not> w \<or> cn_down (sy_conns s c) \<noteq> []" using assms(3) by simp
    with ok [unfolded True] obtain k m where "stream_ok ?H (seen s) (sy_conns s c) k m" by (rule conn_okE)
    then have u: "unat (seen s) \<le> ?u" "?u \<le> length ?H" using assms(3) by (auto simp: stream_ok_def)
    have t: "trimmed s \<le> ?u" using down_inv_bounds(2) [OF assms(2) run] u(1) by simp
    note eq = attach_flush_eq [OF log_invD(1) [OF assms(1)] t refl, of fails]
    have bound: "length ?H < 2 ^ 64" using log_invD(2) [OF assms(1)] by (simp add: numbered_def)
    have full: "unat (sent_up_to (flushed ?ms a)) = ?u + length ?ms"
      using flushed_up_to [OF refl u(2)] u(2) unat_u64_of_nat [OF bound] by simp
    obtain sent out where fl: "attach_flush fails a (sy_session s) = (sent, out)" by force
    have "\<exists>n \<le> length ?H - ?u. sent = take n ?ms
        \<and> (\<forall>a'. att_of out = Some a' \<longrightarrow> unat (sent_up_to a') = ?u + n)"
    proof (cases "\<exists>n e. fails = Some (n, e) \<and> n < length ?ms")
      case True
      then obtain n e where "fails = Some (n, e)" "n < length ?ms" by blast
      with eq fl show ?thesis by (intro exI [of _ n]) auto
    next
      case False
      with eq fl have "sent = ?ms" "out = Loop (flushed ?ms a)" by (auto split: option.splits if_splits)
      with full show ?thesis by (intro exI [of _ "length ?ms"]) simp
    qed
    then obtain n where n: "n \<le> length ?H - ?u" "sent = take n ?ms"
      "\<And>a'. att_of out = Some a' \<Longrightarrow> unat (sent_up_to a') = ?u + n" by blast
    from conn_ok_append [OF ok [unfolded True] assms(3) log_invD(2) [OF assms(1)] n] fl True
    show ?thesis by (simp add: flush_act_def)
  qed
qed (use down_inv_bounds(1) [OF assms(2)] in \<open>simp_all add: flush_act_frame\<close>)

lemma attach_ack_cases:
  "attach_ack fails a ses = (sent, out) \<Longrightarrow>
   (sent = [] \<or> sent = [Ack (sh_stdin_applied (ses_shared ses))])
   \<and> (\<forall>a'. att_of out = Some a' \<longrightarrow> sent_up_to a' = sent_up_to a)"
  by (auto simp: attach_ack_def Let_def split: if_splits option.splits)

lemma ack_act_frame:
  "sy_phase (ack_act fails now c a s) = sy_phase s" "gh_hist (ack_act fails now c a s) = gh_hist s"
  "sy_client (ack_act fails now c a s) = sy_client s" "sy_task (ack_act fails now c a s) = sy_task s"
  "ses_shared (sy_session (ack_act fails now c a s)) = ses_shared (sy_session s)"
  "ses_inbound (sy_session (ack_act fails now c a s)) = ses_inbound (sy_session s)"
  "ses_task_alive (sy_session (ack_act fails now c a s)) = ses_task_alive (sy_session s)"
  "ses_resumable (sy_session (ack_act fails now c a s)) = ses_resumable (sy_session s)"
  "gh_out (ack_act fails now c a s) = gh_out s" "gh_err (ack_act fails now c a s) = gh_err s"
  "gh_in (ack_act fails now c a s) = gh_in s" "gh_reads (ack_act fails now c a s) = gh_reads s"
  "gh_lost (ack_act fails now c a s) = gh_lost s" "gh_epipe (ack_act fails now c a s) = gh_epipe s"
  "cn_up (sy_conns (ack_act fails now c a s) c') = cn_up (sy_conns s c')"
  "cn_up_dg (sy_conns (ack_act fails now c a s) c') = cn_up_dg (sy_conns s c')"
  "cn_req (sy_conns (ack_act fails now c a s) c') = cn_req (sy_conns s c')"
  by (simp_all add: ack_act_def split_beta)

lemma down_inv_ack:
  assumes "down_inv s" "cn_att (sy_conns s c) = Some a"
  shows "down_inv (ack_act fails now c a s)"
proof (rule down_inv_server [OF assms(1)])
  fix c' w
  assume ok: "conn_ok w (gh_hist s) (seen s) (sy_conns s c')"
  obtain sent out where ak: "attach_ack fails a (sy_session s) = (sent, out)" by force
  have c: "sent = [] \<or> sent = [Ack (sy_applied s)]" "\<And>a'. att_of out = Some a' \<Longrightarrow> sent_up_to a' = sent_up_to a"
    using attach_ack_cases [OF ak] by blast+
  have ms: "list_all (\<lambda>m. seq_of m = None) sent" using c(1) by (elim disjE) simp_all
  show "conn_ok w (gh_hist s) (seen s) (sy_conns (ack_act fails now c a s) c')"
  proof (cases "c' = c")
    case False
    with ok ak show ?thesis by (simp add: ack_act_def)
  next
    case True
    from conn_ok_append_ack [OF ok [unfolded True] assms(2) ms c(2)] ak True
    show ?thesis by (simp add: ack_act_def)
  qed
qed (use down_inv_bounds(1) [OF assms(1)] in \<open>simp_all add: ack_act_frame\<close>)

lemma server_act_frame:
  "sy_phase (server_act tok dec ev now c a s) = sy_phase s" "gh_hist (server_act tok dec ev now c a s) = gh_hist s"
  "sy_client (server_act tok dec ev now c a s) = sy_client s" "sy_task (server_act tok dec ev now c a s) = sy_task s"
  "gh_out (server_act tok dec ev now c a s) = gh_out s" "gh_err (server_act tok dec ev now c a s) = gh_err s"
  "gh_in (server_act tok dec ev now c a s) = gh_in s" "gh_reads (server_act tok dec ev now c a s) = gh_reads s"
  "gh_lost (server_act tok dec ev now c a s) = gh_lost s" "gh_epipe (server_act tok dec ev now c a s) = gh_epipe s"
  "cn_up_dg (sy_conns (server_act tok dec ev now c a s) c') = cn_up_dg (sy_conns s c')"
  "cn_req (sy_conns (server_act tok dec ev now c a s) c') = cn_req (sy_conns s c')"
  "cn_down (sy_conns (server_act tok dec ev now c a s) c') = cn_down (sy_conns s c')"
  "cn_down_dg (sy_conns (server_act tok dec ev now c a s) c') = cn_down_dg (sy_conns s c')"
  "set (cn_up (sy_conns (server_act tok dec ev now c a s) c')) \<subseteq> set (cn_up (sy_conns s c'))"
  by (auto simp: server_act_def split_beta split: AttachEvent.splits Event.splits intro: list.set_sel(2))

lemma server_act_trim:
  assumes "log_inv s" "down_inv s" "server_may dec ev (sy_conns s c)"
  shows "log_inv (server_act tok dec ev now c a s)
    \<and> trimmed (server_act tok dec ev now c a s) \<le> ack_bound (sy_phase s) (gh_hist s) (sy_client s)"
proof -
  let ?s = "server_act tok dec ev now c a s"
  let ?B = "ack_bound (sy_phase s) (gh_hist s) (sy_client s)"
  obtain out r' ses' where sel: "attach_select dec tok ev a (sy_registry s) (sy_session s) = (out, r', ses')"
    by (metis prod_cases3)
  have ses: "ses_shared (sy_session ?s) = ses_shared ses'" using sel by (simp add: server_act_def)
  have app: "sy_applied ?s = sy_applied s" using attach_select_shared(2) [OF sel] ses by simp
  from attach_select_log [OF sel] show ?thesis
  proof (elim disjE exE conjE)
    assume "sh_log (ses_shared ses') = sy_log s"
    then have "sy_log ?s = sy_log s" using ses by simp
    with log_inv_cong [OF assms(1) this] app down_inv_bounds(1) [OF assms(2)] show ?thesis
      by (simp add: server_act_frame)
  next
    fix now' bs x
    assume ev: "ev = ChannelEvent now' (Frame bs)" "dec bs = Inr (Ack x)"
      and "sh_log (ses_shared ses') = log_trim (sy_log s) x"
    then have "sy_log ?s = log_trim (sy_log s) x" using ses by simp
    with log_inv_trim [OF assms(1) this] app have lt: "log_inv ?s" "trimmed ?s \<le> max (trimmed s) (unat x)"
      by (simp_all add: server_act_frame)
    have "Ack x \<in> set (cn_up (sy_conns s c))" using assms(3) ev by (metis Inr_inject hd_in_set server_may.simps(1))
    then have "unat x \<le> ?B" using assms(2) by (auto simp: down_inv_def ack_ok_def)
    with lt down_inv_bounds(1) [OF assms(2)] show ?thesis by simp
  qed
qed

lemma down_inv_server_act:
  assumes "log_inv s" "down_inv s" "cn_att (sy_conns s c) = Some a" "server_may dec ev (sy_conns s c)"
  shows "down_inv (server_act tok dec ev now c a s)"
proof (rule down_inv_server [OF assms(2)])
  obtain out r' ses' where sel: "attach_select dec tok ev a (sy_registry s) (sy_session s) = (out, r', ses')"
    by (metis prod_cases3)
  show "ses_resumable (sy_session (server_act tok dec ev now c a s)) = ses_resumable (sy_session s)"
    using attach_select_resumable [OF sel] sel by (simp add: server_act_def)
  fix c' w
  assume ok: "conn_ok w (gh_hist s) (seen s) (sy_conns s c')"
  have "\<exists>a0. cn_att (sy_conns s c') = Some a0 \<and> sent_up_to a' = sent_up_to a0"
    if "cn_att (sy_conns (server_act tok dec ev now c a s) c') = Some a'" for a'
  proof (cases "c' = c")
    case False
    with that sel show ?thesis by (simp add: server_act_def)
  next
    case True
    with that sel have "att_of out = Some a'" by (simp add: server_act_def)
    then have "out = Loop a'" by (cases out) auto
    with attach_select_state sel assms(3) True show ?thesis by blast
  qed
  then show "conn_ok w (gh_hist s) (seen s) (sy_conns (server_act tok dec ev now c a s) c')"
    by (intro conn_ok_cong [OF ok]) (simp_all add: server_act_frame)
qed (use server_act_trim [OF assms(1,2,4), of tok now a] in
     \<open>simp_all add: server_act_frame(1-14) server_act_frame(15) [simplified]\<close>)

lemma accept_act_frame:
  "sy_phase (accept_act now c req s) = sy_phase s" "gh_hist (accept_act now c req s) = gh_hist s"
  "sy_client (accept_act now c req s) = sy_client s" "sy_task (accept_act now c req s) = sy_task s"
  "ses_shared (sy_session (accept_act now c req s)) = ses_shared (sy_session s)"
  "ses_inbound (sy_session (accept_act now c req s)) = ses_inbound (sy_session s)"
  "ses_task_alive (sy_session (accept_act now c req s)) = ses_task_alive (sy_session s)"
  "ses_resumable (sy_session (accept_act now c req s)) = ses_resumable (sy_session s)"
  "gh_out (accept_act now c req s) = gh_out s" "gh_err (accept_act now c req s) = gh_err s"
  "gh_in (accept_act now c req s) = gh_in s" "gh_reads (accept_act now c req s) = gh_reads s"
  "gh_lost (accept_act now c req s) = gh_lost s" "gh_epipe (accept_act now c req s) = gh_epipe s"
  "cn_up (sy_conns (accept_act now c req s) c') = cn_up (sy_conns s c')"
  "cn_up_dg (sy_conns (accept_act now c req s) c') = cn_up_dg (sy_conns s c')"
  by (auto simp: accept_act_def Let_def split_beta split: Handshake.splits)

text \<open>Serving a resume request starts the stream exactly at the client's position.\<close>

lemma accept_conn_ok:
  assumes "conn_ok w (gh_hist s) (seen s) (sy_conns s c)" "cn_req (sy_conns s c) = Some req"
    and "unat (seen s) \<le> length (gh_hist s)" "ses_resumable (sy_session s)"
  shows "conn_ok w (gh_hist s) (seen s) (sy_conns (accept_act now c req s) c)"
proof -
  from assms(1,2) obtain tk where r: "req = Resume tk (seen s)" "cn_down (sy_conns s c) = []"
    "cn_down_dg (sy_conns s c) = []" "cn_att (sy_conns s c) = None"
    by (auto simp: conn_ok_def)
  let ?C = "sy_conns (accept_act now c req s) c"
  have "stream_ok (gh_hist s) (seen s) ?C (unat (seen s)) (unat (seen s)) \<and> answered ?C \<and> cn_req ?C = None"
    using r assms(3,4)
    by (auto simp: accept_act_def handle_request_def server_view_def stream_ok_def answered_def deny_def
        started_message_def attach_init_def Let_def split: option.splits)
  then show ?thesis by (blast intro: conn_okI)
qed

lemma down_inv_accept:
  assumes "down_inv s" "cn_req (sy_conns s c) = Some req"
  shows "down_inv (accept_act now c req s)"
proof (rule down_inv_server [OF assms(1)])
  fix c' w
  assume ok: "conn_ok w (gh_hist s) (seen s) (sy_conns s c')" and run: "\<not> is_finished (sy_phase s)"
  have "unat (seen s) \<le> length (gh_hist s)" "ses_resumable (sy_session s)"
    using assms(1) run client_ok_le [of "sy_phase s" "gh_hist s" "sy_client s"]
    by (auto simp: down_inv_def token_ok_def ack_bound_def)
  with accept_conn_ok [of w s c' req now] ok assms(2)
  show "conn_ok w (gh_hist s) (seen s) (sy_conns (accept_act now c req s) c')"
    by (cases "c' = c") (auto simp: accept_act_def Let_def split_beta split: Handshake.splits)
qed (use down_inv_bounds(1) [OF assms(1)] in \<open>simp_all add: accept_act_frame\<close>)

lemma down_inv_expire: "down_inv s \<Longrightarrow> down_inv (expire_act tok s)"
proof (rule down_inv_server)
  assume "down_inv s"
  then show "trimmed (expire_act tok s) \<le> ack_bound (sy_phase s) (gh_hist s) (sy_client s)"
    using down_inv_bounds(1) by (simp add: expire_act_frame)
qed (simp_all add: expire_act_frame)

section \<open>The client's steps\<close>

lemma outcome_phase_simps [simp]:
  "outcome_phase c (Attached st) = On c" "outcome_phase c (Exited st code) = Finished (Inr code)"
  "outcome_phase c (Broken st e) = Finished (Inl e)"
  "outcome_phase c (Lost st) = (if resume_token st \<noteq> None then Away else Finished (Inl ConnectionClosed))"
  by (simp_all add: outcome_phase_def)

text \<open>Applying the very next message moves the position by one.\<close>

lemma take_next:
  assumes "numbered H" "i < length H" "unat l = i" "seq_of (H ! i) = Some s"
  shows "take (unat s) H = take (unat l) H @ [H ! i]" "unat s = unat l + 1"
  using assms numbered_unat_seq [OF assms(1,2,4)] by (simp_all add: take_Suc_conv_app_nth)

lemma apply_output:
  assumes "numbered H" "client_ok (On c) H cl" "i < length H" "r \<longrightarrow> i \<le> unat (last_server_seq cl)"
    and "seq_of (H ! i) = Some s" "is_next s (last_server_seq cl) r"
  shows "i = unat (last_server_seq cl)" "unat s = unat (last_server_seq cl) + 1"
    "take (unat s) H = take (unat (last_server_seq cl)) H @ [H ! i]"
  using client_rx.accept_next [OF assms(1,3,5) _ assms(4,6)] assms(2) by auto

lemma not_next:
  assumes "numbered H" "i < length H" "seq_of (H ! i) = Some s" "\<not> is_next s l True"
  shows "i + 1 \<le> unat l"
  using assms numbered_unat_seq [OF assms(1-3)] by (auto simp: is_next_def u64_less)

text \<open>
  What must hold after the client handled entry \<open>i\<close> of the history, which came on the stream
  or as a datagram: its output is in order, it acknowledged only what it has written, and its
  position moved at most to \<open>i + 1\<close>, and at least there if the entry came on the stream.
\<close>

definition handled_ok ::
  "nat \<Rightarrow> ChannelMessage list \<Rightarrow> ClientState \<Rightarrow> nat \<Rightarrow> bool \<Rightarrow> ChannelMessage list \<Rightarrow> AttachedOutcome \<Rightarrow> bool" where
  "handled_ok c H cl i r msgs out \<longleftrightarrow>
     client_ok (outcome_phase c out) H (outcome_client out)
     \<and> (\<forall>a. Ack a \<in> set msgs \<longrightarrow> unat a \<le> ack_bound (outcome_phase c out) H (outcome_client out))
     \<and> unat (last_server_seq cl) \<le> ack_bound (outcome_phase c out) H (outcome_client out)
     \<and> resume_token (outcome_client out) = resume_token cl
     \<and> (outcome_phase c out = On c \<or> is_finished (outcome_phase c out))
     \<and> (outcome_phase c out = On c \<longrightarrow>
         unat (last_server_seq cl) \<le> unat (last_server_seq (outcome_client out))
         \<and> unat (last_server_seq (outcome_client out)) \<le> max (unat (last_server_seq cl)) (i + 1)
         \<and> (r \<longrightarrow> i + 1 \<le> unat (last_server_seq (outcome_client out))))"

lemma write_out_simps [simp]: "write_out wr [] = []" "write_out WriteOk d = d"
  by (cases wr; simp add: write_out_def)+

lemma write_out_prefix: "prefix (xs @ d) ys \<Longrightarrow> prefix (xs @ write_out wr d) ys"
  by (cases wr)
     (auto simp: write_out_def intro: prefix_order.trans [OF same_prefix_prefix [THEN iffD2, OF take_is_prefix]])

text \<open>Applying the next message, with the write succeeding or failing part of the way.\<close>

lemma handled_apply:
  assumes "client_ok (On c) H cl" "i = unat (last_server_seq cl)" "unat s = i + 1"
    and "i < length H" "take (unat s) H = take i H @ [x]" "\<not> is_exit x"
    and "last_server_seq cl' = s" "resume_token cl' = resume_token cl"
    and "cl_stdout cl' = cl_stdout cl @ write_out wr (stdout_of x)"
    and "cl_stderr cl' = cl_stderr cl @ write_out wr (stderr_of x)"
    and "(msgs, out) = (if wr = WriteOk then ([Ack s], Attached cl') else ([], Broken cl' ClientIo))"
  shows "handled_ok c H cl i r msgs out"
proof (cases "wr = WriteOk")
  case True
  then have "msgs = [Ack s]" "out = Attached cl'" using assms(11) by simp_all
  moreover have "client_ok (On c) H cl'" using True assms by simp
  ultimately show ?thesis using assms(2,3,7,8) by (simp add: handled_ok_def ack_bound_def)
next
  case False
  then have out: "msgs = []" "out = Broken cl' ClientIo" using assms(11) by simp_all
  have "prefix (cl_stdout cl @ stdout_of x) (stdout_bytes H)" "prefix (cl_stderr cl @ stderr_of x) (stderr_bytes H)"
    using prefix_cut [of stdout_of "unat s" H] prefix_cut [of stderr_of "unat s" H] assms(1,2,5) by simp_all
  then have "client_ok (Finished (Inl ClientIo)) H cl'" using assms(9,10) by (simp add: write_out_prefix)
  with out assms(1,8) show ?thesis by (simp add: handled_ok_def ack_bound_def)
qed

lemma handled_output:
  assumes "numbered H" "client_ok (On c) H cl" "i < length H" "r \<longrightarrow> i \<le> unat (last_server_seq cl)"
    and "x = H ! i" "seq_of x = Some s" "x = Stdout s d \<or> x = Stderr s d"
    and "client_message wr r x cl = (msgs, out)"
  shows "handled_ok c H cl i r msgs out"
proof (cases "is_next s (last_server_seq cl) r")
  case False
  then have "msgs = []" "out = Attached cl" using assms(7,8) by auto
  moreover have "r \<longrightarrow> i + 1 \<le> unat (last_server_seq cl)"
    using not_next [OF assms(1,3)] assms(5,6) False by (cases r) auto
  ultimately show ?thesis using assms(2) by (simp add: handled_ok_def ack_bound_def)
next
  case True
  note nx = apply_output [OF assms(1-4) _ True, folded assms(5), OF assms(6)]
  from assms(7) show ?thesis
  proof
    assume x: "x = Stdout s d"
    show ?thesis
      by (rule handled_apply [OF assms(2) nx(1) _ assms(3), of s x
            "cl\<lparr>last_server_seq := s, cl_stdout := cl_stdout cl @ write_out wr d\<rparr>" wr])
         (use nx x assms(8) True in \<open>simp_all add: Let_def\<close>)
  next
    assume x: "x = Stderr s d"
    show ?thesis
      by (rule handled_apply [OF assms(2) nx(1) _ assms(3), of s x
            "cl\<lparr>last_server_seq := s, cl_stderr := cl_stderr cl @ write_out wr d\<rparr>" wr])
         (use nx x assms(8) True in \<open>simp_all add: Let_def\<close>)
  qed
qed

text \<open>The exit code is only read when everything before it was applied.\<close>

lemma handled_exit:
  assumes "numbered H" "client_ok (On c) H cl" "i < length H" "i \<le> unat (last_server_seq cl)"
    and "H ! i = Exit s code" "exit_last H" "client_message wr True (H ! i) cl = (msgs, out)"
  shows "handled_ok c H cl i True msgs out"
proof -
  obtain H0 e c' where H: "H = H0 @ [Exit e c']" "\<not> list_ex is_exit H0" using assms(6) by (auto simp: exit_last_def)
  have "i = length H0"
  proof (rule ccontr)
    assume "i \<noteq> length H0"
    then have "H0 ! i = Exit s code" "i < length H0" using assms(3,5) H(1) by (auto simp: nth_append split: if_splits)
    with H(2) show False by (auto simp: list_ex_length)
  qed
  moreover have "unat (last_server_seq cl) \<le> i"
  proof (rule ccontr)
    assume "\<not> ?thesis"
    then have "H ! i \<in> set (take (unat (last_server_seq cl)) H)"
      using assms(3) by (auto simp: in_set_conv_nth intro!: exI [of _ i])
    with assms(2,5) show False by (auto simp: list_ex_iff)
  qed
  ultimately have l: "unat (last_server_seq cl) = length H0" "i = length H0" using assms(4) by auto
  have s: "unat s = i + 1" using numbered_unat_seq [OF assms(1,3)] assms(5) by simp
  have e: "e = s" "c' = code" using assms(5) H(1) l(2) by simp_all
  have "msgs = [Ack s]" "out = Exited cl code" using assms(5,7) by simp_all
  with H l s e assms(2) show ?thesis by (simp add: handled_ok_def ack_bound_def)
qed

text \<open>A step of the client on connection \<open>c\<close>.\<close>

lemma down_inv_client:
  assumes "down_inv s" "\<not> is_finished (sy_phase s)" "gh_hist s' = gh_hist s" "sy_session s' = sy_session s"
    and "sy_conns s' = (sy_conns s)(c := C')"
    and "client_ok (sy_phase s') (gh_hist s) (sy_client s')"
    and "unat (seen s) \<le> ack_bound (sy_phase s') (gh_hist s) (sy_client s')"
    and "\<And>a. Ack a \<in> set (cn_up C') \<Longrightarrow>
          Ack a \<in> set (cn_up (sy_conns s c)) \<or> unat a \<le> ack_bound (sy_phase s') (gh_hist s) (sy_client s')"
    and "sy_phase s' = Away \<or> is_finished (sy_phase s') \<or> sy_phase s' = On c \<and> conn_ok False (gh_hist s) (seen s') C'"
    and "sy_phase s' = Away \<or> sy_phase s' = On c \<Longrightarrow> resume_token (sy_client s') \<noteq> None"
  shows "down_inv s'"
proof -
  let ?B = "ack_bound (sy_phase s') (gh_hist s) (sy_client s')"
  have B: "ack_bound (sy_phase s) (gh_hist s) (sy_client s) \<le> ?B" using assms(2,7) by (simp add: ack_bound_def)
  have up: "unat a \<le> ?B" if "Ack a \<in> set (cn_up (sy_conns s c'))" for a c'
    using assms(1) that B by (force simp: down_inv_def ack_ok_def)
  have "trimmed s' \<le> ?B" using assms(1,4) B by (auto simp: down_inv_def ack_ok_def)
  moreover have "unat a \<le> ?B" if "Ack a \<in> set (cn_up (sy_conns s' c'))" for a c'
    using that up assms(5,8) by (auto split: if_splits)
  ultimately have "ack_ok s'" using assms(3) by (simp add: ack_ok_def)
  moreover have "cur_ok s'" using assms(3,5,9) by (auto simp: cur_ok_def)
  moreover have "token_ok s'" using assms(1,4,9,10) by (auto simp: token_ok_def down_inv_def)
  ultimately show ?thesis using assms(3,6) by (simp add: down_inv_def)
qed

lemma client_other:
  assumes "\<not> is_output x" "client_message wr r x cl = (msgs, out)"
  shows "msgs = []" "\<exists>cl'. out = Attached cl' \<and> last_server_seq cl' = last_server_seq cl \<and> cl_stdout cl' = cl_stdout cl
    \<and> cl_stderr cl' = cl_stderr cl \<and> resume_token cl' = resume_token cl \<and> cl_stdin_open cl' = cl_stdin_open cl
    \<and> client_seq cl' = client_seq cl"
  using assms by (cases x; auto)+

lemma output_cases: "is_output x \<Longrightarrow> (\<exists>s d. x = Stdout s d \<or> x = Stderr s d) \<or> (\<exists>s code. x = Exit s code)"
  by (cases x) auto

lemma client_act_frame:
  "gh_hist (client_act tgt dec ev sent c s) = gh_hist s" "sy_session (client_act tgt dec ev sent c s) = sy_session s"
  "sy_task (client_act tgt dec ev sent c s) = sy_task s" "gh_out (client_act tgt dec ev sent c s) = gh_out s"
  "gh_err (client_act tgt dec ev sent c s) = gh_err s" "gh_in (client_act tgt dec ev sent c s) = gh_in s"
  "gh_reads (client_act tgt dec ev sent c s) = gh_reads s" "gh_lost (client_act tgt dec ev sent c s) = gh_lost s"
  "gh_epipe (client_act tgt dec ev sent c s) = gh_epipe s"
  by (simp_all add: client_act_def split_beta)

text \<open>A frame of the stream.\<close>

lemma down_inv_client_frame:
  assumes "log_inv s" "down_inv s" "sy_phase s = On c" "cn_down (sy_conns s c) = x # rest" "dec bs = Inr x"
  shows "down_inv (client_act tgt dec (FromServer (ConnFrame bs) wr) sent c s)"
proof -
  let ?C = "(sy_conns s c)\<lparr>cn_down := rest\<rparr>" and ?H = "gh_hist s"
  obtain msgs out where m: "client_message wr True x (sy_client s) = (msgs, out)" by force
  let ?C' = "?C\<lparr>cn_up := cn_up (sy_conns s c) @ (if sent then msgs else [])\<rparr>"
  have act: "client_act tgt dec (FromServer (ConnFrame bs) wr) sent c s
      = (set_conn c ?C' s)\<lparr>sy_client := outcome_client out, sy_phase := outcome_phase c out\<rparr>"
    using assms(4,5) m by (simp add: client_act_def)
  have ok: "conn_ok False ?H (seen s) (sy_conns s c)" and cl: "client_ok (On c) ?H (sy_client s)"
    and tok: "resume_token (sy_client s) \<noteq> None"
    using assms(2,3) by (auto simp: down_inv_def cur_ok_def token_ok_def)
  have num: "numbered ?H" and exit: "list_ex is_exit ?H \<Longrightarrow> exit_last ?H" and outs: "list_all is_output ?H"
    using assms(1) log_invD(2) by (auto simp: log_inv_def)
  have up: "conn_ok False ?H l ?C' = conn_ok False ?H l ?C" for l
    by (rule iffI) (erule conn_ok_cong; simp)+
  show ?thesis
  proof (cases "is_output x")
    case False
    obtain cl' where out: "msgs = []" "out = Attached cl'" "last_server_seq cl' = seen s"
      "cl_stdout cl' = cl_stdout (sy_client s)" "cl_stderr cl' = cl_stderr (sy_client s)"
      "resume_token cl' = resume_token (sy_client s)"
      using client_other [OF False m] by blast
    have "seq_of x = None"
    proof (rule ccontr)
      assume "seq_of x \<noteq> None"
      from conn_ok_data [OF ok assms(4) this] obtain k where "k < length ?H" "x = ?H ! k" by blast
      with False outs show False by (auto simp: list_all_length)
    qed
    with conn_ok_skip [OF ok assms(4)] have "conn_ok False ?H (seen s) ?C" by simp
    with out cl tok assms(3) show ?thesis unfolding act
      by (intro down_inv_client [OF assms(2), of _ c ?C']) (auto simp: ack_bound_def up)
  next
    case True
    then have "seq_of x \<noteq> None" by (cases x) auto
    from conn_ok_data [OF ok assms(4) this] obtain k where k: "k < length ?H" "k \<le> unat (seen s)" "x = ?H ! k"
      "\<And>l'. unat (seen s) \<le> unat l' \<Longrightarrow> k + 1 \<le> unat l' \<Longrightarrow> unat l' \<le> max (unat (seen s)) (k + 1) \<Longrightarrow>
       conn_ok False ?H l' ?C" by blast
    have "handled_ok c ?H (sy_client s) k True msgs out"
      using output_cases [OF True]
    proof (elim disjE exE)
      fix s' code
      assume x: "x = Exit s' code"
      then have "exit_last ?H" using k(1,3) by (intro exit) (auto simp: list_ex_length)
      with handled_exit [OF num cl k(1,2)] x k(3) m show ?thesis by metis
    qed (use handled_output [OF num cl k(1) _ k(3) _ _ m] k(2) in auto)
    then show ?thesis unfolding act
      by (intro down_inv_client [OF assms(2), of _ c ?C'])
         (use k(4) tok assms(3) in \<open>auto simp: handled_ok_def up split: if_splits\<close>)
  qed
qed

text \<open>A datagram.\<close>

lemma down_inv_client_datagram:
  assumes "log_inv s" "down_inv s" "sy_phase s = On c" "x \<in> set (cn_down_dg (sy_conns s c))" "dec bs = Inr x"
  shows "down_inv (client_act tgt dec (FromServer (ConnDatagram bs) wr) sent c s)"
proof -
  let ?C = "sy_conns s c" and ?H = "gh_hist s"
  obtain msgs out where m: "client_message wr False x (sy_client s) = (msgs, out)" by force
  let ?C' = "?C\<lparr>cn_up := cn_up (sy_conns s c) @ (if sent then msgs else [])\<rparr>"
  have act: "client_act tgt dec (FromServer (ConnDatagram bs) wr) sent c s
      = (set_conn c ?C' s)\<lparr>sy_client := outcome_client out, sy_phase := outcome_phase c out\<rparr>"
    using assms(5) m by (simp add: client_act_def)
  have ok: "conn_ok False ?H (seen s) ?C" and cl: "client_ok (On c) ?H (sy_client s)"
    and tok: "resume_token (sy_client s) \<noteq> None"
    using assms(2,3) by (auto simp: down_inv_def cur_ok_def token_ok_def)
  have num: "numbered ?H" and outs: "list_all is_output ?H"
    using assms(1) log_invD(2) by (auto simp: log_inv_def)
  have up: "conn_ok False ?H l ?C' = conn_ok False ?H l ?C" for l
    by (rule iffI) (erule conn_ok_cong; simp)+
  from conn_ok_datagram [OF ok assms(4)] obtain i where i: "i < length ?H" "x = ?H ! i" "worth_duplicating x"
    "\<And>l'. unat (seen s) \<le> unat l' \<Longrightarrow> unat l' \<le> max (unat (seen s)) (i + 1) \<Longrightarrow> conn_ok False ?H l' ?C" by blast
  have "is_output x" using outs i(1,2) by (simp add: list_all_length)
  with i(3) output_cases [of x] obtain s' d where "x = Stdout s' d \<or> x = Stderr s' d" by auto
  with handled_output [OF num cl i(1) _ i(2) _ _ m] have "handled_ok c ?H (sy_client s) i False msgs out" by auto
  then show ?thesis unfolding act
    by (intro down_inv_client [OF assms(2), of _ c ?C'])
       (use i(4) tok assms(3) in \<open>auto simp: handled_ok_def up split: if_splits\<close>)
qed

text \<open>The other events of the attached loop leave the client's output alone.\<close>

lemma down_inv_client_quiet:
  assumes "down_inv s" "sy_phase s = On c"
    and "s' = (set_conn c C' s)\<lparr>sy_client := outcome_client out, sy_phase := outcome_phase c out,
               gh_reads := rds, gh_lost := b\<rparr>"
    and "last_server_seq (outcome_client out) = seen s" "resume_token (outcome_client out) = resume_token (sy_client s)"
    and "cl_stdout (outcome_client out) = cl_stdout (sy_client s)" "cl_stderr (outcome_client out) = cl_stderr (sy_client s)"
    and "\<And>a. Ack a \<in> set (cn_up C') \<Longrightarrow> Ack a \<in> set (cn_up (sy_conns s c))"
    and "cn_down C' = cn_down (sy_conns s c)" "cn_down_dg C' = cn_down_dg (sy_conns s c)"
    and "cn_req C' = cn_req (sy_conns s c)" "cn_att C' = cn_att (sy_conns s c)"
    and "\<forall>cl code. out \<noteq> Exited cl code"
  shows "down_inv s'"
proof -
  have ok: "conn_ok False (gh_hist s) (seen s) (sy_conns s c)" and cl: "client_ok (On c) (gh_hist s) (sy_client s)"
    and tok: "resume_token (sy_client s) \<noteq> None"
    using assms(1,2) by (auto simp: down_inv_def cur_ok_def token_ok_def)
  have C': "conn_ok False (gh_hist s) (seen s) C'" by (rule conn_ok_cong [OF ok]) (simp_all add: assms(9-12))
  have le: "unat (seen s) \<le> length (gh_hist s)" using cl by simp
  have fin: "client_ok (Finished (Inl e)) (gh_hist s) (outcome_client out)" for e
    using client_ok_fail [OF cl] assms(6,7) by simp
  have run: "client_ok ph (gh_hist s) (outcome_client out)" if "\<not> is_finished ph" for ph
    using client_ok_running [OF _ that cl] assms(4,6,7) by simp
  show ?thesis
  proof (rule down_inv_client [OF assms(1), of _ c C'])
    show "client_ok (sy_phase s') (gh_hist s) (sy_client s')"
      using fin run [of "On c"] run [of Away] assms(3,13) by (cases out) (simp_all del: client_ok.simps)
    show "unat (seen s) \<le> ack_bound (sy_phase s') (gh_hist s) (sy_client s')"
      using le assms(3,4) by (simp add: ack_bound_def)
    show "sy_phase s' = Away \<or> is_finished (sy_phase s') \<or> sy_phase s' = On c \<and> conn_ok False (gh_hist s) (seen s') C'"
      using C' assms(3,4) by (cases out) auto
  qed (use assms(2,3,5,8) tok in auto)
qed

lemma down_inv_client_act:
  assumes "log_inv s" "down_inv s" "sy_phase s = On c" "client_may dec ev (sy_conns s c)"
  shows "down_inv (client_act tgt dec ev sent c s)"
proof (cases "(dec, ev, sy_conns s c)" rule: client_may.cases)
  case (1 dec' bs wr C)
  then have ev: "ev = FromServer (ConnFrame bs) wr" "cn_down (sy_conns s c) \<noteq> []"
    "dec bs = Inr (hd (cn_down (sy_conns s c)))" using assms(4) by auto
  then obtain x rest where "cn_down (sy_conns s c) = x # rest" by (cases "cn_down (sy_conns s c)") auto
  with down_inv_client_frame [OF assms(1-3) this] ev show ?thesis by simp
next
  case (2 dec' bs wr C)
  with assms(4) down_inv_client_datagram [OF assms(1-3)] show ?thesis by auto
next
  case (3 dec' wr C)
  then show ?thesis
    by (intro down_inv_client_quiet [OF assms(2,3), where C' = "sy_conns s c" and out = "Lost (sy_client s)"
          and rds = "gh_reads s" and b = "gh_lost s"])
       (simp_all add: client_act_def set_conn_def)
next
  case (4 dec' silent ping C)
  then show ?thesis
    by (intro down_inv_client_quiet [OF assms(2,3), where C' = "sy_conns s c"
          and out = "snd (attached_step tgt dec ev (sy_client s))" and rds = "gh_reads s" and b = "gh_lost s"])
       (simp_all add: client_act_def set_conn_def)
next
  case (5 dec' r ok C)
  with assms(4) show ?thesis by simp
qed

lemma stdin_message_simps [simp]:
  "seq_of (stdin_message q data) = Some q" "Ack a \<noteq> stdin_message q data" "is_stdin (stdin_message q data)"
  by (simp_all add: stdin_message_def)

lemma down_inv_stdin:
  assumes "down_inv s" "sy_phase s = On c"
  shows "down_inv (stdin_act tgt r ok leak c s)"
proof -
  obtain msgs out where st: "client_stdin_read r ok (sy_client s) = (msgs, out)" by force
  have f: "last_server_seq (outcome_client out) = seen s" "resume_token (outcome_client out) = resume_token (sy_client s)"
    "cl_stdout (outcome_client out) = cl_stdout (sy_client s)" "cl_stderr (outcome_client out) = cl_stderr (sy_client s)"
    "\<And>a. Ack a \<notin> set msgs" "\<forall>cl code. out \<noteq> Exited cl code"
    using st by (auto simp: client_stdin_read_def Let_def split: option.splits if_splits)
  let ?made = "case r of Some data \<Rightarrow> [stdin_message (client_seq (sy_client s) + 1) data] | None \<Rightarrow> []"
  let ?C = "(sy_conns s c)\<lparr>cn_up := cn_up (sy_conns s c) @ msgs @ (if \<not> ok \<and> leak then ?made else []),
      cn_up_dg := cn_up_dg (sy_conns s c) @ filter worth_duplicating msgs\<rparr>"
  have "stdin_act tgt r ok leak c s = (set_conn c ?C s)\<lparr>sy_client := outcome_client out, sy_phase := outcome_phase c out,
      gh_reads := gh_reads s @ ?made, gh_lost := (gh_lost s \<or> \<not> ok)\<rparr>"
    using st by (simp add: stdin_act_def Let_def)
  then show ?thesis
  proof (rule down_inv_client_quiet [OF assms _ f(1-4)])
    show "Ack a \<in> set (cn_up (sy_conns s c))" if "Ack a \<in> set (cn_up ?C)" for a
      using that f(5) by (cases r; cases "\<not> ok \<and> leak") auto
  qed (simp_all add: f(6))
qed

lemma down_inv_connect:
  assumes "down_inv s" "sy_phase s = Away"
  shows "down_inv (connect_act tgt command s)"
proof -
  obtain tk where tk: "resume_token (sy_client s) = Some tk" using assms by (auto simp: down_inv_def token_ok_def)
  let ?C = "no_conn\<lparr>cn_req := Some (start_request tgt command (sy_client s))\<rparr>"
  have "conn_ok True (gh_hist s) (seen s) ?C" using tk by (simp add: conn_ok_def start_request_def no_conn_def)
  moreover have "client_ok (Waiting (sy_next s)) (gh_hist s) (sy_client s)" using assms by (simp add: down_inv_def)
  moreover have "Ack a \<notin> set (cn_up ?C)" for a by (simp add: no_conn_def)
  ultimately show ?thesis
    using assms by (auto simp: down_inv_def connect_act_def ack_ok_def cur_ok_def token_ok_def ack_bound_def split: if_splits)
qed

text \<open>The end of a connect attempt.\<close>

lemma after_connect_frame:
  "after_connect tgt r cl = GoAttach cl' \<or> after_connect tgt r cl = GoRetry cl' d \<Longrightarrow>
   last_server_seq cl' = last_server_seq cl \<and> cl_stdout cl' = cl_stdout cl \<and> cl_stderr cl' = cl_stderr cl
   \<and> sent_stdin cl' = sent_stdin cl \<and> client_seq cl' = client_seq cl \<and> cl_stdin_open cl' = cl_stdin_open cl
   \<and> (resume_token cl \<noteq> None \<longrightarrow> resume_token cl' = resume_token cl)
   \<and> (\<forall>tk. r = Inr (Some tk) \<longrightarrow> resume_token cl' \<noteq> None) \<and> ((\<exists>e. r = Inl e) \<longrightarrow> resume_token cl' \<noteq> None)"
  by (auto simp: after_connect_def spawn_agent_def Let_def split: sum.splits ClientError.splits TokenSource.splits if_splits)

lemma after_connect_login: "after_connect tgt r cl = GoLogin cl' n \<Longrightarrow> \<exists>name. r = Inl (NotLoggedIn name)"
  by (auto simp: after_connect_def Let_def split: sum.splits ClientError.splits TokenSource.splits if_splits)

lemma connected_act_frame:
  "gh_hist (connected_act tgt r n c s) = gh_hist s" "sy_session (connected_act tgt r n c s) = sy_session s"
  "sy_task (connected_act tgt r n c s) = sy_task s" "gh_out (connected_act tgt r n c s) = gh_out s"
  "gh_err (connected_act tgt r n c s) = gh_err s" "gh_in (connected_act tgt r n c s) = gh_in s"
  "gh_reads (connected_act tgt r n c s) = gh_reads s" "gh_lost (connected_act tgt r n c s) = gh_lost s"
  "gh_epipe (connected_act tgt r n c s) = gh_epipe s"
  by (simp_all add: connected_act_def split_beta split: ConnectOutcome.splits)

lemma resend_subset: "resend n cl = (msgs, ok) \<Longrightarrow> \<exists>k. msgs = take k (sent_stdin cl) \<and> (ok \<longrightarrow> msgs = sent_stdin cl)"
  by (auto simp: resend_def split: option.splits if_splits intro: exI [of _ "length (sent_stdin cl)"])

text \<open>The client's resend list holds stdin messages only.\<close>

definition resend_ok :: "System \<Rightarrow> bool" where
  "resend_ok s \<longleftrightarrow> list_all is_stdin (sent_stdin (sy_client s))"

lemma down_inv_connected:
  assumes "down_inv s" "sy_phase s = Waiting c" "resend_ok s"
    and "(\<exists>e. r = Inl e \<and> (\<forall>name. e \<noteq> NotLoggedIn name))
       \<or> (\<exists>tk. r = Inr (Some tk) \<and> conn_ok False (gh_hist s) (seen s) C)"
    and up0: "cn_up C = cn_up (sy_conns s c)"
  shows "down_inv (connected_act tgt r n c (set_conn c C s))"
proof -
  have cl: "client_ok (Waiting c) (gh_hist s) (sy_client s)" and le: "unat (seen s) \<le> length (gh_hist s)"
    using assms(1,2) by (auto simp: down_inv_def)
  show ?thesis
  proof (cases "after_connect tgt r (sy_client s)")
    case (GoAttach cl')
    note f = after_connect_frame [OF disjI1 [OF GoAttach]]
    have tk: "resume_token cl' \<noteq> None" using f assms(4) by blast
    from GoAttach assms(4) have okC: "conn_ok False (gh_hist s) (seen s) C"
      by (auto simp: after_connect_def split: ClientError.splits TokenSource.splits if_splits)
    obtain msgs ok where rs: "resend n cl' = (msgs, ok)" by force
    then have "set msgs \<subseteq> set (sent_stdin (sy_client s))" using resend_subset [OF rs] f by (auto dest: in_set_takeD)
    then have "\<forall>x \<in> set msgs. is_stdin x" using assms(3) by (auto simp: resend_ok_def list_all_iff)
    then have noack: "Ack a \<notin> set msgs" for a by (metis is_stdin.simps(8))
    let ?C = "C\<lparr>cn_up := cn_up C @ msgs\<rparr>"
    have C': "conn_ok False (gh_hist s) (seen s) ?C" by (rule conn_ok_cong [OF okC]) simp_all
    have run: "client_ok ph (gh_hist s) cl'" if "\<not> is_finished ph" for ph
      using client_ok_running [OF _ that cl] f by simp
    show ?thesis
      by (rule down_inv_client [OF assms(1), of _ c ?C])
         (use GoAttach rs f tk C' noack up0 run [of Away] run [of "On c"] assms(2) le in
          \<open>auto simp: connected_act_def ack_bound_def fun_upd_def simp del: client_ok.simps\<close>)
  next
    case (GoLogin cl' name)
    with after_connect_login [OF GoLogin] assms(4) show ?thesis by auto
  next
    case (GoRetry cl' d)
    note f = after_connect_frame [OF disjI2 [OF GoRetry]]
    have tk: "resume_token cl' \<noteq> None"
      using f assms(4) by blast
    have run: "client_ok Away (gh_hist s) cl'" using client_ok_running [OF _ _ cl, of Away cl'] f by simp
    show ?thesis
      by (rule down_inv_client [OF assms(1), of _ c C])
         (use GoRetry f tk run up0 assms(2) le in \<open>auto simp: connected_act_def ack_bound_def simp del: client_ok.simps\<close>)
  next
    case (GiveUp e)
    show ?thesis
      by (rule down_inv_client [OF assms(1), of _ c C])
         (use GiveUp client_ok_fail [OF cl refl refl, of e] up0 assms(2) le in
          \<open>auto simp: connected_act_def ack_bound_def simp del: client_ok.simps\<close>)
  qed
qed

section \<open>All steps\<close>

lemma set_conn_id [simp]: "set_conn c (sy_conns s c) s = s"
  by (simp add: set_conn_def)

lemma down_inv_answer:
  assumes "down_inv s" "sy_phase s = Waiting c" "resend_ok s" "cn_down (sy_conns s c) = m # rest"
  shows "down_inv (connected_act tgt (start_reply m) n c (pop_down c s))"
proof -
  have ok: "conn_ok True (gh_hist s) (seen s) (sy_conns s c)" using assms(1,2) by (simp add: down_inv_def cur_ok_def)
  have "cn_att (sy_conns s c) \<noteq> None \<or> \<not> True \<or> cn_down (sy_conns s c) \<noteq> []" using assms(4) by simp
  with ok obtain k m' where "True \<longrightarrow> answered (sy_conns s c)" by (rule conn_okE)
  then consider tk where "m = Started (Some tk)" | why where "m = Denied why" using assms(4) by (auto simp: answered_def)
  then show ?thesis
  proof cases
    case (1 tk)
    with conn_ok_skip [OF ok assms(4)] show ?thesis
      unfolding pop_down_def by (intro down_inv_connected [OF assms(1-3)]) (simp_all add: assms(4))
  next
    case (2 why)
    then show ?thesis
      unfolding pop_down_def by (intro down_inv_connected [OF assms(1-3)]) simp_all
  qed
qed

lemma client_message_resend:
  "client_message wr r x cl = (msgs, out) \<Longrightarrow> list_all is_stdin (sent_stdin cl) \<Longrightarrow>
   list_all is_stdin (sent_stdin (outcome_client out))"
  by (cases x) (auto simp: Let_def retain_unacked_def list_all_iff split: if_splits)

lemma attached_step_resend:
  assumes "attached_step tgt dec ev cl = (msgs, out)" "list_all is_stdin (sent_stdin cl)"
  shows "list_all is_stdin (sent_stdin (outcome_client out))"
proof (cases ev)
  case (FromServer e wr)
  with assms show ?thesis
    by (cases e) (auto split: sum.splits dest: client_message_resend)
qed (use assms in \<open>auto simp: client_stdin_read_def Let_def split: option.splits if_splits\<close>)

lemma connected_resend: "sent_stdin (sy_client (connected_act tgt r n c s)) = sent_stdin (sy_client s)"
proof (cases "after_connect tgt r (sy_client s)")
  case (GoAttach cl)
  with after_connect_frame [OF disjI1 [OF GoAttach]] show ?thesis by (simp add: connected_act_def split_beta)
next
  case (GoLogin cl name)
  then have "cl = sy_client s" by (auto simp: after_connect_def Let_def split: sum.splits ClientError.splits TokenSource.splits if_splits)
  with GoLogin show ?thesis by (simp add: connected_act_def)
next
  case (GoRetry cl d)
  with after_connect_frame [OF disjI2 [OF GoRetry]] show ?thesis by (simp add: connected_act_def)
qed (simp add: connected_act_def)

lemma resend_ok_step:
  assumes "step tok tgt command s s'" "resend_ok s"
  shows "resend_ok s'"
  using assms(1)
proof (cases rule: step_cases)
  case (ClientEvent c cdec cev sent)
  obtain msgs out where "attached_step tgt cdec cev (sy_client s) = (msgs, out)" by force
  with ClientEvent assms(2) attached_step_resend [OF this] show ?thesis by (simp add: client_act_def resend_ok_def)
next
  case (ClientStdin c r ok leak)
  obtain msgs out where st: "attached_step tgt (\<lambda>_. Inl ClientProtocol) (StdinRead r ok) (sy_client s) = (msgs, out)" by force
  with ClientStdin assms(2) attached_step_resend [OF st] show ?thesis
    by (simp add: stdin_act_def resend_ok_def Let_def)
next
  case (Answer c m rest n)
  with assms(2) show ?thesis by (simp add: resend_ok_def connected_resend pop_down_def)
qed (use assms(2) in \<open>simp_all add: resend_ok_def task_act_frame restart_act_frame flush_act_frame ack_act_frame
      server_act_frame accept_act_frame expire_act_frame connect_act_def connected_resend\<close>)

lemma step_hist_mono:
  assumes "step tok tgt command s s'"
  shows "length (gh_hist s) \<le> length (gh_hist s')"
  using assms
proof (cases rule: step_cases)
  case (Task st ev env)
  then show ?thesis by (simp add: task_act_def Let_def split_beta)
next
  case (ClientStdin c r ok leak)
  then show ?thesis by (simp add: stdin_act_def Let_def split_beta)
next
  case (Answer c m rest n)
  then show ?thesis by (simp add: connected_act_frame pop_down_def)
qed (simp_all add: restart_act_frame flush_act_frame ack_act_frame server_act_frame accept_act_frame
        expire_act_frame client_act_frame connect_act_def connected_act_frame)

lemma log_inv_step:
  assumes "step tok tgt command s s'" "log_inv s" "down_inv s" "length (gh_hist s) + 2 < 2 ^ 64"
  shows "log_inv s'"
  using assms(1)
proof (cases rule: step_cases)
  case (Task st ev env)
  with log_inv_task [OF assms(2)] assms(4) show ?thesis by simp
next
  case (Restart re intime)
  with log_inv_restart [OF assms(2)] show ?thesis by simp
next
  case (ServerEvent c a dec ev' now)
  with server_act_trim [OF assms(2,3)] show ?thesis by blast
qed (auto intro: log_inv_cong [OF assms(2)]
      simp: flush_act_frame ack_act_frame accept_act_frame expire_act_frame client_act_frame stdin_act_def connect_act_def
        connected_act_frame pop_down_def Let_def split_beta)

lemma down_inv_step:
  assumes "step tok tgt command s s'" "log_inv s" "down_inv s" "resend_ok s" "length (gh_hist s) + 2 < 2 ^ 64"
  shows "down_inv s'"
  using assms(1)
proof (cases rule: step_cases)
  case (Task st ev env)
  with down_inv_task [OF assms(2,3)] assms(5) show ?thesis by simp
next
  case (Restart re intime)
  with down_inv_restart [OF assms(2,3)] show ?thesis by simp
next
  case (Flush c a fails now)
  with down_inv_flush [OF assms(2,3)] show ?thesis by simp
next
  case (StdinAck c a fails now)
  with down_inv_ack [OF assms(3)] show ?thesis by simp
next
  case (ServerEvent c a dec ev' now)
  with down_inv_server_act [OF assms(2,3)] show ?thesis by simp
next
  case (Accept c req now)
  with down_inv_accept [OF assms(3)] show ?thesis by simp
next
  case Expire
  with down_inv_expire [OF assms(3)] show ?thesis by simp
next
  case (ClientEvent c cdec cev sent)
  with down_inv_client_act [OF assms(2,3)] show ?thesis by simp
next
  case (ClientStdin c r ok leak)
  with down_inv_stdin [OF assms(3)] show ?thesis by simp
next
  case Connect
  with down_inv_connect [OF assms(3)] show ?thesis by simp
next
  case (Answer c m rest n)
  with down_inv_answer [OF assms(3) _ assms(4)] show ?thesis by simp
next
  case (ConnectFails c e n)
  then show ?thesis
    using down_inv_connected [OF assms(3) _ assms(4), of c "Inl e" "sy_conns s c" tgt n]
    by (auto elim!: is_final.elims)
qed

lemma reachable_output:
  assumes "reachable tok tgt command s" "length (gh_hist s) + 2 < 2 ^ 64"
  shows "log_inv s \<and> down_inv s \<and> resend_ok s"
  using assms
proof (induction rule: reachable.induct)
  case (Init io agent now)
  then show ?case
    by (simp add: log_inv_init down_inv_init) (simp add: resend_ok_def sys_init_def Let_def client_init_def)
next
  case (Step s s')
  from step_hist_mono [OF Step.hyps(2)] Step.prems have "length (gh_hist s) + 2 < 2 ^ 64" by linarith
  with Step.IH Step.hyps(2) log_inv_step down_inv_step resend_ok_step show ?case by blast
qed

section \<open>A run\<close>

text \<open>
  A concrete run, for the witnesses: the child prints, the output is in flight when the
  connection is lost, the client reconnects and resumes, the child exits with code 3, and the
  client returns it.
\<close>

definition demo_tgt :: Target where
  "demo_tgt = Target_new ''u'' (StaticToken ''x'')"

definition demo_recv :: "ChannelMessage \<Rightarrow> nat \<Rightarrow> System \<Rightarrow> System" where
  "demo_recv m c s = client_act demo_tgt (\<lambda>_. Inr m) (FromServer (ConnFrame []) WriteOk) True c s"

definition demo_task :: "TaskEvent \<Rightarrow> System \<Rightarrow> System" where
  "demo_task ev s = task_act demo_env ev (the (sy_task s)) s"

definition demo_s1 :: System where
  "demo_s1 = connected_act demo_tgt (start_reply (Started (Some ''t''))) None 0 (pop_down 0 (sys_init ''t'' demo_io False 0))"

definition demo_s2 :: System where
  "demo_s2 = flush_act None 0 0 (attach_init 0 0) (demo_task (StdoutRead (ReadOk [104])) demo_s1)"

definition demo_s3 :: System where
  "demo_s3 = connect_act demo_tgt [] (client_act demo_tgt (\<lambda>_. Inl ClientIo) (FromServer Disconnected WriteOk) True 0 demo_s2)"

definition demo_s4 :: System where
  "demo_s4 = connected_act demo_tgt (start_reply (Started (Some ''t''))) None 1 (pop_down 1 (accept_act 5 1 (Resume ''t'' 0) demo_s3))"

definition demo_s5 :: System where
  "demo_s5 = flush_act None 6 1 (attach_init 5 0)
     (demo_task (ExitRead (ReadOk [51, 10])) (demo_task (StderrRead (ReadOk [])) (demo_task (StdoutRead (ReadOk [])) demo_s4)))"

definition demo_s6 :: System where
  "demo_s6 = demo_recv (Exit 2 3) 1 (demo_recv (Stdout 1 [104]) 1 demo_s5)"

lemmas demo_eval = set_conn_def no_conn_def sys_init_def attach_enter_def fresh_session_def AttachGuard_new_def
  guard_new_clear_def guard_new_count_def attach_init_def started_message_def client_init_def RESUME_RETRY_DELAY_def
  session_task_start_def demo_io_def connected_act_def pop_down_def after_connect_def spawn_agent_def
  resend_def outcome_phase_def demo_tgt_def Target_new_def task_act_def demo_env_def task_eval flush_act_def
  attach_flush_def log_after_def saturating_sub_def client_act_def is_next_def parse_exit_line_3 demo_recv_def
  demo_task_def connect_act_def start_request_def accept_act_def handle_request_def server_view_def registry_get_def

lemma demo_reach_1: "reachable ''t'' demo_tgt [] demo_s1"
  unfolding demo_s1_def
  by (rule reachable.Step [OF reachable.Init step.Answer [where rest = "[]"]]) (simp_all add: demo_eval)

lemma demo_reach_2: "reachable ''t'' demo_tgt [] demo_s2"
proof -
  let ?s = "demo_task (StdoutRead (ReadOk [104])) demo_s1"
  have "reachable ''t'' demo_tgt [] ?s"
    unfolding demo_task_def
    by (rule reachable.Step [OF demo_reach_1 step.Task]) (simp_all add: demo_s1_def demo_eval)
  then show ?thesis unfolding demo_s2_def
    by (rule reachable.Step [OF _ step.Flush]) (simp add: demo_s1_def demo_eval)
qed

lemma demo_reach_3: "reachable ''t'' demo_tgt [] demo_s3"
proof -
  let ?s = "client_act demo_tgt (\<lambda>_. Inl ClientIo) (FromServer Disconnected WriteOk) True 0 demo_s2"
  have "reachable ''t'' demo_tgt [] ?s"
    by (rule reachable.Step [OF demo_reach_2 step.ClientEvent]) (simp_all add: demo_s1_def demo_s2_def demo_eval)
  then show ?thesis unfolding demo_s3_def
    by (rule reachable.Step [OF _ step.Connect]) (simp add: demo_s1_def demo_s2_def demo_eval)
qed

lemma demo_reach_4: "reachable ''t'' demo_tgt [] demo_s4"
proof -
  let ?s = "accept_act 5 1 (Resume ''t'' 0) demo_s3"
  have "reachable ''t'' demo_tgt [] ?s"
    by (rule reachable.Step [OF demo_reach_3 step.Accept]) (simp add: demo_s1_def demo_s2_def demo_s3_def demo_eval)
  then show ?thesis unfolding demo_s4_def
    by (rule reachable.Step [OF _ step.Answer [where rest = "[]"]])
       (simp_all add: demo_s1_def demo_s2_def demo_s3_def demo_eval)
qed

lemma demo_s4_eq: "demo_s4 =
  \<lparr>sy_client = \<lparr>cl_stdin_open = True, sent_stdin = [], client_seq = 0, last_server_seq = 0, resume_token = Some ''t'',
     retry_delay = 300, agent_channel = False, cl_stdout = [], cl_stderr = []\<rparr>,
   sy_phase = On 1,
   sy_conns = (\<lambda>_. no_conn)
     (0 := no_conn\<lparr>cn_att := Some ((attach_init 0 0)\<lparr>sent_up_to := 1\<rparr>), cn_down := [Stdout 1 [104]], cn_down_dg := [Stdout 1 [104]]\<rparr>,
      1 := no_conn\<lparr>cn_att := Some (attach_init 5 0)\<rparr>),
   sy_next = 2,
   sy_task = Some ((session_task_start demo_io fresh_shared)\<lparr>task_seq := 1\<rparr>),
   sy_session = (fresh_session 0 True False)\<lparr>ses_attached := 2, ses_detached_at := None,
     ses_shared := \<lparr>sh_log = \<lparr>log_buffer = [Stdout 1 [104]], log_trimmed = 0, log_latest = 1\<rparr>, sh_stdin_applied = 0\<rparr>\<rparr>,
   sy_registry = [(''t'', 0)], gh_hist = [Stdout 1 [104]], gh_out = [104], gh_err = [], gh_in = [], gh_reads = [],
   gh_lost = False, gh_epipe = False\<rparr>"
  by (simp add: demo_s1_def demo_s2_def demo_s3_def demo_s4_def demo_eval)

lemma demo_reach_5: "reachable ''t'' demo_tgt [] demo_s5"
proof -
  let ?a = "demo_task (StdoutRead (ReadOk [])) demo_s4"
  let ?b = "demo_task (StderrRead (ReadOk [])) ?a"
  let ?c = "demo_task (ExitRead (ReadOk [51, 10])) ?b"
  have "reachable ''t'' demo_tgt [] ?a" unfolding demo_task_def
    by (rule reachable.Step [OF demo_reach_4 step.Task]) (simp_all add: demo_s4_eq demo_eval)
  then have "reachable ''t'' demo_tgt [] ?b" unfolding demo_task_def
    by (rule reachable.Step [OF _ step.Task]) (simp_all add: demo_s4_eq demo_eval)
  then have "reachable ''t'' demo_tgt [] ?c" unfolding demo_task_def
    by (rule reachable.Step [OF _ step.Task]) (simp_all add: demo_s4_eq demo_eval)
  then show ?thesis unfolding demo_s5_def
    by (rule reachable.Step [OF _ step.Flush]) (simp add: demo_s4_eq demo_eval)
qed

lemma demo_reach_6: "reachable ''t'' demo_tgt [] demo_s6"
proof -
  let ?a = "demo_recv (Stdout 1 [104]) 1 demo_s5"
  have "reachable ''t'' demo_tgt [] ?a" unfolding demo_recv_def
    by (rule reachable.Step [OF demo_reach_5 step.ClientEvent]) (simp_all add: demo_s5_def demo_s4_eq demo_eval)
  then show ?thesis unfolding demo_s6_def demo_recv_def
    by (rule reachable.Step [OF _ step.ClientEvent]) (simp_all add: demo_s5_def demo_s4_eq demo_eval)
qed

lemma demo_end:
  "sy_phase demo_s6 = Finished (Inr 3)" "gh_hist demo_s6 = [Stdout 1 [104], Exit 2 3]" "gh_out demo_s6 = [104]"
  by (simp_all add: demo_s6_def demo_s5_def demo_s4_eq demo_eval)

lemma demo_middle:
  "sy_phase demo_s4 = On 1" "length (gh_hist demo_s4) + 2 < 2 ^ 64" "gh_out demo_s4 = [104]" "seen demo_s4 = 0"
  "sy_log demo_s4 = \<lparr>log_buffer = [Stdout 1 [104]], log_trimmed = 0, log_latest = 1\<rparr>" "gh_hist demo_s4 = [Stdout 1 [104]]"
  by (simp_all add: demo_s4_eq)

text \<open>When nothing is under way and the attach loop has sent everything, the client has everything.\<close>

lemma quiescent_seen:
  assumes "log_inv s" "down_inv s" "sy_phase s = On c" "cn_att (sy_conns s c) = Some a"
    and "data_of (cn_down (sy_conns s c)) = []" "log_after (sy_log s) (sent_up_to a) = []"
  shows "unat (seen s) = length (gh_hist s)"
proof -
  have "conn_ok False (gh_hist s) (seen s) (sy_conns s c)" using assms(2,3) by (auto simp: down_inv_def cur_ok_def)
  then obtain k m where st: "stream_ok (gh_hist s) (seen s) (sy_conns s c) k m" by (rule conn_okE) simp
  have "length (gh_hist s) \<le> max (trimmed s) (unat (sent_up_to a))"
    using log_after_suffix [OF log_invD(1) [OF assms(1)], of "sent_up_to a"] assms(6) by simp
  moreover have "trimmed s \<le> unat (seen s)" using down_inv_bounds(2) [OF assms(2)] assms(3) by simp
  ultimately show ?thesis using st assms(4,5) by (auto simp: stream_ok_def)
qed

section \<open>Properties\<close>

text \<open>
  C1: End to end, what the client writes is always exactly a prefix of what the child wrote.
  This holds in every reachable state: through any sequence of lost connections, resumes,
  lingering old connections, lost, late and repeated datagrams, daemon restarts and expiry,
  as long as the session has fewer than 2^64 - 2 messages.
\<close>
theorem output_prefix:
  assumes "reachable tok tgt command s" "length (gh_hist s) + 2 < 2 ^ 64"
  shows "prefix (cl_stdout (sy_client s)) (gh_out s) \<and> prefix (cl_stderr (sy_client s)) (gh_err s)"
  using reachable_output [OF assms] client_ok_prefix [of "sy_phase s" "gh_hist s" "sy_client s"]
  by (simp add: log_inv_def down_inv_def)

theorem output_prefix_witness:
  "reachable ''t'' demo_tgt [] demo_s4 \<and> prefix (cl_stdout (sy_client demo_s4)) [104]"
  using output_prefix [OF demo_reach_4 demo_middle(2)] demo_reach_4 by (simp add: demo_middle)

text \<open>
  C5: When \<open>run_exec\<close> returns an exit code, nothing is missing: the client has written every
  byte of the child's stdout and stderr, the task of the session has ended, and the code is
  the one the task logged as its last message.
\<close>
theorem exit_complete:
  assumes "reachable tok tgt command s" "length (gh_hist s) + 2 < 2 ^ 64" "sy_phase s = Finished (Inr code)"
  shows "cl_stdout (sy_client s) = gh_out s \<and> cl_stderr (sy_client s) = gh_err s \<and> sy_task s = None
    \<and> (\<exists>H e. gh_hist s = H @ [Exit e code] \<and> \<not> list_ex is_exit H)"
proof -
  have inv: "log_inv s" "client_ok (Finished (Inr code)) (gh_hist s) (sy_client s)"
    using reachable_output [OF assms(1,2)] assms(3) by (auto simp: down_inv_def)
  then have "list_ex is_exit (gh_hist s)" by auto
  with inv show ?thesis by (auto simp: log_inv_def exit_last_def)
qed

theorem exit_complete_witness:
  "\<exists>s. reachable ''t'' demo_tgt [] s \<and> sy_phase s = Finished (Inr 3) \<and> cl_stdout (sy_client s) = [104] \<and> sy_task s = None"
proof -
  have "length (gh_hist demo_s6) + 2 < 2 ^ 64" by (simp add: demo_end)
  from exit_complete [OF demo_reach_6 this demo_end(1)] demo_reach_6 demo_end show ?thesis by auto
qed

text \<open>
  C10: Acknowledgements never lose output.  As long as the client has not returned, the server's
  log still holds everything the client has not written: replaying the log to a client that
  resumes at its position makes it apply exactly the missing messages, once and in order.
\<close>
theorem resume_replays_missing:
  assumes "reachable tok tgt command s" "length (gh_hist s) + 2 < 2 ^ 64" "\<not> is_finished (sy_phase s)"
  shows "log_after (sy_log s) (seen s) = drop (unat (seen s)) (gh_hist s)
    \<and> receive is_next (seen s, take (unat (seen s)) (gh_hist s)) (map (Pair True) (log_after (sy_log s) (seen s)))
        = (of_nat (length (gh_hist s)), gh_hist s)"
proof -
  have inv: "log_inv s" "down_inv s" using reachable_output [OF assms(1,2)] by auto
  note h = log_invD(1) [OF inv(1)]
  have t: "trimmed s \<le> unat (seen s)" using down_inv_bounds(2) [OF inv(2) assms(3)] .
  have "unat (seen s) \<le> length (gh_hist s)"
    using inv(2) assms(3) client_ok_le [of "sy_phase s" "gh_hist s" "sy_client s"] by (simp add: down_inv_def ack_bound_def)
  with downlink.resume_exact [OF h t] log_after_suffix [OF h, of "seen s"] t show ?thesis by (simp add: max_def)
qed

theorem resume_replays_missing_witness:
  "receive is_next (0, []) (map (Pair True) (log_after (sy_log demo_s4) 0)) = (1, [Stdout 1 [104]])"
  using resume_replays_missing [OF demo_reach_4 demo_middle(2)] by (simp add: demo_middle is_next_def)

text \<open>
  C17: No output is held back.  When the client is attached, nothing is in flight on its
  stream and the server's attach loop has nothing left to send, then the client has written
  everything the child has written so far.
\<close>
theorem output_quiescent:
  assumes "reachable tok tgt command s" "length (gh_hist s) + 2 < 2 ^ 64" "sy_phase s = On c"
    and "cn_att (sy_conns s c) = Some a" "data_of (cn_down (sy_conns s c)) = []"
    and "log_after (sy_log s) (sent_up_to a) = []"
  shows "cl_stdout (sy_client s) = gh_out s \<and> cl_stderr (sy_client s) = gh_err s"
proof -
  have inv: "log_inv s" "down_inv s" using reachable_output [OF assms(1,2)] by auto
  then have cl: "client_ok (On c) (gh_hist s) (sy_client s)" using assms(3) by (auto simp: down_inv_def)
  have "unat (seen s) = length (gh_hist s)" by (rule quiescent_seen [OF inv assms(3-6)])
  with cl inv(1) show ?thesis by (simp add: log_inv_def)
qed

definition demo_s7 :: System where
  "demo_s7 = demo_recv (Stdout 1 [104]) 1 (flush_act None 6 1 (attach_init 5 0) demo_s4)"

lemma demo_reach_7: "reachable ''t'' demo_tgt [] demo_s7"
proof -
  let ?a = "flush_act None 6 1 (attach_init 5 0) demo_s4"
  have "reachable ''t'' demo_tgt [] ?a"
    by (rule reachable.Step [OF demo_reach_4 step.Flush]) (simp add: demo_s4_eq)
  then show ?thesis unfolding demo_s7_def demo_recv_def
    by (rule reachable.Step [OF _ step.ClientEvent]) (simp_all add: demo_s4_eq demo_eval)
qed

theorem output_quiescent_witness: "cl_stdout (sy_client demo_s7) = gh_out demo_s7 \<and> gh_out demo_s7 = [104]"
proof -
  let ?a = "(attach_init 5 0)\<lparr>sent_up_to := 1\<rparr>"
  have e: "length (gh_hist demo_s7) + 2 < 2 ^ 64" "sy_phase demo_s7 = On 1" "cn_att (sy_conns demo_s7 1) = Some ?a"
    "data_of (cn_down (sy_conns demo_s7 1)) = []" "log_after (sy_log demo_s7) (sent_up_to ?a) = []" "gh_out demo_s7 = [104]"
    by (simp_all add: demo_s7_def demo_s4_eq demo_eval)
  from output_quiescent [OF demo_reach_7 e(1-5)] e(6) show ?thesis by simp
qed

end
