(* ===== verification/SystemInput.thy ===== *)
theory SystemInput
  imports SystemOutput
begin

text \<open>
  The input direction of a session end to end: the child's stdin gets exactly the bytes the
  client read, in order and once, through reconnects with resends, lingering old connections
  that still deliver, datagrams, and daemon restarts; provided that no send of a freshly read
  chunk failed (\<open>gh_lost\<close>).  The order argument is that no queue on the way to the session
  task ever has a gap: each message is at most one ahead of what was applied or queued
  before it (\<open>gapless\<close>).
\<close>

section \<open>Queues without gaps\<close>

definition sq :: "ChannelMessage \<Rightarrow> nat" where
  "sq m = unat (the (seq_of m))"

fun gapless :: "nat \<Rightarrow> ChannelMessage list \<Rightarrow> bool" where
  "gapless b [] = True"
| "gapless b (m # ms) = (sq m \<le> b + 1 \<and> gapless (max b (sq m)) ms)"

fun reach :: "nat \<Rightarrow> ChannelMessage list \<Rightarrow> nat" where
  "reach b [] = b"
| "reach b (m # ms) = reach (max b (sq m)) ms"

lemma gapless_append: "gapless b (xs @ ys) \<longleftrightarrow> gapless b xs \<and> gapless (reach b xs) ys"
  by (induction xs arbitrary: b) auto

lemma reach_append: "reach b (xs @ ys) = reach (reach b xs) ys"
  by (induction xs arbitrary: b) auto

lemma gapless_mono: "gapless b ms \<Longrightarrow> b \<le> b' \<Longrightarrow> gapless b' ms"
proof (induction ms arbitrary: b b')
  case (Cons m ms)
  have "gapless (max b' (sq m)) ms"
    by (rule Cons.IH [of "max b (sq m)"]) (use Cons.prems in \<open>simp_all add: max.coboundedI1\<close>)
  with Cons.prems show ?case by simp
qed simp

lemma reach_mono: "b \<le> b' \<Longrightarrow> reach b ms \<le> reach b' ms"
proof (induction ms arbitrary: b b')
  case (Cons m ms)
  have "max b (sq m) \<le> max b' (sq m)" using Cons.prems by (simp add: max.coboundedI1)
  from Cons.IH [OF this] show ?case by simp
qed simp

lemma reach_ge: "b \<le> reach b ms"
proof (induction ms arbitrary: b)
  case (Cons m ms)
  from Cons.IH [of "max b (sq m)"] show ?case by simp
qed simp

text \<open>Messages of the input history.\<close>

definition from_hist :: "ChannelMessage list \<Rightarrow> ChannelMessage \<Rightarrow> bool" where
  "from_hist R m \<longleftrightarrow> (\<exists>i < length R. m = R ! i)"

lemma from_hist_grow: "from_hist R m \<Longrightarrow> from_hist (R @ R') m"
  unfolding from_hist_def
proof (elim exE conjE)
  fix i
  assume "i < length R" "m = R ! i"
  then show "\<exists>i < length (R @ R'). m = (R @ R') ! i" by (intro exI [of _ i]) (simp add: nth_append)
qed

lemma from_hist_sq:
  assumes "numbered R" "from_hist R m"
  shows "1 \<le> sq m" "sq m \<le> length R" "m = R ! (sq m - 1)" "seq_of m \<noteq> None"
proof -
  obtain i where i: "i < length R" "m = R ! i" using assms(2) by (auto simp: from_hist_def)
  have s: "seq_of m = Some (of_nat (i + 1))" using numbered_seq [OF assms(1) i(1)] i(2) by simp
  have "sq m = i + 1" using numbered_unat_seq [OF assms(1) i(1)] s i(2) by (simp add: sq_def)
  with i s show "1 \<le> sq m" "sq m \<le> length R" "m = R ! (sq m - 1)" "seq_of m \<noteq> None" by simp_all
qed

lemma sq_nth: "numbered R \<Longrightarrow> i < length R \<Longrightarrow> sq (R ! i) = i + 1"
  using numbered_seq numbered_unat_seq by (fastforce simp: sq_def)

lemma reach_from:
  "numbered R \<Longrightarrow> \<forall>m \<in> set ms. from_hist R m \<Longrightarrow> b \<le> length R \<Longrightarrow> reach b ms \<le> length R"
  by (induction ms arbitrary: b) (auto simp: from_hist_sq)

lemma gapless_drop:
  "numbered R \<Longrightarrow> a \<le> b \<Longrightarrow> gapless b (drop a R) \<and> reach b (drop a R) = max b (length R)"
proof (induction "length R - a" arbitrary: a b)
  case 0
  then show ?case by (simp add: max_def)
next
  case (Suc n)
  then have a: "a < length R" by simp
  then have split: "drop a R = R ! a # drop (Suc a) R" by (simp add: Cons_nth_drop_Suc)
  have IH: "gapless (max b (Suc a)) (drop (Suc a) R)
      \<and> reach (max b (Suc a)) (drop (Suc a) R) = max (max b (Suc a)) (length R)"
    by (rule Suc.hyps(1)) (use Suc in auto)
  with split a Suc.prems sq_nth [OF Suc.prems(1) a] show ?case by (simp add: max_def)
qed

section \<open>The invariant\<close>

abbreviation stdins :: "ChannelMessage list \<Rightarrow> ChannelMessage list" where
  "stdins ms \<equiv> filter is_stdin ms"

text \<open>The stdin messages of the stream that wait in the inbound queue.\<close>

fun stream_item :: "SessionInput \<Rightarrow> ChannelMessage option" where
  "stream_item (Message m) = (if is_stdin m then Some m else None)"
| "stream_item _ = None"

abbreviation waiting :: "System \<Rightarrow> ChannelMessage list" where
  "waiting s \<equiv> List.map_filter stream_item (ses_inbound (sy_session s))"

abbreviation applied :: "System \<Rightarrow> nat" where
  "applied s \<equiv> unat (sy_applied s)"

definition read_inv :: "System \<Rightarrow> bool" where
  "read_inv s \<longleftrightarrow>
     numbered (gh_reads s) \<and> list_all is_stdin (gh_reads s) \<and> client_seq (sy_client s) = of_nat (length (gh_reads s))
     \<and> (\<forall>i < length (gh_reads s). is_eof (gh_reads s ! i) \<longrightarrow> i + 1 = length (gh_reads s) \<and> \<not> cl_stdin_open (sy_client s))
     \<and> applied s \<le> length (gh_reads s)"

definition kept_inv :: "System \<Rightarrow> bool" where
  "kept_inv s \<longleftrightarrow>
     (\<exists>a \<le> applied s. sent_stdin (sy_client s) = drop a (gh_reads s))
     \<and> (\<forall>c x. Ack x \<in> set (cn_down (sy_conns s c)) \<longrightarrow> unat x \<le> applied s)"

definition from_inv :: "System \<Rightarrow> bool" where
  "from_inv s \<longleftrightarrow>
     (\<forall>c. \<forall>m \<in> set (cn_up (sy_conns s c)). is_stdin m \<longrightarrow> from_hist (gh_reads s) m)
     \<and> (\<forall>c. \<forall>m \<in> set (cn_up_dg (sy_conns s c)). from_hist (gh_reads s) m)
     \<and> (\<forall>x \<in> set (ses_inbound (sy_session s)). \<forall>m. x = Message m \<and> is_stdin m \<or> x = DatagramInput m \<longrightarrow> from_hist (gh_reads s) m)
     \<and> (\<forall>c. sy_phase s = Waiting c \<or> cn_req (sy_conns s c) \<noteq> None \<longrightarrow> cn_up (sy_conns s c) = [])"

lemma from_invD:
  assumes "from_inv s"
  shows "m \<in> set (cn_up (sy_conns s c)) \<Longrightarrow> is_stdin m \<Longrightarrow> from_hist (gh_reads s) m"
    "m \<in> set (cn_up_dg (sy_conns s c)) \<Longrightarrow> from_hist (gh_reads s) m"
    "sy_phase s = Waiting c \<or> cn_req (sy_conns s c) \<noteq> None \<Longrightarrow> cn_up (sy_conns s c) = []"
  using assms unfolding from_inv_def by blast+

text \<open>With \<open>A\<close> messages applied and \<open>W\<close> waiting: neither the queue nor an attached stream has a
  gap, and what is on the client's own stream completes the input history.\<close>

definition order_at :: "nat \<Rightarrow> ChannelMessage list \<Rightarrow> System \<Rightarrow> bool" where
  "order_at A W s \<longleftrightarrow>
     gapless A W
     \<and> (\<forall>c. cn_att (sy_conns s c) \<noteq> None \<longrightarrow>
          gapless (reach A W) (stdins (cn_up (sy_conns s c)))
          \<and> (sy_phase s = On c \<longrightarrow> length (gh_reads s) \<le> reach (reach A W) (stdins (cn_up (sy_conns s c)))))"

definition order_inv :: "System \<Rightarrow> bool" where
  "order_inv s \<longleftrightarrow> (sy_task s \<noteq> None \<longrightarrow> order_at (applied s) (waiting s) s)"

lemma order_at_mono:
  assumes "order_at A W s" "A \<le> A'"
  shows "order_at A' W s"
proof -
  have r: "reach A W \<le> reach A' W" using assms(2) by (rule reach_mono)
  show ?thesis
    using assms gapless_mono [OF _ assms(2)] gapless_mono [OF _ r] reach_mono [OF r] order_trans
    unfolding order_at_def by meson
qed

lemma order_at_pop: "order_at A (m # W) s \<Longrightarrow> order_at (max A (sq m)) W s"
  by (simp add: order_at_def)

definition child_inv :: "System \<Rightarrow> bool" where
  "child_inv s \<longleftrightarrow>
     prefix (gh_in s) (stdin_bytes (take (applied s) (gh_reads s)))
     \<and> (\<not> gh_epipe s \<longrightarrow> gh_in s = stdin_bytes (take (applied s) (gh_reads s)))
     \<and> (\<forall>st. sy_task s = Some st \<longrightarrow>
          (io_stdin st \<noteq> None \<longrightarrow> gh_in s = stdin_bytes (take (applied s) (gh_reads s)))
          \<and> (io_stdin st = None \<longrightarrow> \<not> gh_epipe s \<longrightarrow> 0 < applied s \<and> is_eof (gh_reads s ! (applied s - 1))))"

definition alive_inv :: "System \<Rightarrow> bool" where
  "alive_inv s \<longleftrightarrow> ses_task_alive (sy_session s) = (sy_task s \<noteq> None)"

definition up_inv :: "System \<Rightarrow> bool" where
  "up_inv s \<longleftrightarrow> alive_inv s \<and>
     (\<not> gh_lost s \<longrightarrow> read_inv s \<and> kept_inv s \<and> from_inv s \<and> order_inv s \<and> child_inv s)"

lemma up_inv_init:
  assumes "io_stdin io \<noteq> None"
  shows "up_inv (sys_init tok io agent now)"
  using assms
  by (auto simp: up_inv_def alive_inv_def read_inv_def kept_inv_def from_inv_def order_inv_def child_inv_def
      order_at_def sys_init_def fresh_session_def no_conn_def client_init_def started_message_def session_task_start_def Let_def
      map_filter_simps)

section \<open>The task\<close>

definition event_item :: "TaskEvent \<Rightarrow> (bool \<times> ChannelMessage) option" where
  "event_item ev = (case ev of Inbound (Some x) \<Rightarrow> stdin_item x | _ \<Rightarrow> None)"

text \<open>The exit check changes nothing about stdin.\<close>

lemma task_exit_check_stdin:
  "task_exit_check st sh = (out, sh') \<Longrightarrow>
   sh_stdin_applied sh' = sh_stdin_applied sh \<and> (\<forall>st'. out = TaskRunning st' \<longrightarrow> st' = st)"
  by (auto simp: task_exit_check_def task_log_def Let_def split: option.splits if_splits)

text \<open>A step without a stdin message leaves the child's input alone.\<close>

lemma task_select_quiet:
  assumes "event_item ev = None" "task_select env ev st sh = (out, sh', eff)"
  shows "sh_stdin_applied sh' = sh_stdin_applied sh \<and> written eff = []
    \<and> (\<forall>st'. out = TaskRunning st' \<longrightarrow> io_stdin st' = io_stdin st)"
proof (cases ev)
  case (Inbound inp)
  show ?thesis
    using assms Inbound
    by (cases "(env, inp, st, sh)" rule: task_inbound.cases)
       (auto simp: event_item_def abort_session_def split: if_splits)
qed (use assms in \<open>auto simp: task_log_def task_exit_read_def Let_def split: ReadResult.splits if_splits\<close>)

lemma session_task_step_select:
  assumes "session_task_step env ev st sh = (out, sh', eff)"
  obtains o1 sh1 where "task_select env ev st sh = (o1, sh1, eff)" "sh_stdin_applied sh' = sh_stdin_applied sh1"
    "\<forall>st'. out = TaskRunning st' \<longrightarrow> o1 = TaskRunning st'"
proof -
  obtain o1 sh1 eff1 where sel: "task_select env ev st sh = (o1, sh1, eff1)" by (metis prod_cases3)
  show thesis
  proof (cases o1)
    case (TaskRunning st1)
    obtain out' sh2 where chk: "task_exit_check st1 sh1 = (out', sh2)" by force
    have e: "out = out'" "sh' = sh2" "eff = eff1" using assms sel TaskRunning chk by (simp_all add: session_task_step_def)
    show thesis
      by (rule that [of o1 sh1]) (use sel e task_exit_check_stdin [OF chk] TaskRunning in auto)
  qed (rule that [of o1 sh1]; use sel assms in \<open>simp add: session_task_step_def\<close>)+
qed

lemma task_step_quiet:
  assumes "event_item ev = None" "session_task_step env ev st sh = (out, sh', eff)"
  shows "sh_stdin_applied sh' = sh_stdin_applied sh \<and> written eff = []
    \<and> (\<forall>st'. out = TaskRunning st' \<longrightarrow> io_stdin st' = io_stdin st)"
proof -
  from assms(2) obtain o1 sh1 where s: "task_select env ev st sh = (o1, sh1, eff)"
    "sh_stdin_applied sh' = sh_stdin_applied sh1" "\<forall>st'. out = TaskRunning st' \<longrightarrow> o1 = TaskRunning st'"
    by (rule session_task_step_select)
  from task_select_quiet [OF assms(1) s(1)] s(2,3) show ?thesis by metis
qed

text \<open>A stdin message is dropped or applied.\<close>

lemma task_select_item:
  assumes "event_item ev = Some (r, m)" "seq_of m = Some q" "task_select env ev st sh = (out, sh', eff)"
  shows "\<exists>st'. out = TaskRunning st' \<and>
     (if stdin_accepts q (last_client_seq st) r
      then sh_stdin_applied sh' = q
        \<and> written eff = (if io_stdin st = None \<or> is_eof m then [] else write_out (env_write env) (stdin_of m))
        \<and> io_stdin st' = (if is_eof m \<or> env_write env \<noteq> WriteOk then None else io_stdin st)
      else sh' = sh \<and> written eff = [] \<and> io_stdin st' = io_stdin st)"
proof -
  obtain x where ev: "ev = Inbound (Some x)" "stdin_item x = Some (r, m)"
    using assms(1) by (auto simp: event_item_def split: TaskEvent.splits option.splits)
  have data: "\<exists>st'. TaskRunning (fst (apply_stdin (env_write env) q d st sh)) = TaskRunning st'
      \<and> sh_stdin_applied (fst (snd (apply_stdin (env_write env) q d st sh))) = q
      \<and> written (snd (snd (apply_stdin (env_write env) q d st sh))) = (if io_stdin st = None then [] else write_out (env_write env) d)
      \<and> io_stdin st' = (if env_write env \<noteq> WriteOk then None else io_stdin st)" for d
    by (cases "io_stdin st"; cases "env_write env") (simp_all add: apply_stdin_def write_out_def)
  from ev(2) show ?thesis
  proof (cases x rule: stdin_item.cases)
    case (1 s d)
    with ev assms(2,3) data [of d] show ?thesis by (auto simp: split_beta split: if_splits)
  next
    case (2 s)
    with ev assms(2,3) show ?thesis
      by (cases "io_stdin st") (auto simp: close_stdin_def split: if_splits)
  next
    case (3 s d)
    with ev assms(2,3) data [of d] show ?thesis by (auto simp: split_beta split: if_splits)
  qed auto
qed

lemma task_step_item:
  assumes "event_item ev = Some (r, m)" "seq_of m = Some q" "session_task_step env ev st sh = (out, sh', eff)"
  shows "if stdin_accepts q (last_client_seq st) r
      then sh_stdin_applied sh' = q
        \<and> written eff = (if io_stdin st = None \<or> is_eof m then [] else write_out (env_write env) (stdin_of m))
        \<and> (\<forall>st'. out = TaskRunning st' \<longrightarrow> io_stdin st' = (if is_eof m \<or> env_write env \<noteq> WriteOk then None else io_stdin st))
      else sh_stdin_applied sh' = sh_stdin_applied sh \<and> written eff = []
        \<and> (\<forall>st'. out = TaskRunning st' \<longrightarrow> io_stdin st' = io_stdin st)"
proof -
  from assms(3) obtain o1 sh1 where s: "task_select env ev st sh = (o1, sh1, eff)"
    "sh_stdin_applied sh' = sh_stdin_applied sh1" "\<forall>st'. out = TaskRunning st' \<longrightarrow> o1 = TaskRunning st'"
    by (rule session_task_step_select)
  from task_select_item [OF assms(1,2) s(1)] s(2,3) show ?thesis
    by (cases "stdin_accepts q (last_client_seq st) r") fastforce+
qed

text \<open>How one step of the task moves the input side.\<close>

lemma task_act_input:
  assumes "session_task_step env ev st (ses_shared (sy_session s)) = (out, sh', eff)" "s' = task_act env ev st s"
  shows "sy_applied s' = sh_stdin_applied sh'" "gh_in s' = gh_in s @ written eff"
    "gh_epipe s' = (gh_epipe s \<or> env_write env \<noteq> WriteOk)"
    "sy_task s' = (case out of TaskRunning st' \<Rightarrow> Some st' | _ \<Rightarrow> None)"
    "ses_inbound (sy_session s') = (case ev of Inbound (Some _) \<Rightarrow> tl (ses_inbound (sy_session s)) | _ \<Rightarrow> ses_inbound (sy_session s))"
    "alive_inv s'"
  using assms by (auto simp: task_act_def Let_def alive_inv_def split: TaskOutcome.splits)

lemma from_inv_task:
  assumes "from_inv s" "s' = task_act env ev st s"
  shows "from_inv s'"
proof -
  obtain out sh' eff where st: "session_task_step env ev st (ses_shared (sy_session s)) = (out, sh', eff)"
    by (metis prod_cases3)
  have "set (ses_inbound (sy_session s')) \<subseteq> set (ses_inbound (sy_session s))"
    by (auto simp: task_act_input(5) [OF st assms(2)] split: TaskEvent.splits option.splits dest: list.set_sel(2) [rotated])
       (metis list.sel(2) list.set_sel(2))
  with assms show ?thesis by (fastforce simp: from_inv_def task_act_frame)
qed

lemma up_inv_task_quiet:
  assumes "up_inv s" "sy_task s = Some st" "task_may tok ev s" "event_item ev = None"
  shows "up_inv (task_act env ev st s)"
proof -
  let ?s = "task_act env ev st s"
  obtain out sh' eff where st: "session_task_step env ev st (ses_shared (sy_session s)) = (out, sh', eff)"
    by (metis prod_cases3)
  note f = task_act_input [OF st refl]
  have q: "sh_stdin_applied sh' = sy_applied s" "written eff = []"
    "\<And>st'. out = TaskRunning st' \<Longrightarrow> io_stdin st' = io_stdin st"
    using task_step_quiet [OF assms(4) st] by blast+
  have app: "sy_applied ?s = sy_applied s" using f(1) q by simp
  have wait: "waiting ?s = waiting s"
  proof (cases "\<exists>x. ev = Inbound (Some x)")
    case True
    then obtain x xs where ev: "ev = Inbound (Some x)" "ses_inbound (sy_session s) = x # xs"
      using assms(3) by (cases "ses_inbound (sy_session s)") auto
    have "stream_item x = None"
      using ev(1) assms(4) by (cases x rule: stdin_item.cases) (auto simp: event_item_def)
    then show ?thesis using ev f(5) by (simp add: map_filter_simps)
  next
    case False
    then show ?thesis using f(5) by (auto split: TaskEvent.splits option.splits)
  qed
  have io: "io_stdin st' = io_stdin st" if "sy_task ?s = Some st'" for st'
    by (rule q(3)) (use that f(4) in \<open>cases out; simp\<close>)
  have "order_inv ?s" if "order_inv s"
    using that assms(2) app wait by (simp add: order_inv_def order_at_def task_act_frame)
  moreover have "child_inv ?s" if "child_inv s"
    unfolding child_inv_def
  proof (intro conjI allI impI)
    fix st'
    assume st': "sy_task ?s = Some st'"
    show "gh_in ?s = stdin_bytes (take (applied ?s) (gh_reads ?s))" if "io_stdin st' \<noteq> None"
      using that io [OF st'] \<open>child_inv s\<close> assms(2) app f(2) q(2) by (simp add: child_inv_def task_act_frame)
    show "0 < applied ?s" "is_eof (gh_reads ?s ! (applied ?s - 1))" if "io_stdin st' = None" "\<not> gh_epipe ?s"
      using that io [OF st'] \<open>child_inv s\<close> assms(2) app f(3) by (simp_all add: child_inv_def task_act_frame)
  qed (use \<open>child_inv s\<close> app f(2,3) q(2) in \<open>simp_all add: child_inv_def task_act_frame\<close>)
  ultimately show ?thesis
    using assms(1) f(6) app from_inv_task [OF _ refl, of s env ev st]
    by (simp add: up_inv_def read_inv_def kept_inv_def task_act_frame)
qed

text \<open>A stdin message that the task takes from its queue is the next one or is dropped.\<close>

lemma task_item_position:
  assumes "read_inv s" "from_inv s" "log_inv s" "sy_task s = Some st" "order_inv s"
    and "ses_inbound (sy_session s) = x # xs" "stdin_item x = Some (r, m)" "seq_of m = Some q"
    and "stdin_accepts q (last_client_seq st) r"
  shows "unat q = applied s + 1" "applied s < length (gh_reads s)" "m = gh_reads s ! applied s"
proof -
  have num: "numbered (gh_reads s)" and le: "applied s \<le> length (gh_reads s)" using assms(1) by (auto simp: read_inv_def)
  have fh: "from_hist (gh_reads s) m"
    using assms(2,6,7) by (cases x rule: stdin_item.cases) (auto simp: from_inv_def)
  have last: "last_client_seq st = sy_applied s" using assms(3,4) by (auto simp: log_inv_def task_ok_def)
  note h = from_hist_sq [OF num fh]
  have sm: "sq m = unat q" using assms(8) by (simp add: sq_def)
  have gap: "sq m - 1 \<le> applied s" if "r"
  proof -
    have "stream_item x = Some m" using assms(7) that by (cases x rule: stdin_item.cases) auto
    then have "waiting s = m # List.map_filter stream_item xs" using assms(6) by (simp add: map_filter_simps)
    with assms(4,5) show ?thesis by (auto simp: order_inv_def order_at_def)
  qed
  have i: "sq m - 1 < length (gh_reads s)" "seq_of (gh_reads s ! (sq m - 1)) = Some q" using h assms(8) by auto
  note a = stdin_rx.accept_next [OF num i le _ assms(9) [unfolded last]]
  show "unat q = applied s + 1" using a(3) gap by blast
  have "sq m - 1 = applied s" using a(1) gap by blast
  with i(1) h(3) show "applied s < length (gh_reads s)" "m = gh_reads s ! applied s" by simp_all
qed

lemma child_inv_apply:
  assumes "child_inv s" "read_inv s" "sy_task s = Some st" "applied s < length (gh_reads s)" "m = gh_reads s ! applied s"
    and "applied s' = applied s + 1" "gh_reads s' = gh_reads s" "gh_epipe s' = (gh_epipe s \<or> wr \<noteq> WriteOk)"
    and "gh_in s' = gh_in s @ (if io_stdin st = None \<or> is_eof m then [] else write_out wr (stdin_of m))"
    and "\<And>st'. sy_task s' = Some st' \<Longrightarrow> io_stdin st' = (if is_eof m \<or> wr \<noteq> WriteOk then None else io_stdin st)"
  shows "child_inv s'"
proof -
  let ?old = "stdin_bytes (take (applied s) (gh_reads s))"
  have new: "stdin_bytes (take (applied s') (gh_reads s')) = ?old @ stdin_of m"
    using assms(4-7) by (simp add: take_Suc_conv_app_nth)
  have eof: "is_eof m \<Longrightarrow> stdin_of m = []" by (cases m) auto
  have closed: "gh_epipe s" if "io_stdin st = None"
  proof (rule ccontr)
    assume "\<not> gh_epipe s"
    with assms(1,3) that have "0 < applied s" "is_eof (gh_reads s ! (applied s - 1))" by (auto simp: child_inv_def)
    moreover have "applied s - 1 < length (gh_reads s)" using assms(4) by simp
    ultimately have "applied s - 1 + 1 = length (gh_reads s)" using assms(2) unfolding read_inv_def by blast
    with \<open>0 < applied s\<close> assms(4) show False by simp
  qed
  have open_eq: "gh_in s = ?old" if "io_stdin st \<noteq> None" using that assms(1,3) by (auto simp: child_inv_def)
  have pre: "prefix (gh_in s) ?old" using assms(1) by (simp add: child_inv_def)
  have full: "gh_in s' = ?old @ stdin_of m" if "io_stdin st \<noteq> None" "is_eof m \<or> wr = WriteOk"
    using that open_eq eof assms(9) by auto
  have "prefix (gh_in s') (?old @ stdin_of m)"
    using pre open_eq assms(9) eof write_out_prefix [of "[]" "stdin_of m" "stdin_of m" wr] by (auto simp: prefix_prefix)
  moreover have "gh_in s' = ?old @ stdin_of m" if "\<not> gh_epipe s'"
    using that full closed assms(8) by blast
  moreover have "gh_in s' = ?old @ stdin_of m" if "sy_task s' = Some st'" "io_stdin st' \<noteq> None" for st'
    using that full assms(10) [OF that(1)] by (auto split: if_splits)
  moreover have "is_eof m" if "sy_task s' = Some st'" "io_stdin st' = None" "\<not> gh_epipe s'" for st'
    using that assms(8) assms(10) [OF that(1)] closed by (auto split: if_splits)
  ultimately show ?thesis
    unfolding child_inv_def new using assms(5-7) by auto
qed

lemma up_inv_task_item:
  assumes "up_inv s" "log_inv s" "sy_task s = Some st" "task_may tok ev s" "event_item ev = Some (r, m)"
  shows "up_inv (task_act env ev st s)"
proof -
  let ?s = "task_act env ev st s"
  obtain x xs where ev: "ev = Inbound (Some x)" "ses_inbound (sy_session s) = x # xs" "stdin_item x = Some (r, m)"
    using assms(4,5) by (cases "ses_inbound (sy_session s)")
      (auto simp: event_item_def split: TaskEvent.splits option.splits)
  obtain out sh' eff where st: "session_task_step env ev st (ses_shared (sy_session s)) = (out, sh', eff)"
    by (metis prod_cases3)
  note f = task_act_input [OF st refl]
  have run: "\<And>st'. sy_task ?s = Some st' \<Longrightarrow> out = TaskRunning st'" using f(4) by (cases out) auto
  obtain q where q: "seq_of m = Some q" using ev(3) by (cases x rule: stdin_item.cases) auto
  note it = task_step_item [OF assms(5) q st]
  have wait: "waiting s = (if r then m # waiting ?s else waiting ?s)"
    using ev f(5) by (cases x rule: stdin_item.cases) (auto simp: map_filter_simps)
  have "read_inv ?s \<and> kept_inv ?s \<and> order_inv ?s \<and> child_inv ?s"
    if inv: "read_inv s" "kept_inv s" "from_inv s" "order_inv s" "child_inv s"
  proof (cases "stdin_accepts q (last_client_seq st) r")
    case True
    note pos = task_item_position [OF inv(1,3) assms(2,3) inv(4) ev(2,3) q True]
    have app: "applied ?s = applied s + 1" using it True f(1) pos(1) by simp
    have "sq m = applied s + 1" using q pos(1) by (simp add: sq_def)
    then have "order_inv ?s"
      using inv(4) assms(3) wait app order_at_pop [of "applied s" m "waiting ?s" s]
        order_at_mono [of "applied s" "waiting ?s" s "applied s + 1"]
      by (cases r) (simp_all add: order_inv_def order_at_def task_act_frame)
    moreover have "child_inv ?s"
      by (rule child_inv_apply [OF inv(5,1) assms(3) pos(2,3) app _ f(3)])
         (use it True f(2) run in \<open>auto simp: task_act_frame\<close>)
    moreover have "read_inv ?s" using inv(1) app pos(2) by (simp add: read_inv_def task_act_frame)
    moreover have "kept_inv ?s" unfolding kept_inv_def task_act_frame app
      using inv(2) by (meson kept_inv_def le_SucI Suc_eq_plus1 trans_le_add1)
    ultimately show ?thesis by simp
  next
    case False
    have app: "sy_applied ?s = sy_applied s" using it False f(1) by simp
    have io: "\<And>st'. sy_task ?s = Some st' \<Longrightarrow> io_stdin st' = io_stdin st" using it False run by auto
    have ep: "gh_in ?s = gh_in s" "gh_epipe ?s \<or> gh_epipe ?s = gh_epipe s" using it False f(2,3) by auto
    have last: "last_client_seq st = sy_applied s" using assms(2,3) by (auto simp: log_inv_def task_ok_def)
    have "sq m \<le> applied s" if r
      using that False q last by (simp add: stdin_accepts_def sq_def u64_less)
    then have "order_inv ?s"
      using inv(4) assms(3) wait app order_at_pop [of "applied s" m "waiting ?s" s]
      by (cases r) (simp_all add: order_inv_def order_at_def task_act_frame max_absorb1)
    moreover have "child_inv ?s"
      unfolding child_inv_def
    proof (intro conjI allI impI)
      fix st'
      assume st': "sy_task ?s = Some st'"
      show "gh_in ?s = stdin_bytes (take (applied ?s) (gh_reads ?s))" if "io_stdin st' \<noteq> None"
        using that io [OF st'] inv(5) assms(3) app ep(1) by (simp add: child_inv_def task_act_frame)
      show "0 < applied ?s" "is_eof (gh_reads ?s ! (applied ?s - 1))" if "io_stdin st' = None" "\<not> gh_epipe ?s"
        using that io [OF st'] inv(5) assms(3) app f(3) by (simp_all add: child_inv_def task_act_frame)
    qed (use inv(5) app f(3) ep(1) in \<open>simp_all add: child_inv_def task_act_frame\<close>)
    ultimately show ?thesis using inv(1,2) app by (simp add: read_inv_def kept_inv_def task_act_frame)
  qed
  with assms(1) f(6) from_inv_task [OF _ refl, of s env ev st] show ?thesis
    by (simp add: up_inv_def task_act_frame)
qed

section \<open>The attach loops\<close>

text \<open>Steps of the server leave the client and the task alone.\<close>

lemma up_inv_server:
  assumes "up_inv s"
    and "sy_phase s' = sy_phase s" "sy_client s' = sy_client s" "sy_task s' = sy_task s" "sy_applied s' = sy_applied s"
    and "ses_task_alive (sy_session s') = ses_task_alive (sy_session s)"
    and "gh_reads s' = gh_reads s" "gh_lost s' = gh_lost s" "gh_in s' = gh_in s" "gh_epipe s' = gh_epipe s"
    and "\<forall>x \<in> set (ses_inbound (sy_session s')). x \<in> set (ses_inbound (sy_session s))
      \<or> (\<forall>m. x = Message m \<and> is_stdin m \<or> x = DatagramInput m \<longrightarrow> from_inv s \<longrightarrow> from_hist (gh_reads s) m)"
    and "\<And>c. set (cn_up (sy_conns s' c)) \<subseteq> set (cn_up (sy_conns s c))"
    and "\<And>c. cn_up_dg (sy_conns s' c) = cn_up_dg (sy_conns s c)"
    and "\<And>c. cn_req (sy_conns s' c) \<noteq> None \<Longrightarrow> cn_req (sy_conns s c) \<noteq> None"
    and "\<And>c x. Ack x \<in> set (cn_down (sy_conns s' c)) \<Longrightarrow> Ack x \<in> set (cn_down (sy_conns s c)) \<or> x = sy_applied s"
    and "\<not> gh_lost s \<Longrightarrow> order_inv s \<Longrightarrow> from_inv s \<Longrightarrow> order_inv s'"
  shows "up_inv s'"
proof -
  have "from_inv s'" if fi: "from_inv s"
    unfolding from_inv_def
  proof (intro conjI allI ballI impI)
    fix c
    assume "sy_phase s' = Waiting c \<or> cn_req (sy_conns s' c) \<noteq> None"
    then have "sy_phase s = Waiting c \<or> cn_req (sy_conns s c) \<noteq> None" using assms(2,14) by metis
    then have "cn_up (sy_conns s c) = []" using fi unfolding from_inv_def by blast
    then show "cn_up (sy_conns s' c) = []" using assms(12) [of c] by simp
  next
    fix x m
    assume x: "x \<in> set (ses_inbound (sy_session s'))" "x = Message m \<and> is_stdin m \<or> x = DatagramInput m"
    with assms(11) fi have "x \<in> set (ses_inbound (sy_session s)) \<or> from_hist (gh_reads s) m" by blast
    with fi x(2) show "from_hist (gh_reads s') m" unfolding assms(7) from_inv_def by blast
  next
    fix c m
    assume "m \<in> set (cn_up (sy_conns s' c))" "is_stdin m"
    from subsetD [OF assms(12) this(1)] this(2) fi show "from_hist (gh_reads s') m" by (simp add: from_inv_def assms(7))
  next
    fix c m
    assume "m \<in> set (cn_up_dg (sy_conns s' c))"
    with fi show "from_hist (gh_reads s') m" unfolding assms(7,13) from_inv_def by blast
  qed
  moreover have "kept_inv s'" if "kept_inv s"
    unfolding kept_inv_def assms(3,5,7)
  proof (intro conjI allI impI)
    fix c x
    assume "Ack x \<in> set (cn_down (sy_conns s' c))"
    from assms(15) [OF this] that show "unat x \<le> applied s" by (elim disjE) (simp_all add: kept_inv_def)
  qed (use that in \<open>simp add: kept_inv_def\<close>)
  moreover have "read_inv s' = read_inv s" unfolding read_inv_def assms(3,5,7) by simp
  moreover have "child_inv s' = child_inv s" unfolding child_inv_def assms(4,5,7,9,10) by simp
  moreover have "alive_inv s' = alive_inv s" unfolding alive_inv_def assms(4,6) by simp
  ultimately show ?thesis using assms(1,16) by (simp add: up_inv_def assms(8))
qed

text \<open>Queue and streams unchanged; an attachment may end, or begin before anything was sent.\<close>

lemma order_inv_same:
  assumes "order_inv s" "sy_phase s' = sy_phase s" "sy_task s' \<noteq> None \<Longrightarrow> sy_task s \<noteq> None" "sy_applied s' = sy_applied s"
    "gh_reads s' = gh_reads s" "waiting s' = waiting s"
    and "\<And>c. stdins (cn_up (sy_conns s' c)) = stdins (cn_up (sy_conns s c))"
    and "\<And>c. cn_att (sy_conns s' c) \<noteq> None \<Longrightarrow>
      cn_att (sy_conns s c) \<noteq> None \<or> cn_up (sy_conns s c) = [] \<and> sy_phase s \<noteq> On c"
  shows "order_inv s'"
  unfolding order_inv_def order_at_def
proof (intro impI conjI allI)
  assume "sy_task s' \<noteq> None"
  then have o: "order_at (applied s) (waiting s) s" using assms(1,3) unfolding order_inv_def by blast
  show "gapless (applied s') (waiting s')" using o assms(4,6) by (simp add: order_at_def)
  fix c
  assume att: "cn_att (sy_conns s' c) \<noteq> None"
  from o have c: "cn_att (sy_conns s c) \<noteq> None \<Longrightarrow> gapless (reach (applied s) (waiting s)) (stdins (cn_up (sy_conns s c)))"
    "cn_att (sy_conns s c) \<noteq> None \<Longrightarrow> sy_phase s = On c \<Longrightarrow>
      length (gh_reads s) \<le> reach (reach (applied s) (waiting s)) (stdins (cn_up (sy_conns s c)))"
    by (simp_all add: order_at_def)
  show "gapless (reach (applied s') (waiting s')) (stdins (cn_up (sy_conns s' c)))"
    using assms(8) [OF att] c(1) unfolding assms(4,6,7) by (elim disjE conjE) simp_all
  show "length (gh_reads s') \<le> reach (reach (applied s') (waiting s')) (stdins (cn_up (sy_conns s' c)))"
    if "sy_phase s' = On c"
    using assms(8) [OF att] c(2) that unfolding assms(2,4,5,6,7) by (elim disjE conjE) simp_all
qed

lemma send_loop_sent: "set (fst (attach_send_loop fails ms a)) \<subseteq> set ms"
proof (induction ms arbitrary: fails a)
  case (Cons m ms)
  consider "fails = None" | e where "fails = Some (0, e)" | n e where "fails = Some (Suc n, e)"
    by (metis old.nat.exhaust option.exhaust surj_pair)
  then show ?case by cases (simp_all add: Let_def split_beta subset_insertI2 Cons.IH)
qed simp

lemma flush_sent: "x \<in> set (fst (attach_flush fails a ses)) \<Longrightarrow> x \<in> set (log_buffer (sh_log (ses_shared ses)))"
  using send_loop_sent [of fails "log_after (sh_log (ses_shared ses)) (sent_up_to a)" a]
  by (auto simp: attach_flush_def log_after_def split_beta split: option.splits dest: in_set_dropD)

lemma map_filter_aborts [simp]: "List.map_filter stream_item (xs @ replicate n Abort) = List.map_filter stream_item xs"
  by (induction xs) (auto simp: map_filter_simps split: option.splits, induction n, auto simp: map_filter_simps)

lemma up_inv_flush:
  assumes "up_inv s" "log_inv s" "cn_att (sy_conns s c) = Some a"
  shows "up_inv (flush_act fails now c a s)"
proof (rule up_inv_server [OF assms(1)])
  fix c' x
  have "list_all is_output (log_buffer (sy_log s))"
    using assms(2) by (auto simp: log_inv_def log_holds_def list_all_iff dest: in_set_dropD)
  then have "Ack x \<notin> set (fst (attach_flush fails a (sy_session s)))"
    using flush_sent [of "Ack x" fails a "sy_session s"] by (auto simp: list_all_iff dest: bspec [of _ _ "Ack x"])
  then show "Ack x \<in> set (cn_down (sy_conns s c')) \<or> x = sy_applied s"
    if "Ack x \<in> set (cn_down (sy_conns (flush_act fails now c a s) c'))"
    using that by (auto simp: flush_act_def split_beta split: if_splits)
next
  show "order_inv (flush_act fails now c a s)" if "order_inv s"
    by (rule order_inv_same [OF that])
       (use assms(3) in \<open>auto simp: flush_act_frame, auto simp: flush_act_def split_beta split: if_splits\<close>)
qed (simp_all add: flush_act_frame)

lemma up_inv_ack:
  assumes "up_inv s" "cn_att (sy_conns s c) = Some a"
  shows "up_inv (ack_act fails now c a s)"
proof (rule up_inv_server [OF assms(1)])
  fix c' x
  obtain sent out where ak: "attach_ack fails a (sy_session s) = (sent, out)" by force
  show "Ack x \<in> set (cn_down (sy_conns s c')) \<or> x = sy_applied s"
    if "Ack x \<in> set (cn_down (sy_conns (ack_act fails now c a s) c'))"
    using that attach_ack_cases [OF ak] ak by (auto simp: ack_act_def split: if_splits)
next
  show "order_inv (ack_act fails now c a s)" if "order_inv s"
    by (rule order_inv_same [OF that])
       (use assms(2) in \<open>auto simp: ack_act_frame, auto simp: ack_act_def split_beta split: if_splits\<close>)
qed (simp_all add: ack_act_frame)

lemma up_inv_expire:
  assumes "up_inv s"
  shows "up_inv (expire_act tok s)"
proof -
  obtain n where n: "ses_inbound (sy_session (expire_act tok s)) = ses_inbound (sy_session s) @ replicate n Abort"
    using expire_act_inbound by blast
  show ?thesis
  proof (rule up_inv_server [OF assms])
    show "order_inv (expire_act tok s)" if "order_inv s"
      by (rule order_inv_same [OF that]) (simp_all add: expire_act_frame n)
  qed (auto simp: expire_act_frame n)
qed

lemma up_inv_accept:
  assumes "up_inv s" "down_inv s" "cn_req (sy_conns s c) = Some req"
  shows "up_inv (accept_act now c req s)"
proof (rule up_inv_server [OF assms(1)])
  have off: "sy_phase s \<noteq> On c"
    using assms(2,3) by (auto simp: down_inv_def cur_ok_def conn_ok_def)
  fix c' x
  show "Ack x \<in> set (cn_down (sy_conns s c')) \<or> x = sy_applied s"
    if "Ack x \<in> set (cn_down (sy_conns (accept_act now c req s) c'))"
    using that
    by (auto simp: accept_act_def handle_request_def Let_def deny_def started_message_def
        split: ExecRequest.splits option.splits if_splits)
  show "cn_req (sy_conns s c') \<noteq> None" if "cn_req (sy_conns (accept_act now c req s) c') \<noteq> None"
    using that by (auto simp: accept_act_def Let_def split_beta split: Handshake.splits if_splits)
  show "order_inv (accept_act now c req s)" if "order_inv s" "from_inv s"
  proof (rule order_inv_same [OF that(1)])
    fix c'
    show "cn_att (sy_conns s c') \<noteq> None \<or> cn_up (sy_conns s c') = [] \<and> sy_phase s \<noteq> On c'"
      if "cn_att (sy_conns (accept_act now c req s) c') \<noteq> None"
      using that \<open>from_inv s\<close> assms(3) off
      by (cases "c' = c") (auto simp: from_inv_def accept_act_def Let_def split_beta split: Handshake.splits)
  qed (auto simp: accept_act_frame)
qed (simp_all add: accept_act_frame)


text \<open>One select branch of an attach loop: what it takes from the stream goes to the end of the
  queue, as long as the task runs.\<close>

lemma attach_select_queue:
  assumes "attach_select dec tok ev a r ses = (out, r', ses')"
  shows "ses_inbound ses' = ses_inbound ses \<or> ses_inbound ses' = ses_inbound ses @ [Abort]
    \<or> (\<exists>now bs m. ev = ChannelEvent now (Datagram bs) \<and> dec bs = Inr m \<and> ses_inbound ses' = ses_inbound ses @ [DatagramInput m])
    \<or> (\<exists>now bs m. ev = ChannelEvent now (Frame bs) \<and> dec bs = Inr m \<and> ses_inbound ses' = ses_inbound ses @ [Message m])"
  using assms
  by (cases "(dec, tok, ev, a, r, ses)" rule: attach_select.cases)
     (auto simp: Let_def attach_message_cases abandon_def session_trim_def inbound_send_ok_def inbound_send_def
        split: if_splits option.splits Event.splits sum.splits ChannelMessage.splits)

lemma attach_select_stdin:
  assumes "attach_select dec tok (ChannelEvent now (Frame bs)) a r ses = (out, r', ses')" "dec bs = Inr m"
    and "is_stdin m" "ses_task_alive ses"
  shows "ses_inbound ses' = ses_inbound ses @ [Message m]"
  using assms by (cases m) (auto simp: inbound_send_ok_def inbound_send_def)

lemma map_filter_snoc:
  "List.map_filter f (xs @ [x]) = List.map_filter f xs @ (case f x of Some y \<Rightarrow> [y] | None \<Rightarrow> [])"
  by (induction xs) (auto simp: map_filter_simps split: option.splits)

lemma order_inv_frame:
  assumes "order_inv s" "alive_inv s" "sy_phase s' = sy_phase s" "sy_task s' = sy_task s" "sy_applied s' = sy_applied s"
    and "gh_reads s' = gh_reads s" "cn_att (sy_conns s c) \<noteq> None" "stdins (cn_up (sy_conns s c)) = m # stdins (cn_up (sy_conns s' c))"
    and "ses_task_alive (sy_session s) \<Longrightarrow> waiting s' = waiting s @ [m]"
    and "\<And>c'. c' \<noteq> c \<Longrightarrow> sy_conns s' c' = sy_conns s c'"
  shows "order_inv s'"
  unfolding order_inv_def order_at_def
proof (intro impI conjI allI)
  assume run: "sy_task s' \<noteq> None"
  let ?r = "reach (applied s) (waiting s)"
  have o: "order_at (applied s) (waiting s) s" and w: "waiting s' = waiting s @ [m]"
    using run assms(1,2,4,9) by (simp_all add: order_inv_def alive_inv_def)
  have c: "sq m \<le> ?r + 1" "gapless (max ?r (sq m)) (stdins (cn_up (sy_conns s' c)))"
    using o assms(7,8) by (auto simp: order_at_def)
  have r: "reach (applied s') (waiting s') = max ?r (sq m)" by (simp add: assms(5) w reach_append)
  show "gapless (applied s') (waiting s')" using o c(1) by (simp add: order_at_def assms(5) w gapless_append)
  fix c'
  assume att: "cn_att (sy_conns s' c') \<noteq> None"
  show "gapless (reach (applied s') (waiting s')) (stdins (cn_up (sy_conns s' c')))"
  proof (cases "c' = c")
    case False
    then have "gapless ?r (stdins (cn_up (sy_conns s c')))" using o att assms(10) by (simp add: order_at_def)
    then show ?thesis unfolding r assms(10) [OF False] by (rule gapless_mono) simp
  qed (simp add: r c(2))
  assume on: "sy_phase s' = On c'"
  show "length (gh_reads s') \<le> reach (reach (applied s') (waiting s')) (stdins (cn_up (sy_conns s' c')))"
  proof (cases "c' = c")
    case True
    with o on assms(3,7) have "length (gh_reads s) \<le> reach ?r (stdins (cn_up (sy_conns s c)))" by (simp add: order_at_def)
    with True show ?thesis by (simp add: r assms(6,8))
  next
    case False
    then have "length (gh_reads s) \<le> reach ?r (stdins (cn_up (sy_conns s c')))"
      using o on att assms(3,10) by (simp add: order_at_def)
    also have "\<dots> \<le> reach (max ?r (sq m)) (stdins (cn_up (sy_conns s c')))" by (rule reach_mono) simp
    finally show ?thesis using False by (simp add: r assms(6,10))
  qed
qed

lemma up_inv_server_act:
  assumes "up_inv s" "cn_att (sy_conns s c) = Some a" "server_may dec ev (sy_conns s c)"
  shows "up_inv (server_act tok dec ev now c a s)"
proof -
  let ?s = "server_act tok dec ev now c a s"
  obtain out r' ses' where sel: "attach_select dec tok ev a (sy_registry s) (sy_session s) = (out, r', ses')"
    by (metis prod_cases3)
  have ses: "ses_inbound (sy_session ?s) = ses_inbound ses'" "ses_task_alive (sy_session ?s) = ses_task_alive ses'"
    "ses_shared (sy_session ?s) = ses_shared ses'" using sel by (simp_all add: server_act_def)
  note sh = attach_select_shared [OF sel]
  have att: "cn_att (sy_conns s c') \<noteq> None" if "cn_att (sy_conns ?s c') \<noteq> None" for c'
    using that assms(2) sel by (auto simp: server_act_def split: if_splits)
  have up: "cn_up (sy_conns ?s c') = (if c' = c \<and> (\<exists>t bs. ev = ChannelEvent t (Frame bs)) then tl (cn_up (sy_conns s c))
      else cn_up (sy_conns s c'))" for c'
    using sel by (auto simp: server_act_def split: AttachEvent.splits Event.splits)
  have alive: "alive_inv s" using assms(1) by (simp add: up_inv_def)
  have other: "sy_conns ?s c' = sy_conns s c'" if "c' \<noteq> c" for c' using that sel by (simp add: server_act_def)
  have from_conn: "from_inv s \<longrightarrow> (\<forall>m \<in> set (cn_up (sy_conns s c)). is_stdin m \<longrightarrow> from_hist (gh_reads s) m)
      \<and> (\<forall>m \<in> set (cn_up_dg (sy_conns s c)). from_hist (gh_reads s) m)" by (simp add: from_inv_def)
  show ?thesis
  proof (rule up_inv_server [OF assms(1)])
    show "\<forall>x \<in> set (ses_inbound (sy_session ?s)). x \<in> set (ses_inbound (sy_session s))
      \<or> (\<forall>m. x = Message m \<and> is_stdin m \<or> x = DatagramInput m \<longrightarrow> from_inv s \<longrightarrow> from_hist (gh_reads s) m)"
      unfolding ses(1) using attach_select_queue [OF sel] assms(3) from_conn
      by (elim disjE exE conjE; cases "cn_up (sy_conns s c)") auto
    show "order_inv ?s" if o: "order_inv s" "from_inv s"
    proof (cases "\<exists>t bs m. ev = ChannelEvent t (Frame bs) \<and> dec bs = Inr m \<and> is_stdin m")
      case True
      then obtain t bs m where ev: "ev = ChannelEvent t (Frame bs)" "dec bs = Inr m" "is_stdin m" by blast
      have hd: "cn_up (sy_conns s c) = m # tl (cn_up (sy_conns s c))" using assms(3) ev by (cases "cn_up (sy_conns s c)") auto
      have "waiting ?s = waiting s @ [m]" if "ses_task_alive (sy_session s)"
        using attach_select_stdin [OF sel [unfolded ev(1)] ev(2,3) that] ev(3) by (simp add: ses map_filter_snoc)
      moreover have "stdins (cn_up (sy_conns s c)) = m # stdins (cn_up (sy_conns ?s c))"
        using ev hd by (metis (no_types, lifting) filter.simps(2) up)
      ultimately show ?thesis
        by (intro order_inv_frame [OF o(1), where c = c])
           (use assms(2) alive other sh in \<open>simp_all add: server_act_frame ses\<close>)
    next
      case False
      have "stdins (cn_up (sy_conns ?s c')) = stdins (cn_up (sy_conns s c'))" for c'
        using False assms(3) by (cases "cn_up (sy_conns s c)") (auto simp: up)
      moreover have "waiting ?s = waiting s"
        unfolding ses(1) using attach_select_queue [OF sel] False
        by (elim disjE exE conjE) (auto simp: map_filter_snoc)
      ultimately show ?thesis
        by (intro order_inv_same [OF o(1)]) (use sh att in \<open>auto simp: server_act_frame ses\<close>)
    qed
  qed (use sh in \<open>simp_all add: server_act_frame ses\<close>)
qed

text \<open>A restart empties the queue; the input in it is still with the client.\<close>

lemma up_inv_restart:
  assumes "up_inv s" "log_inv s" "restore_env_ok re"
  shows "up_inv (restart_act tok re intime s)"
proof -
  let ?s = "restart_act tok re intime s"
  note c = restart_act_cases [OF assms(2,3) refl, of tok intime]
  have "child_inv ?s" if "child_inv s"
    using that c by (cases "sy_task ?s") (auto simp: child_inv_def restart_act_frame)
  moreover have "order_inv ?s"
    using c by (cases "sy_task ?s") (auto simp: order_inv_def order_at_def restart_act_frame detach_all_def map_filter_simps)
  moreover have "from_inv ?s" if "from_inv s"
    using that c by (cases "sy_task ?s") (auto simp: from_inv_def restart_act_frame detach_all_def)
  moreover have "kept_inv ?s = kept_inv s" "read_inv ?s = read_inv s"
    using c(1) by (simp_all add: kept_inv_def read_inv_def restart_act_frame detach_all_def)
  moreover have "alive_inv ?s"
    using c by (cases "sy_task ?s") (auto simp: alive_inv_def)
  ultimately show ?thesis using assms(1) by (simp add: up_inv_def restart_act_frame)
qed

section \<open>The client\<close>

text \<open>Steps of the client leave the server and the task alone.\<close>

lemma up_inv_client:
  assumes "up_inv s" "sy_session s' = sy_session s" "sy_task s' = sy_task s" "gh_in s' = gh_in s" "gh_epipe s' = gh_epipe s"
    and "gh_reads s' = gh_reads s" "gh_lost s' = gh_lost s"
    and "client_seq (sy_client s') = client_seq (sy_client s)" "cl_stdin_open (sy_client s') = cl_stdin_open (sy_client s)"
    and "\<not> gh_lost s \<Longrightarrow> read_inv s \<Longrightarrow> kept_inv s \<Longrightarrow> from_inv s \<Longrightarrow> order_inv s \<Longrightarrow> kept_inv s' \<and> from_inv s' \<and> order_inv s'"
  shows "up_inv s'"
proof -
  have "read_inv s' = read_inv s" unfolding read_inv_def assms(2,6,8,9) by simp
  moreover have "child_inv s' = child_inv s" unfolding child_inv_def assms(2-6) by simp
  moreover have "alive_inv s' = alive_inv s" unfolding alive_inv_def assms(2,3) by simp
  ultimately show ?thesis using assms(1,10) by (simp add: up_inv_def assms(7))
qed

text \<open>The resend list after a message from the server.\<close>

lemma client_message_frame:
  assumes "client_message wr r x cl = (msgs, out)"
  shows "client_seq (outcome_client out) = client_seq cl" "cl_stdin_open (outcome_client out) = cl_stdin_open cl"
    "\<forall>m \<in> set msgs. \<not> is_stdin m"
    "sent_stdin (outcome_client out) = sent_stdin cl \<or> (\<exists>a. x = Ack a \<and> sent_stdin (outcome_client out) = retain_unacked a (sent_stdin cl))"
  using assms by (cases x; auto simp: Let_def split: if_splits)+

lemma attached_step_frame:
  assumes "attached_step tgt dec ev cl = (msgs, out)" "client_may dec ev C"
  shows "client_seq (outcome_client out) = client_seq cl" "cl_stdin_open (outcome_client out) = cl_stdin_open cl"
    "\<forall>m \<in> set msgs. \<not> is_stdin m"
    "sent_stdin (outcome_client out) = sent_stdin cl
     \<or> (\<exists>a. (Ack a \<in> set (cn_down C) \<or> Ack a \<in> set (cn_down_dg C)) \<and> sent_stdin (outcome_client out) = retain_unacked a (sent_stdin cl))"
proof -
  have "client_seq (outcome_client out) = client_seq cl \<and> cl_stdin_open (outcome_client out) = cl_stdin_open cl
    \<and> (\<forall>m \<in> set msgs. \<not> is_stdin m)
    \<and> (sent_stdin (outcome_client out) = sent_stdin cl
     \<or> (\<exists>a. (Ack a \<in> set (cn_down C) \<or> Ack a \<in> set (cn_down_dg C)) \<and> sent_stdin (outcome_client out) = retain_unacked a (sent_stdin cl)))"
  proof (cases "(dec, ev, C)" rule: client_may.cases)
    case (1 dec' bs wr C')
    then have "client_message wr True (hd (cn_down C)) cl = (msgs, out)" "hd (cn_down C) \<in> set (cn_down C)"
      using assms by simp_all
    with client_message_frame [OF this(1)] show ?thesis by metis
  next
    case (2 dec' bs wr C')
    then obtain m where "client_message wr False m cl = (msgs, out)" "m \<in> set (cn_down_dg C)"
      using assms by auto
    with client_message_frame [OF this(1)] show ?thesis by metis
  qed (use assms in \<open>auto split: if_splits\<close>)
  then show "client_seq (outcome_client out) = client_seq cl" "cl_stdin_open (outcome_client out) = cl_stdin_open cl"
    "\<forall>m \<in> set msgs. \<not> is_stdin m"
    "sent_stdin (outcome_client out) = sent_stdin cl
     \<or> (\<exists>a. (Ack a \<in> set (cn_down C) \<or> Ack a \<in> set (cn_down_dg C)) \<and> sent_stdin (outcome_client out) = retain_unacked a (sent_stdin cl))"
    by blast+
qed

lemma no_ack_datagram:
  assumes "down_inv s" "log_inv s" "sy_phase s = On c"
  shows "Ack a \<notin> set (cn_down_dg (sy_conns s c))"
proof
  assume a: "Ack a \<in> set (cn_down_dg (sy_conns s c))"
  have "conn_ok False (gh_hist s) (seen s) (sy_conns s c)" using assms(1,3) by (auto simp: down_inv_def cur_ok_def)
  then obtain k m where st: "stream_ok (gh_hist s) (seen s) (sy_conns s c) k m" by (rule conn_okE) simp
  with a have "worth_duplicating (Ack a)" unfolding stream_ok_def by blast
  then show False by simp
qed

lemma stdins_none: "\<forall>m \<in> set ms. \<not> is_stdin m \<Longrightarrow> stdins ms = []"
  by (simp add: filter_empty_conv)

lemma in_set_tlD: "x \<in> set (tl xs) \<Longrightarrow> x \<in> set xs"
  by (cases xs) simp_all

lemma up_inv_client_act:
  assumes "up_inv s" "down_inv s" "log_inv s" "sy_phase s = On c" "client_may dec ev (sy_conns s c)"
  shows "up_inv (client_act tgt dec ev sent c s)"
proof -
  let ?s = "client_act tgt dec ev sent c s"
  obtain msgs out where st: "attached_step tgt dec ev (sy_client s) = (msgs, out)" by force
  note f = attached_step_frame [OF st assms(5)]
  have cl: "sy_client ?s = outcome_client out" "sy_phase ?s = outcome_phase c out"
    and other: "\<And>c'. c' \<noteq> c \<Longrightarrow> sy_conns ?s c' = sy_conns s c'"
    and att: "\<And>c'. cn_att (sy_conns ?s c') = cn_att (sy_conns s c')" "\<And>c'. cn_up_dg (sy_conns ?s c') = cn_up_dg (sy_conns s c')"
      "\<And>c'. cn_req (sy_conns ?s c') = cn_req (sy_conns s c')"
    using st by (simp_all add: client_act_def)
  have up: "cn_up (sy_conns ?s c) = cn_up (sy_conns s c) @ (if sent then msgs else [])" using st by (simp add: client_act_def)
  have down: "set (cn_down (sy_conns ?s c')) \<subseteq> set (cn_down (sy_conns s c'))" for c'
    using st by (auto simp: client_act_def split: AttachedEvent.splits ConnEvent.splits dest: in_set_tlD)
  have std: "stdins (cn_up (sy_conns ?s c')) = stdins (cn_up (sy_conns s c'))" for c'
    using stdins_none [OF f(3)] other [of c'] up by (cases "c' = c") simp_all
  have ph: "sy_phase ?s = On c \<or> sy_phase ?s = Away \<or> is_finished (sy_phase ?s)"
    unfolding cl by (simp add: outcome_phase_def split: option.splits ExecStep.splits)
  show ?thesis
  proof (rule up_inv_client [OF assms(1)])
    assume inv: "read_inv s" "kept_inv s" "from_inv s" "order_inv s"
    have "kept_inv ?s"
      unfolding kept_inv_def
    proof (intro conjI allI impI)
      obtain b where b: "b \<le> applied s" "sent_stdin (sy_client s) = drop b (gh_reads s)" using inv(2) by (auto simp: kept_inv_def)
      from f(4) show "\<exists>b \<le> applied ?s. sent_stdin (sy_client ?s) = drop b (gh_reads ?s)"
      proof (elim disjE exE conjE)
        fix a
        assume a: "Ack a \<in> set (cn_down (sy_conns s c))" and r: "sent_stdin (outcome_client out) = retain_unacked a (sent_stdin (sy_client s))"
        from a inv(2) have le: "unat a \<le> applied s" by (auto simp: kept_inv_def)
        with retain_unacked_suffix [of "gh_reads s" a b] inv(1) b r show ?thesis
          by (intro exI [of _ "max b (unat a)"]) (simp add: cl client_act_frame read_inv_def)
      qed (use b no_ack_datagram [OF assms(2-4)] in \<open>auto simp: cl client_act_frame\<close>)
      fix c' x
      assume "Ack x \<in> set (cn_down (sy_conns ?s c'))"
      with down [of c'] inv(2) show "unat x \<le> applied ?s" by (auto simp: kept_inv_def client_act_frame)
    qed
    moreover have "from_inv ?s"
      unfolding from_inv_def
    proof (intro conjI allI ballI impI)
      fix c' m
      assume "m \<in> set (cn_up (sy_conns ?s c'))" "is_stdin m"
      then have "m \<in> set (stdins (cn_up (sy_conns ?s c')))" by simp
      then show "from_hist (gh_reads ?s) m" unfolding std by (auto simp: client_act_frame intro: from_invD(1) [OF inv(3)])
    next
      fix c'
      assume "sy_phase ?s = Waiting c' \<or> cn_req (sy_conns ?s c') \<noteq> None"
      then have req: "cn_req (sy_conns s c') \<noteq> None" using ph att(3) by auto
      then have "c' \<noteq> c" using assms(2,4) by (auto simp: down_inv_def cur_ok_def conn_ok_def)
      with req inv(3) show "cn_up (sy_conns ?s c') = []" by (simp add: other from_inv_def)
    qed (use inv(3) in \<open>auto simp: from_inv_def client_act_frame att\<close>)
    moreover have "order_inv ?s"
      using inv(4) ph assms(4) unfolding order_inv_def order_at_def att std client_act_frame by auto
    ultimately show "kept_inv ?s \<and> from_inv ?s \<and> order_inv ?s" by simp
  qed (simp_all add: client_act_frame cl f)
qed


text \<open>A chunk is read and sent.\<close>

lemma stdin_act_sent:
  assumes "s' = stdin_act tgt (Some data) True leak c s" "m = stdin_message (client_seq (sy_client s) + 1) data"
  shows "sy_client s' = (sy_client s)\<lparr>client_seq := client_seq (sy_client s) + 1, cl_stdin_open := (data \<noteq> []),
      sent_stdin := sent_stdin (sy_client s) @ [m]\<rparr>"
    "sy_phase s' = On c" "gh_reads s' = gh_reads s @ [m]" "gh_lost s' = gh_lost s" "gh_in s' = gh_in s" "gh_epipe s' = gh_epipe s"
    "sy_session s' = sy_session s" "sy_task s' = sy_task s"
    "\<And>c'. c' \<noteq> c \<Longrightarrow> sy_conns s' c' = sy_conns s c'"
    "cn_up (sy_conns s' c) = cn_up (sy_conns s c) @ [m]" "set (cn_up_dg (sy_conns s' c)) \<subseteq> insert m (set (cn_up_dg (sy_conns s c)))"
    "\<And>c'. cn_att (sy_conns s' c') = cn_att (sy_conns s c')" "\<And>c'. cn_req (sy_conns s' c') = cn_req (sy_conns s c')"
    "\<And>c'. cn_down (sy_conns s' c') = cn_down (sy_conns s c')"
  using assms by (auto simp: stdin_act_def client_stdin_read_def Let_def)

lemma read_inv_sent:
  assumes "read_inv s" "cl_stdin_open (sy_client s)" "length (gh_reads s) + 2 < 2 ^ 64"
    and "m = stdin_message (client_seq (sy_client s) + 1) data" "s' = stdin_act tgt (Some data) True leak c s"
  shows "read_inv s'" "seq_of m = Some (of_nat (length (gh_reads s) + 1))"
proof -
  note f = stdin_act_sent [OF assms(5,4)]
  show sm: "seq_of m = Some (of_nat (length (gh_reads s) + 1))" using assms(1,4) by (simp add: read_inv_def)
  have eof: "is_eof m = (data = [])" by (simp add: assms(4) stdin_message_def)
  have none: "\<not> is_eof (gh_reads s ! i)" if "i < length (gh_reads s)" for i using assms(1,2) that by (auto simp: read_inv_def)
  have "numbered (gh_reads s @ [m])" using numbered_snoc [OF _ assms(3) sm] assms(1) by (simp add: read_inv_def)
  moreover have "\<forall>i < length (gh_reads s'). is_eof (gh_reads s' ! i) \<longrightarrow>
      i + 1 = length (gh_reads s') \<and> \<not> cl_stdin_open (sy_client s')"
    using none eof by (auto simp: f nth_append less_Suc_eq)
  moreover have "is_stdin m" by (simp add: assms(4))
  ultimately show "read_inv s'" using assms(1) unfolding read_inv_def by (simp add: f)
qed

lemma up_inv_stdin_sent:
  assumes "up_inv s" "down_inv s" "sy_phase s = On c" "cl_stdin_open (sy_client s)" "length (gh_reads s) + 2 < 2 ^ 64"
    and "s' = stdin_act tgt (Some data) True leak c s"
  shows "up_inv s'"
proof -
  define m where "m = stdin_message (client_seq (sy_client s) + 1) data"
  note f = stdin_act_sent [OF assms(6) m_def]
  have "read_inv s' \<and> kept_inv s' \<and> from_inv s' \<and> order_inv s' \<and> child_inv s'"
    if inv: "read_inv s" "kept_inv s" "from_inv s" "order_inv s" "child_inv s"
  proof (intro conjI)
    note r = read_inv_sent [OF inv(1) assms(4,5) m_def assms(6)]
    show "read_inv s'" by (rule r(1))
    have le: "applied s \<le> length (gh_reads s)" using inv(1) by (simp add: read_inv_def)
    have std: "is_stdin m" by (simp add: m_def)
    have sm: "sq m = length (gh_reads s) + 1"
      using r(2) unat_u64_of_nat [of "length (gh_reads s) + 1"] assms(5) by (simp add: sq_def del: of_nat_Suc of_nat_add)
    have new: "from_hist (gh_reads s @ [m]) m" by (auto simp: from_hist_def intro: exI [of _ "length (gh_reads s)"])
    obtain a where a: "a \<le> applied s" "sent_stdin (sy_client s) = drop a (gh_reads s)" using inv(2) by (auto simp: kept_inv_def)
    have "sent_stdin (sy_client s') = drop a (gh_reads s')" using a le by (simp add: f)
    moreover have "\<forall>c' x. Ack x \<in> set (cn_down (sy_conns s' c')) \<longrightarrow> unat x \<le> applied s'"
      using inv(2) unfolding kept_inv_def f by blast
    ultimately show "kept_inv s'" using a(1) unfolding kept_inv_def f by blast
    show "from_inv s'"
      unfolding from_inv_def
    proof (intro conjI allI ballI impI)
      fix c' x
      assume "x \<in> set (cn_up (sy_conns s' c'))" "is_stdin x"
      then have "x = m \<or> x \<in> set (cn_up (sy_conns s c')) \<and> is_stdin x" using f(9,10) by (cases "c' = c") auto
      then show "from_hist (gh_reads s') x" using new inv(3) unfolding f(3) by (auto simp: from_inv_def intro: from_hist_grow)
    next
      fix c' x
      assume "x \<in> set (cn_up_dg (sy_conns s' c'))"
      then have "x = m \<or> x \<in> set (cn_up_dg (sy_conns s c'))" using f(9,11) by (cases "c' = c") auto
      then show "from_hist (gh_reads s') x" using new inv(3) unfolding f(3) by (auto simp: from_inv_def intro: from_hist_grow)
    next
      fix c'
      assume "sy_phase s' = Waiting c' \<or> cn_req (sy_conns s' c') \<noteq> None"
      then have req: "cn_req (sy_conns s c') \<noteq> None" by (simp add: f)
      then have "c' \<noteq> c" using assms(2,3) by (auto simp: down_inv_def cur_ok_def conn_ok_def)
      with req inv(3) show "cn_up (sy_conns s' c') = []" by (simp add: f(9) from_inv_def)
    qed (use inv(3) in \<open>auto simp: from_inv_def f intro: from_hist_grow\<close>)
    have ow: "order_at (applied s) (waiting s) s'" if o: "order_at (applied s) (waiting s) s"
      unfolding order_at_def
    proof (intro conjI allI impI)
      show "gapless (applied s) (waiting s)" using o by (simp add: order_at_def)
      fix c'
      let ?r = "reach (applied s) (waiting s)" and ?u = "stdins (cn_up (sy_conns s c'))"
      assume "cn_att (sy_conns s' c') \<noteq> None"
      then have c': "gapless ?r ?u" "c' = c \<Longrightarrow> length (gh_reads s) \<le> reach ?r ?u"
        using o assms(3) by (auto simp: order_at_def f)
      show "gapless ?r (stdins (cn_up (sy_conns s' c')))"
        using c' std sm by (cases "c' = c") (simp_all add: f(9,10) gapless_append)
      show "length (gh_reads s') \<le> reach ?r (stdins (cn_up (sy_conns s' c')))" if "sy_phase s' = On c'"
      proof -
        have "c' = c" using that by (simp add: f(2))
        then show ?thesis using std sm by (simp add: f(3,10) reach_append)
      qed
    qed
    then show "order_inv s'" using inv(4) by (simp add: order_inv_def f)
    have "0 < applied s \<Longrightarrow> (gh_reads s @ [m]) ! (applied s - 1) = gh_reads s ! (applied s - 1)"
      using le by (subst nth_append_left) simp_all
    with inv(5) le show "child_inv s'" unfolding child_inv_def by (auto simp: f)
  qed
  then show ?thesis using assms(1) by (simp add: up_inv_def alive_inv_def f)
qed

lemma up_inv_stdin:
  assumes "up_inv s" "down_inv s" "sy_phase s = On c" "cl_stdin_open (sy_client s)" "length (gh_reads s) + 2 < 2 ^ 64"
  shows "up_inv (stdin_act tgt r ok leak c s)"
proof (cases ok)
  case False
  then have "gh_lost (stdin_act tgt r ok leak c s)" "alive_inv (stdin_act tgt r ok leak c s)"
    using assms(1) by (simp_all add: stdin_act_def Let_def split_beta up_inv_def alive_inv_def)
  then show ?thesis by (simp add: up_inv_def)
next
  case True
  show ?thesis
  proof (cases r)
    case None
    have eq: "stdin_act tgt r ok leak c s = s\<lparr>sy_phase := Finished (Inl ClientIo)\<rparr>"
      using True None by (simp add: stdin_act_def client_stdin_read_def set_conn_def)
    show ?thesis unfolding eq
      by (rule up_inv_client [OF assms(1)]) (auto simp: kept_inv_def from_inv_def order_inv_def order_at_def)
  next
    case (Some data)
    with True up_inv_stdin_sent [OF assms refl] show ?thesis by simp
  qed
qed


lemma up_inv_connect:
  assumes "up_inv s"
  shows "up_inv (connect_act tgt command s)"
  by (rule up_inv_client [OF assms])
     (auto simp: connect_act_def no_conn_def kept_inv_def from_inv_def order_inv_def order_at_def)

lemma up_inv_pop_down:
  assumes "up_inv s"
  shows "up_inv (pop_down c s)"
proof (rule up_inv_server [OF assms])
  show "order_inv (pop_down c s)" if "order_inv s"
    by (rule order_inv_same [OF that]) (simp_all add: pop_down_def split: if_splits)
qed (auto simp: pop_down_def split: if_splits dest: in_set_tlD)

text \<open>The resend continues the stream without a gap, and completely unless it fails.\<close>

lemma resend_gapless:
  assumes "numbered R" "sent_stdin cl = drop a R" "a \<le> b" "resend n cl = (msgs, ok)"
  shows "gapless b msgs" "ok \<Longrightarrow> length R \<le> reach b msgs"
proof -
  note g = gapless_drop [OF assms(1,3)]
  obtain k where k: "msgs = take k (drop a R)" "ok \<longrightarrow> msgs = drop a R" using resend_subset [OF assms(4)] unfolding assms(2) by blast
  from g have "gapless b (take k (drop a R) @ drop k (drop a R))" by (simp only: append_take_drop_id)
  then show "gapless b msgs" unfolding gapless_append k(1) by simp
  show "length R \<le> reach b msgs" if ok using that k(2) g by simp
qed

lemma up_inv_connected:
  assumes "up_inv s" "sy_phase s = Waiting c" "(\<exists>e. r = Inl e) \<or> cn_req (sy_conns s c) = None"
  shows "up_inv (connected_act tgt r n c s)"
proof (cases "after_connect tgt r (sy_client s)")
  case (GoAttach cl')
  note f = after_connect_frame [OF disjI1 [OF GoAttach]]
  let ?s = "connected_act tgt r n c s"
  have noreq: "cn_req (sy_conns s c) = None"
    using assms(3) GoAttach by (auto simp: after_connect_def split: ClientError.splits TokenSource.splits if_splits)
  obtain msgs ok where rs: "resend n cl' = (msgs, ok)" by force
  let ?ph = "outcome_phase c (if ok then Attached cl' else Lost cl')"
  let ?C = "(sy_conns s c)\<lparr>cn_up := cn_up (sy_conns s c) @ msgs\<rparr>"
  have eq: "?s = (set_conn c ?C s)\<lparr>sy_client := cl', sy_phase := ?ph\<rparr>" using GoAttach rs by (simp add: connected_act_def)
  have ph: "?ph \<noteq> Waiting c'" "?ph = On c' \<Longrightarrow> c' = c \<and> ok" for c'
    by (simp_all add: outcome_phase_def split: option.splits ExecStep.splits if_splits)
  show ?thesis unfolding eq
  proof (rule up_inv_client [OF assms(1)])
    let ?t = "(set_conn c ?C s)\<lparr>sy_client := cl', sy_phase := ?ph\<rparr>"
    assume inv: "read_inv s" "kept_inv s" "from_inv s" "order_inv s"
    obtain a where a: "a \<le> applied s" "sent_stdin cl' = drop a (gh_reads s)" using inv(2) f by (auto simp: kept_inv_def)
    have up: "cn_up (sy_conns s c) = []" using from_invD(3) [OF inv(3)] assms(2) by simp
    have num: "numbered (gh_reads s)" "list_all is_stdin (gh_reads s)" using inv(1) by (auto simp: read_inv_def)
    have sub: "set msgs \<subseteq> set (gh_reads s)" using resend_subset [OF rs] a(2) by (auto dest!: in_set_takeD in_set_dropD)
    have "\<forall>m \<in> set msgs. is_stdin m" using sub num(2) by (auto simp: list_all_iff)
    then have std: "stdins msgs = msgs" by simp
    have "from_hist (gh_reads s) m" if "m \<in> set msgs" for m
      using that sub by (fastforce simp: from_hist_def in_set_conv_nth)
    then have "from_inv ?t" using inv(3) ph(1) noreq up unfolding from_inv_def by auto
    moreover have "kept_inv ?t" using inv(2) f by (auto simp: kept_inv_def)
    moreover have "order_at (applied s) (waiting s) ?t" if o: "order_at (applied s) (waiting s) s"
      unfolding order_at_def
    proof (intro conjI allI impI)
      show "gapless (applied s) (waiting s)" using o by (simp add: order_at_def)
      fix c'
      assume att: "cn_att (sy_conns ?t c') \<noteq> None"
      note g = resend_gapless [OF num(1) a(2) order_trans [OF a(1) reach_ge] rs, of "waiting s"]
      show "gapless (reach (applied s) (waiting s)) (stdins (cn_up (sy_conns ?t c')))"
        using o att g(1) std up by (cases "c' = c") (auto simp: order_at_def)
      show "length (gh_reads ?t) \<le> reach (reach (applied s) (waiting s)) (stdins (cn_up (sy_conns ?t c')))"
        if "sy_phase ?t = On c'"
        using that ph(2) [of c'] g(2) std up by simp
    qed
    ultimately show "kept_inv ?t \<and> from_inv ?t \<and> order_inv ?t" using inv(4) by (simp add: order_inv_def)
  qed (use f in simp_all)
next
  case (GoLogin cl' name)
  then have "cl' = sy_client s" by (auto simp: after_connect_def Let_def split: sum.splits ClientError.splits TokenSource.splits if_splits)
  with GoLogin show ?thesis
    by (intro up_inv_client [OF assms(1)]) (auto simp: connected_act_def kept_inv_def from_inv_def order_inv_def order_at_def)
next
  case (GoRetry cl' d)
  with after_connect_frame [OF disjI2 [OF GoRetry]] show ?thesis
    by (intro up_inv_client [OF assms(1)]) (auto simp: connected_act_def kept_inv_def from_inv_def order_inv_def order_at_def)
next
  case (GiveUp e)
  then show ?thesis
    by (intro up_inv_client [OF assms(1)]) (auto simp: connected_act_def kept_inv_def from_inv_def order_inv_def order_at_def)
qed

section \<open>All steps\<close>

lemma up_inv_step:
  assumes "step tok tgt command s s'" "log_inv s" "down_inv s" "up_inv s" "length (gh_reads s) + 2 < 2 ^ 64"
  shows "up_inv s'"
  using assms(1)
proof (cases rule: step_cases)
  case (Task st ev env)
  then show ?thesis
    using up_inv_task_quiet [OF assms(4)] up_inv_task_item [OF assms(4,2)] by (cases "event_item ev") auto
next
  case (Answer c m rest n)
  have "conn_ok True (gh_hist s) (seen s) (sy_conns s c)" using assms(3) Answer by (simp add: down_inv_def cur_ok_def)
  then have "cn_req (sy_conns s c) = None" using Answer by (auto simp: conn_ok_def split: option.splits)
  then show ?thesis using up_inv_connected [OF up_inv_pop_down [OF assms(4)], of c c] Answer by (simp add: pop_down_def)
qed (use assms up_inv_restart up_inv_flush up_inv_ack up_inv_server_act up_inv_accept up_inv_expire up_inv_client_act
      up_inv_stdin up_inv_connect up_inv_connected in \<open>simp; blast\<close>)+

lemma step_reads_mono:
  assumes "step tok tgt command s s'"
  shows "length (gh_reads s) \<le> length (gh_reads s')"
  using assms
proof (cases rule: step_cases)
  case (ClientStdin c r ok leak)
  then show ?thesis by (simp add: stdin_act_def Let_def split_beta)
qed (simp_all add: task_act_frame restart_act_frame flush_act_frame ack_act_frame server_act_frame accept_act_frame
        expire_act_frame client_act_frame connect_act_def connected_act_frame pop_down_def)

lemma reachable_input:
  assumes "reachable tok tgt command s" "length (gh_hist s) + 2 < 2 ^ 64" "length (gh_reads s) + 2 < 2 ^ 64"
  shows "up_inv s"
  using assms
proof (induction rule: reachable.induct)
  case (Init io agent now)
  then show ?case by (simp add: up_inv_init)
next
  case (Step s s')
  from step_hist_mono [OF Step.hyps(2)] step_reads_mono [OF Step.hyps(2)] Step.prems
  have "length (gh_hist s) + 2 < 2 ^ 64" "length (gh_reads s) + 2 < 2 ^ 64" by linarith+
  with Step.IH Step.hyps reachable_output [OF Step.hyps(1)] up_inv_step show ?case by blast
qed

section \<open>Two runs\<close>

text \<open>Both continue the run of the output direction after its reconnect.  In the first a chunk
  is read, sent and applied.\<close>

definition demo_frame :: "ChannelMessage \<Rightarrow> nat \<Rightarrow> System \<Rightarrow> System" where
  "demo_frame m c s = server_act ''t'' (\<lambda>_. Inr m) (ChannelEvent 8 (Frame [])) 8 c (the (cn_att (sy_conns s c))) s"

definition demo_in1 :: System where
  "demo_in1 = demo_frame (Stdin 1 [97, 98]) 1 (stdin_act demo_tgt (Some [97, 98]) True False 1 demo_s4)"

definition demo_in2 :: System where
  "demo_in2 = demo_task (Inbound (Some (Message (Stdin 1 [97, 98])))) demo_in1"

text \<open>In the second the send of a chunk fails, the client reconnects, and the next chunk gets
  through.\<close>

definition demo_lost1 :: System where
  "demo_lost1 = connected_act demo_tgt (start_reply (Started (Some ''t''))) None 2
     (pop_down 2 (accept_act 9 2 (Resume ''t'' 0) (connect_act demo_tgt [] (stdin_act demo_tgt (Some [97]) False False 1 demo_s4))))"

definition demo_lost2 :: System where
  "demo_lost2 = demo_frame (Stdin 2 [98]) 2 (stdin_act demo_tgt (Some [98]) True False 2 demo_lost1)"

definition demo_lost3 :: System where
  "demo_lost3 = demo_task (Inbound (Some (Message (Stdin 2 [98])))) demo_lost2"

lemmas demo_in_eval = demo_s4_eq demo_eval demo_frame_def server_act_def stdin_act_def client_stdin_read_def stdin_message_def
  inbound_send_ok_def inbound_send_def

lemma demo_reach_in: "reachable ''t'' demo_tgt [] demo_in2"
proof -
  let ?a = "stdin_act demo_tgt (Some [97, 98]) True False 1 demo_s4"
  have "reachable ''t'' demo_tgt [] ?a"
    by (rule reachable.Step [OF demo_reach_4 step.ClientStdin]) (simp_all add: demo_s4_eq)
  then have "reachable ''t'' demo_tgt [] demo_in1" unfolding demo_in1_def demo_frame_def
    by (rule reachable.Step [OF _ step.ServerEvent]) (simp_all add: demo_in_eval)
  then show ?thesis unfolding demo_in2_def demo_task_def
    by (rule reachable.Step [OF _ step.Task]) (simp_all add: demo_in1_def demo_in_eval)
qed

lemma demo_in_end:
  "sy_phase demo_in2 = On 1" "cn_att (sy_conns demo_in2 1) \<noteq> None" "sy_task demo_in2 \<noteq> None" "stdins (cn_up (sy_conns demo_in2 1)) = []"
  "ses_inbound (sy_session demo_in2) = []" "gh_reads demo_in2 = [Stdin 1 [97, 98]]" "sy_applied demo_in2 = 1"
  "length (gh_hist demo_in2) + 2 < 2 ^ 64" "\<not> gh_lost demo_in2" "\<not> gh_epipe demo_in2"
  "sent_stdin (sy_client demo_in2) = [Stdin 1 [97, 98]]"
  by (simp_all add: demo_in2_def demo_in1_def demo_in_eval)

lemma demo_reach_lost: "reachable ''t'' demo_tgt [] demo_lost3"
proof -
  let ?a = "stdin_act demo_tgt (Some [97]) False False 1 demo_s4"
  let ?b = "connect_act demo_tgt [] ?a"
  let ?c = "accept_act 9 2 (Resume ''t'' 0) ?b"
  have "reachable ''t'' demo_tgt [] ?a"
    by (rule reachable.Step [OF demo_reach_4 step.ClientStdin]) (simp_all add: demo_s4_eq)
  then have "reachable ''t'' demo_tgt [] ?b" by (rule reachable.Step [OF _ step.Connect]) (simp add: demo_in_eval)
  then have "reachable ''t'' demo_tgt [] ?c" by (rule reachable.Step [OF _ step.Accept]) (simp add: demo_in_eval)
  then have "reachable ''t'' demo_tgt [] demo_lost1" unfolding demo_lost1_def
    by (rule reachable.Step [OF _ step.Answer [where rest = "[]"]]) (simp_all add: demo_in_eval)
  then have "reachable ''t'' demo_tgt [] (stdin_act demo_tgt (Some [98]) True False 2 demo_lost1)"
    by (rule reachable.Step [OF _ step.ClientStdin]) (simp_all add: demo_lost1_def demo_in_eval)
  then have "reachable ''t'' demo_tgt [] demo_lost2" unfolding demo_lost2_def demo_frame_def
    by (rule reachable.Step [OF _ step.ServerEvent]) (simp_all add: demo_lost1_def demo_in_eval)
  then show ?thesis unfolding demo_lost3_def demo_task_def
    by (rule reachable.Step [OF _ step.Task]) (simp_all add: demo_lost2_def demo_lost1_def demo_in_eval)
qed

lemma demo_lost_end:
  "gh_in demo_lost3 = [98]" "gh_reads demo_lost3 = [Stdin 1 [97], Stdin 2 [98]]" "\<not> gh_epipe demo_lost3" "sy_phase demo_lost3 = On 2"
  by (simp_all add: demo_lost3_def demo_lost2_def demo_lost1_def demo_in_eval)

section \<open>Properties\<close>

text \<open>
  C2: End to end, the child's stdin gets exactly what the client read, in order and once.  In
  every reachable state in which no send of a freshly read chunk has failed, the bytes written
  to the child are a prefix of the bytes the client read from its stdin; and unless a write to
  the child failed they are exactly the bytes of the messages counted as applied.  This holds
  through reconnects with resends, old connections that still deliver, repeated and late
  datagrams, and restarts of the daemon that drop its queue.
\<close>
theorem input_exact:
  assumes "reachable tok tgt command s" "length (gh_hist s) + 2 < 2 ^ 64" "length (gh_reads s) + 2 < 2 ^ 64" "\<not> gh_lost s"
  shows "prefix (gh_in s) (stdin_bytes (gh_reads s)) \<and> applied s \<le> length (gh_reads s)
    \<and> (\<not> gh_epipe s \<longrightarrow> gh_in s = stdin_bytes (take (applied s) (gh_reads s)))"
proof -
  have inv: "child_inv s" "read_inv s" using reachable_input [OF assms(1-3)] assms(4) by (auto simp: up_inv_def)
  have "prefix (gh_in s) (stdin_bytes (take (applied s) (gh_reads s)))" using inv(1) by (simp add: child_inv_def)
  also have "prefix (stdin_bytes (take (applied s) (gh_reads s))) (stdin_bytes (gh_reads s))" by (rule prefix_cut)
  finally show ?thesis using inv by (simp add: child_inv_def read_inv_def)
qed

theorem input_exact_witness: "reachable ''t'' demo_tgt [] demo_in2 \<and> gh_in demo_in2 = [97, 98]"
proof -
  have "length (gh_reads demo_in2) + 2 < 2 ^ 64" by (simp add: demo_in_end)
  from input_exact [OF demo_reach_in demo_in_end(8) this demo_in_end(9)] demo_reach_in demo_in_end(6,7,10) show ?thesis by simp
qed



text \<open>
  C11: Acknowledgements never lose input.  As long as no send of a fresh chunk has failed, the
  client still keeps every message the session has not applied: resending its list brings the
  session exactly up to date with what the client has read.
\<close>
theorem resend_restores_input:
  assumes "reachable tok tgt command s" "length (gh_hist s) + 2 < 2 ^ 64" "length (gh_reads s) + 2 < 2 ^ 64" "\<not> gh_lost s"
  shows "receive stdin_accepts (sy_applied s, take (applied s) (gh_reads s)) (map (Pair True) (sent_stdin (sy_client s)))
    = (of_nat (length (gh_reads s)), gh_reads s)"
proof -
  have inv: "read_inv s" "kept_inv s" using reachable_input [OF assms(1-3)] assms(4) by (auto simp: up_inv_def)
  then obtain a where a: "a \<le> applied s" "sent_stdin (sy_client s) = drop a (gh_reads s)" by (auto simp: kept_inv_def)
  have num: "numbered (gh_reads s)" "applied s \<le> length (gh_reads s)" using inv(1) by (auto simp: read_inv_def)
  from stdin_rx.receive_replay [OF num(1) a(1) num(2)] show ?thesis unfolding a(2) by simp
qed

theorem resend_restores_input_witness:
  "receive stdin_accepts (1, [Stdin 1 [97, 98]]) (map (Pair True) (sent_stdin (sy_client demo_in2))) = (1, [Stdin 1 [97, 98]])"
proof -
  have "length (gh_reads demo_in2) + 2 < 2 ^ 64" by (simp add: demo_in_end)
  from resend_restores_input [OF demo_reach_in demo_in_end(8) this demo_in_end(9)] demo_in_end(6,7) show ?thesis by simp
qed



definition demo_eof :: System where
  "demo_eof = demo_task (Inbound (Some (Message (StdinEof 1))))
     (demo_frame (StdinEof 1) 1 (stdin_act demo_tgt (Some []) True False 1 demo_s4))"

lemma demo_reach_eof: "reachable ''t'' demo_tgt [] demo_eof"
proof -
  let ?a = "stdin_act demo_tgt (Some []) True False 1 demo_s4"
  have "reachable ''t'' demo_tgt [] ?a"
    by (rule reachable.Step [OF demo_reach_4 step.ClientStdin]) (simp_all add: demo_s4_eq)
  then have "reachable ''t'' demo_tgt [] (demo_frame (StdinEof 1) 1 ?a)" unfolding demo_frame_def
    by (rule reachable.Step [OF _ step.ServerEvent]) (simp_all add: demo_in_eval)
  then show ?thesis unfolding demo_eof_def demo_task_def
    by (rule reachable.Step [OF _ step.Task]) (simp_all add: demo_in_eval)
qed


text \<open>
  C35: The input is not exact without that condition.  There is a run of the whole system, one
  failed send and a reconnect, after which the child was given a later chunk but not the one
  before it, with the client attached and nothing reported.
\<close>
theorem failed_send_loses_input:
  "\<exists>s. reachable ''t'' demo_tgt [] s \<and> sy_phase s = On 2 \<and> \<not> gh_epipe s
     \<and> stdin_bytes (gh_reads s) = [97, 98] \<and> gh_in s = [98] \<and> \<not> prefix (gh_in s) (stdin_bytes (gh_reads s))"
  by (rule exI [of _ demo_lost3]) (simp add: demo_reach_lost demo_lost_end)

end
