(* ===== verification/SystemSpec.thy ===== *)
theory SystemSpec
  imports SystemInput
begin

text \<open>
  What an exec session promises, without connections, logs and sequence numbers: two pipes from the
  child to the client, one pipe from the client to the child, and a result.  The system of \<open>System\<close>
  refines it: every step is matched by steps of the specification.
\<close>

section \<open>The specification\<close>

record Exec_Pipes =
  out_made :: bytes
  out_shown :: bytes
  err_made :: bytes
  err_shown :: bytes
  in_read :: bytes
  in_given :: bytes
  exec_result :: "(ClientError + int) option"

definition pipes_init :: Exec_Pipes where
  "pipes_init = \<lparr>out_made = [], out_shown = [], err_made = [], err_shown = [], in_read = [], in_given = [], exec_result = None\<rparr>"

text \<open>
  The child may write until its exit code was reported, the client shows what was written, in order
  and once, the child gets what the client read, in order and once, and the exit code is only
  reported when everything was shown.  A client that fails may stop at any point.
\<close>

inductive spec_step :: "Exec_Pipes \<Rightarrow> Exec_Pipes \<Rightarrow> bool" where
  Make: "\<nexists>code. exec_result p = Some (Inr code) \<Longrightarrow> spec_step p (p\<lparr>out_made := out_made p @ x, err_made := err_made p @ y\<rparr>)"
| Show: "exec_result p = None \<Longrightarrow> prefix (out_shown p @ x) (out_made p) \<Longrightarrow> prefix (err_shown p @ y) (err_made p) \<Longrightarrow>
    spec_step p (p\<lparr>out_shown := out_shown p @ x, err_shown := err_shown p @ y\<rparr>)"
| Read: "exec_result p = None \<Longrightarrow> spec_step p (p\<lparr>in_read := in_read p @ x\<rparr>)"
| Give: "prefix (in_given p @ x) (in_read p) \<Longrightarrow> spec_step p (p\<lparr>in_given := in_given p @ x\<rparr>)"
| Exit: "exec_result p = None \<Longrightarrow> out_shown p = out_made p \<Longrightarrow> err_shown p = err_made p \<Longrightarrow>
    spec_step p (p\<lparr>exec_result := Some (Inr code)\<rparr>)"
| Fail: "exec_result p = None \<Longrightarrow> spec_step p (p\<lparr>exec_result := Some (Inl e)\<rparr>)"

section \<open>The abstraction\<close>

definition phase_result :: "Phase \<Rightarrow> (ClientError + int) option" where
  "phase_result ph = (case ph of Finished r \<Rightarrow> Some r | _ \<Rightarrow> None)"

lemma phase_result_simps [simp]:
  "phase_result Away = None" "phase_result (Waiting c) = None" "phase_result (On c) = None" "phase_result (Finished r) = Some r"
  by (simp_all add: phase_result_def)

definition pipes_of :: "System \<Rightarrow> Exec_Pipes" where
  "pipes_of s =
     \<lparr>out_made = gh_out s, out_shown = cl_stdout (sy_client s), err_made = gh_err s, err_shown = cl_stderr (sy_client s),
      in_read = stdin_bytes (gh_reads s), in_given = gh_in s, exec_result = phase_result (sy_phase s)\<rparr>"

text \<open>What a valid move from \<open>p\<close> to \<open>q\<close> looks like when it is taken as a whole.\<close>

definition spec_move :: "Exec_Pipes \<Rightarrow> Exec_Pipes \<Rightarrow> bool" where
  "spec_move p q \<longleftrightarrow>
     prefix (out_made p) (out_made q) \<and> prefix (err_made p) (err_made q) \<and> prefix (out_shown p) (out_shown q)
     \<and> prefix (err_shown p) (err_shown q) \<and> prefix (in_read p) (in_read q) \<and> prefix (in_given p) (in_given q)
     \<and> prefix (out_shown q) (out_made q) \<and> prefix (err_shown q) (err_made q) \<and> prefix (in_given q) (in_read q)
     \<and> (exec_result p \<noteq> None \<longrightarrow> exec_result q = exec_result p \<and> out_shown q = out_shown p \<and> err_shown q = err_shown p \<and> in_read q = in_read p)
     \<and> (\<forall>code. exec_result p = Some (Inr code) \<longrightarrow> out_made q = out_made p \<and> err_made q = err_made p)
     \<and> (\<forall>code. exec_result q = Some (Inr code) \<longrightarrow> out_shown q = out_made q \<and> err_shown q = err_made q)"

lemma spec_moveD:
  assumes "spec_move p q"
  shows "prefix (out_made p) (out_made q)" "prefix (err_made p) (err_made q)" "prefix (out_shown p) (out_shown q)"
    "prefix (err_shown p) (err_shown q)" "prefix (in_read p) (in_read q)" "prefix (in_given p) (in_given q)"
    "prefix (out_shown q) (out_made q)" "prefix (err_shown q) (err_made q)" "prefix (in_given q) (in_read q)"
    "exec_result p \<noteq> None \<Longrightarrow> exec_result q = exec_result p" "exec_result p \<noteq> None \<Longrightarrow> out_shown q = out_shown p"
    "exec_result p \<noteq> None \<Longrightarrow> err_shown q = err_shown p" "exec_result p \<noteq> None \<Longrightarrow> in_read q = in_read p"
    "exec_result p = Some (Inr code) \<Longrightarrow> out_made q = out_made p" "exec_result p = Some (Inr code) \<Longrightarrow> err_made q = err_made p"
    "exec_result q = Some (Inr code) \<Longrightarrow> out_shown q = out_made q" "exec_result q = Some (Inr code) \<Longrightarrow> err_shown q = err_made q"
  using assms unfolding spec_move_def by blast+

lemma spec_move_steps:
  assumes "spec_move p q"
  shows "spec_step\<^sup>*\<^sup>* p q"
proof -
  note mv = spec_moveD [OF assms]
  obtain x where x: "out_made q = out_made p @ x" using mv(1) by (rule prefixE)
  obtain y where y: "err_made q = err_made p @ y" using mv(2) by (rule prefixE)
  obtain x' where x': "out_shown q = out_shown p @ x'" using mv(3) by (rule prefixE)
  obtain y' where y': "err_shown q = err_shown p @ y'" using mv(4) by (rule prefixE)
  obtain r where r: "in_read q = in_read p @ r" using mv(5) by (rule prefixE)
  obtain g where g: "in_given q = in_given p @ g" using mv(6) by (rule prefixE)
  define p1 where "p1 = p\<lparr>out_made := out_made q, err_made := err_made q\<rparr>"
  define p2 where "p2 = p1\<lparr>in_read := in_read q\<rparr>"
  define p3 where "p3 = p2\<lparr>in_given := in_given q\<rparr>"
  define p4 where "p4 = p3\<lparr>out_shown := out_shown q, err_shown := err_shown q\<rparr>"
  note defs = p1_def p2_def p3_def p4_def
  have "spec_step\<^sup>*\<^sup>* p p1"
  proof (cases "\<exists>code. exec_result p = Some (Inr code)")
    case True
    then have "p1 = p" using mv(14,15) by (auto simp: p1_def)
    then show ?thesis by simp
  qed (use spec_step.Make [where p = p and x = x and y = y] in \<open>simp add: p1_def x y r_into_rtranclp\<close>)
  also have "spec_step\<^sup>*\<^sup>* p1 p2"
  proof (cases "exec_result p = None")
    case True
    then show ?thesis using spec_step.Read [of p1 r] by (simp add: p2_def p1_def r r_into_rtranclp)
  next
    case False
    then have "p2 = p1" using mv(13) by (simp add: p2_def p1_def)
    then show ?thesis by simp
  qed
  also have "spec_step p2 p3"
    using spec_step.Give [of p2 g] mv(9) g by (simp add: p3_def p2_def p1_def)
  also have "spec_step\<^sup>*\<^sup>* p3 p4"
  proof (cases "exec_result p = None")
    case True
    then show ?thesis using spec_step.Show [where p = p3 and x = x' and y = y'] mv(7,8) x' y' by (simp add: defs r_into_rtranclp)
  next
    case False
    then have "p4 = p3" using mv(11,12) by (simp add: defs)
    then show ?thesis by simp
  qed
  also have "spec_step\<^sup>*\<^sup>* p4 q"
  proof (cases "exec_result q = exec_result p")
    case True
    then have "p4 = q" by (simp add: defs)
    then show ?thesis by simp
  next
    case False
    then have "exec_result p = None" using mv(10) by blast
    then have n: "exec_result p4 = None" by (simp add: defs)
    obtain res where res: "exec_result q = Some res" using False \<open>exec_result p = None\<close> by (cases "exec_result q") auto
    have "p4\<lparr>exec_result := Some res\<rparr> = q" using res by (simp add: defs)
    moreover have "spec_step p4 (p4\<lparr>exec_result := Some res\<rparr>)"
    proof (cases res)
      case (Inl e)
      then show ?thesis using spec_step.Fail [OF n] by simp
    next
      case (Inr code)
      then have "out_shown p4 = out_made p4" "err_shown p4 = err_made p4" using mv(16,17) res by (simp_all add: defs)
      with Inr show ?thesis using spec_step.Exit [OF n] by simp
    qed
    ultimately show ?thesis by auto
  qed
  finally show ?thesis .
qed

section \<open>Simulation\<close>

text \<open>What each side of the system may change of the outside view.\<close>

lemma client_message_grows:
  "client_message wr r x cl = (msgs, out) \<Longrightarrow>
   prefix (cl_stdout cl) (cl_stdout (outcome_client out)) \<and> prefix (cl_stderr cl) (cl_stderr (outcome_client out))"
  by (cases x) (auto simp: Let_def split: if_splits)

lemma attached_step_grows:
  assumes "attached_step tgt dec ev cl = (msgs, out)"
  shows "prefix (cl_stdout cl) (cl_stdout (outcome_client out)) \<and> prefix (cl_stderr cl) (cl_stderr (outcome_client out))"
proof (cases ev)
  case (FromServer e wr)
  with assms show ?thesis by (cases e) (auto split: sum.splits dest: client_message_grows)
qed (use assms in \<open>auto simp: client_stdin_read_def Let_def split: option.splits if_splits\<close>)

lemma connected_shown:
  "cl_stdout (sy_client (connected_act tgt r n c s)) = cl_stdout (sy_client s)
   \<and> cl_stderr (sy_client (connected_act tgt r n c s)) = cl_stderr (sy_client s)"
proof (cases "after_connect tgt r (sy_client s)")
  case (GoAttach cl)
  with after_connect_frame [OF disjI1 [OF GoAttach]] show ?thesis by (simp add: connected_act_def split_beta)
next
  case (GoLogin cl name)
  then have "cl = sy_client s" by (auto simp: after_connect_def Let_def split: sum.splits ClientError.splits TokenSource.splits if_splits)
  with GoLogin show ?thesis by (simp add: connected_act_def)
next
  case (GoRetry cl d)
  with after_connect_frame [OF disjI2 [OF GoRetry]] show ?thesis by (simp add: connected_act_def)
qed (simp add: connected_act_def)

text \<open>Everything the outside sees only grows, and a client that has returned does nothing more.\<close>

lemma step_grows:
  assumes "step tok tgt command s s'"
  shows "prefix (gh_out s) (gh_out s') \<and> prefix (gh_err s) (gh_err s') \<and> prefix (gh_in s) (gh_in s')
    \<and> prefix (gh_reads s) (gh_reads s') \<and> prefix (cl_stdout (sy_client s)) (cl_stdout (sy_client s'))
    \<and> prefix (cl_stderr (sy_client s)) (cl_stderr (sy_client s'))
    \<and> (gh_lost s \<longrightarrow> gh_lost s')"
  using assms
proof (cases rule: step_cases)
  case (Task st ev env)
  then show ?thesis by (auto simp: task_act_def Let_def split_beta)
next
  case (ClientEvent c cdec cev sent)
  obtain msgs out where st: "attached_step tgt cdec cev (sy_client s) = (msgs, out)" by force
  with ClientEvent attached_step_grows [OF st] show ?thesis by (simp add: client_act_def)
next
  case (ClientStdin c r ok leak)
  obtain msgs out where st: "attached_step tgt (\<lambda>_. Inl ClientProtocol) (StdinRead r ok) (sy_client s) = (msgs, out)" by force
  with ClientStdin attached_step_grows [OF st] show ?thesis by (simp add: stdin_act_def Let_def)
next
  case (Answer c m rest n)
  then show ?thesis by (simp add: connected_act_frame connected_shown pop_down_def)
qed (simp_all add: restart_act_frame flush_act_frame ack_act_frame server_act_frame accept_act_frame
        expire_act_frame connect_act_def connected_act_frame connected_shown)

lemma step_finished:
  assumes "step tok tgt command s s'" "sy_phase s = Finished r"
  shows "sy_phase s' = Finished r \<and> sy_client s' = sy_client s \<and> gh_reads s' = gh_reads s
    \<and> (sy_task s = None \<longrightarrow> gh_out s' = gh_out s \<and> gh_err s' = gh_err s)"
  using assms(1)
proof (cases rule: step_cases)
  case (Task st ev env)
  then show ?thesis using assms(2) by (simp add: task_act_frame)
qed (use assms(2) in \<open>simp_all add: restart_act_frame flush_act_frame ack_act_frame server_act_frame accept_act_frame
        expire_act_frame\<close>)

lemma prefix_stdin_bytes: "prefix xs ys \<Longrightarrow> prefix (stdin_bytes xs) (stdin_bytes ys)"
  by (auto simp: prefix_def)

text \<open>The outside view of a reachable state.\<close>

lemma reachable_pipes:
  assumes "reachable tok tgt command s" "length (gh_hist s) + 2 < 2 ^ 64" "length (gh_reads s) + 2 < 2 ^ 64" "\<not> gh_lost s"
  shows "prefix (cl_stdout (sy_client s)) (gh_out s)" "prefix (cl_stderr (sy_client s)) (gh_err s)"
    "prefix (gh_in s) (stdin_bytes (gh_reads s))"
    "sy_phase s = Finished (Inr code) \<Longrightarrow> cl_stdout (sy_client s) = gh_out s \<and> cl_stderr (sy_client s) = gh_err s \<and> sy_task s = None"
proof -
  have inv: "log_inv s" "client_ok (sy_phase s) (gh_hist s) (sy_client s)"
    using reachable_output [OF assms(1,2)] by (auto simp: down_inv_def)
  then show "prefix (cl_stdout (sy_client s)) (gh_out s)" "prefix (cl_stderr (sy_client s)) (gh_err s)"
    using client_ok_prefix [OF inv(2)] by (simp_all add: log_inv_def)
  have "child_inv s" using reachable_input [OF assms(1-3)] assms(4) by (simp add: up_inv_def)
  then have "prefix (gh_in s) (stdin_bytes (take (applied s) (gh_reads s)))" by (simp add: child_inv_def)
  then show "prefix (gh_in s) (stdin_bytes (gh_reads s))" using prefix_cut prefix_order.order_trans by blast
  show "cl_stdout (sy_client s) = gh_out s \<and> cl_stderr (sy_client s) = gh_err s \<and> sy_task s = None" if "sy_phase s = Finished (Inr code)"
    using inv that by (auto simp: log_inv_def)
qed

lemma step_spec_move:
  assumes "reachable tok tgt command s" "step tok tgt command s s'"
    and "length (gh_hist s') + 2 < 2 ^ 64" "length (gh_reads s') + 2 < 2 ^ 64" "\<not> gh_lost s'"
  shows "spec_move (pipes_of s) (pipes_of s')"
proof -
  note grows = step_grows [OF assms(2)]
  have old: "length (gh_hist s) + 2 < 2 ^ 64" "length (gh_reads s) + 2 < 2 ^ 64" "\<not> gh_lost s"
    using step_hist_mono [OF assms(2)] step_reads_mono [OF assms(2)] assms(3-5) grows by linarith+
  note p = reachable_pipes [OF assms(1) old] and p' = reachable_pipes [OF reachable.Step [OF assms(1,2)] assms(3-5)]
  have fin: "phase_result (sy_phase t) = Some r \<longleftrightarrow> sy_phase t = Finished r" for t r
    by (simp add: phase_result_def split: Phase.splits)
  have "phase_result (sy_phase s) \<noteq> None \<longrightarrow> phase_result (sy_phase s') = phase_result (sy_phase s)
      \<and> sy_client s' = sy_client s \<and> gh_reads s' = gh_reads s"
    using step_finished [OF assms(2)] by (auto simp: fin)
  moreover have "\<forall>code. phase_result (sy_phase s) = Some (Inr code) \<longrightarrow> gh_out s' = gh_out s \<and> gh_err s' = gh_err s"
    using step_finished [OF assms(2)] p(4) by (auto simp: fin)
  moreover have "\<forall>code. phase_result (sy_phase s') = Some (Inr code) \<longrightarrow>
      cl_stdout (sy_client s') = gh_out s' \<and> cl_stderr (sy_client s') = gh_err s'"
    using p'(4) by (auto simp: fin)
  ultimately show ?thesis using grows p'(1-3) prefix_stdin_bytes
    unfolding spec_move_def pipes_of_def by simp
qed

section \<open>Refinement\<close>

text \<open>
  The contract of a simulation: every step to a state within the bounds is matched by steps of the
  specification.  Then every run within the bounds is.
\<close>

locale simulation =
  fixes init :: "'c \<Rightarrow> bool" and cstep :: "'c \<Rightarrow> 'c \<Rightarrow> bool" and within :: "'c \<Rightarrow> bool"
    and start :: 'a and astep :: "'a \<Rightarrow> 'a \<Rightarrow> bool" and abs_of :: "'c \<Rightarrow> 'a"
  assumes abs_init: "init s \<Longrightarrow> abs_of s = start"
    and abs_step: "init s0 \<Longrightarrow> cstep\<^sup>*\<^sup>* s0 s \<Longrightarrow> cstep s s' \<Longrightarrow> within s' \<Longrightarrow> astep\<^sup>*\<^sup>* (abs_of s) (abs_of s')"
    and within_back: "cstep s s' \<Longrightarrow> within s' \<Longrightarrow> within s"
begin

lemma abs_run:
  assumes "init s0" "cstep\<^sup>*\<^sup>* s0 s" "within s"
  shows "astep\<^sup>*\<^sup>* start (abs_of s)"
  using assms(2,3)
proof (induction rule: rtranclp_induct)
  case base
  then show ?case by (simp add: abs_init [OF assms(1)])
next
  case (step s s')
  then show ?case using abs_step [OF assms(1) step.hyps] within_back by (meson rtranclp_trans)
qed

end

definition exec_start :: "string \<Rightarrow> System \<Rightarrow> bool" where
  "exec_start tok s \<longleftrightarrow> (\<exists>io agent now. io_stdin io \<noteq> None \<and> io_exit_code io = None \<and> s = sys_init tok io agent now)"

text \<open>Fewer than 2^64 - 2 messages in each direction, and no failed send of a freshly read chunk.\<close>

definition within_bounds :: "System \<Rightarrow> bool" where
  "within_bounds s \<longleftrightarrow> length (gh_hist s) + 2 < 2 ^ 64 \<and> length (gh_reads s) + 2 < 2 ^ 64 \<and> \<not> gh_lost s"

lemma reachable_run: "reachable tok tgt command s \<longleftrightarrow> (\<exists>s0. exec_start tok s0 \<and> (step tok tgt command)\<^sup>*\<^sup>* s0 s)"
proof
  show "\<exists>s0. exec_start tok s0 \<and> (step tok tgt command)\<^sup>*\<^sup>* s0 s" if "reachable tok tgt command s"
    using that
  proof (induction rule: reachable.induct)
    case (Init io agent now)
    then have "exec_start tok (sys_init tok io agent now)" by (auto simp: exec_start_def)
    then show ?case by blast
  qed (meson rtranclp.rtrancl_into_rtrancl)
next
  assume "\<exists>s0. exec_start tok s0 \<and> (step tok tgt command)\<^sup>*\<^sup>* s0 s"
  then obtain s0 where "exec_start tok s0" "(step tok tgt command)\<^sup>*\<^sup>* s0 s" by blast
  from this(2,1) show "reachable tok tgt command s"
    by (induction rule: rtranclp_induct) (auto simp: exec_start_def intro: reachable.intros)
qed

interpretation exec: simulation "exec_start tok" "step tok tgt command" within_bounds pipes_init spec_step pipes_of
proof unfold_locales
  show "pipes_of s = pipes_init" if "exec_start tok s" for s
    using that by (auto simp: exec_start_def pipes_of_def pipes_init_def sys_init_def Let_def client_init_def)
  show "spec_step\<^sup>*\<^sup>* (pipes_of s) (pipes_of s')"
    if "exec_start tok s0" "(step tok tgt command)\<^sup>*\<^sup>* s0 s" "step tok tgt command s s'" "within_bounds s'" for s0 s s'
  proof -
    have "reachable tok tgt command s" using that(1,2) reachable_run by blast
    with that(3,4) show ?thesis by (intro spec_move_steps step_spec_move) (auto simp: within_bounds_def)
  qed
  show "within_bounds s" if "step tok tgt command s s'" "within_bounds s'" for s s'
    using that step_hist_mono [OF that(1)] step_reads_mono [OF that(1)] step_grows [OF that(1)] by (auto simp: within_bounds_def)
qed

text \<open>
  C3: The whole system refines a pair of reliable pipes.  Every run of client, connections, server,
  restarts and expiry, seen from the outside, is a run of the specification, and each of its steps is
  matched by steps of the specification: output is shown in order and once, input is given in order
  and once, the exit code is reported only when all output was shown, and nothing changes for the
  outside after that.  The run must have fewer than 2^64 - 2 messages in each direction and no failed
  send of a freshly read chunk.
\<close>
theorem system_refines_pipes:
  assumes "reachable tok tgt command s" "step tok tgt command s s'" "within_bounds s'"
  shows "spec_step\<^sup>*\<^sup>* pipes_init (pipes_of s) \<and> spec_step\<^sup>*\<^sup>* (pipes_of s) (pipes_of s')"
proof -
  obtain s0 where "exec_start tok s0" "(step tok tgt command)\<^sup>*\<^sup>* s0 s" using assms(1) reachable_run by blast
  with exec.abs_run exec.abs_step exec.within_back assms(2,3) show ?thesis by blast
qed

theorem system_refines_pipes_witness:
  "spec_step\<^sup>*\<^sup>* pipes_init (pipes_of (flush_act None 6 1 (attach_init 5 0) demo_s4))
   \<and> spec_step\<^sup>*\<^sup>* (pipes_of (flush_act None 6 1 (attach_init 5 0) demo_s4)) (pipes_of demo_s7)
   \<and> out_shown (pipes_of (flush_act None 6 1 (attach_init 5 0) demo_s4)) = [] \<and> out_shown (pipes_of demo_s7) = [104]"
proof -
  let ?a = "flush_act None 6 1 (attach_init 5 0) demo_s4"
  have "reachable ''t'' demo_tgt [] ?a" by (rule reachable.Step [OF demo_reach_4 step.Flush]) (simp add: demo_s4_eq)
  moreover have "step ''t'' demo_tgt [] ?a demo_s7" unfolding demo_s7_def demo_recv_def
    by (rule step.ClientEvent) (simp_all add: demo_s4_eq demo_eval)
  moreover have "within_bounds demo_s7" "cl_stdout (sy_client ?a) = []" "cl_stdout (sy_client demo_s7) = [104]"
    by (simp_all add: within_bounds_def demo_s7_def demo_s4_eq demo_eval)
  ultimately show ?thesis using system_refines_pipes [of "''t''" demo_tgt "[]" ?a demo_s7] by (simp add: pipes_of_def)
qed

end
