(* ===== verification/SystemLive.thy ===== *)
theory SystemLive
  imports SystemOutput
begin

text \<open>
  No reachable state of a registered session is a dead end: whatever happened before, there is a way
  for the client to get everything.  This is about possible continuations (a connection that holds
  long enough); what may go wrong on the way is covered by the invariants.
\<close>

section \<open>Reading what has arrived\<close>

abbreviation steps :: "string \<Rightarrow> Target \<Rightarrow> string \<Rightarrow> System \<Rightarrow> System \<Rightarrow> bool" where
  "steps tok tgt command \<equiv> (step tok tgt command)\<^sup>*\<^sup>*"

lemma steps_reachable: "steps tok tgt command s s' \<Longrightarrow> reachable tok tgt command s \<Longrightarrow> reachable tok tgt command s'"
  by (induction rule: rtranclp_induct) (auto intro: reachable.Step)

text \<open>What the steps of a client that only reads leave alone.\<close>

definition same_session :: "System \<Rightarrow> System \<Rightarrow> bool" where
  "same_session s s' \<longleftrightarrow>
     gh_hist s' = gh_hist s \<and> gh_out s' = gh_out s \<and> gh_err s' = gh_err s \<and> sy_log s' = sy_log s"

lemma client_message_ok:
  "client_message WriteOk True x cl = (msgs, out) \<Longrightarrow> (\<exists>cl'. out = Attached cl') \<or> (\<exists>cl' code. out = Exited cl' code)"
  by (cases x) (auto simp: Let_def split: if_splits)

lemma read_all:
  assumes "sy_phase s = On c" "cn_down (sy_conns s c) = xs"
  shows "\<exists>s'. steps tok tgt command s s' \<and> same_session s s' \<and> cn_att (sy_conns s' c) = cn_att (sy_conns s c)
     \<and> (sy_phase s' = On c \<and> cn_down (sy_conns s' c) = [] \<or> (\<exists>code. sy_phase s' = Finished (Inr code)))"
  using assms
proof (induction xs arbitrary: s)
  case Nil
  then show ?case by (intro exI [of _ s]) (simp add: same_session_def)
next
  case (Cons x xs)
  define s1 where "s1 = client_act tgt (\<lambda>_. Inr x) (FromServer (ConnFrame []) WriteOk) True c s"
  have "step tok tgt command s s1" unfolding s1_def by (rule step.ClientEvent) (use Cons.prems in simp_all)
  obtain msgs out where m: "client_message WriteOk True x (sy_client s) = (msgs, out)" by force
  have f: "sy_phase s1 = outcome_phase c out" "cn_down (sy_conns s1 c) = xs" "cn_att (sy_conns s1 c) = cn_att (sy_conns s c)"
    using Cons.prems m by (simp_all add: s1_def client_act_def)
  have same: "same_session s s1" by (simp add: same_session_def s1_def client_act_frame)
  show ?case
  proof (cases "sy_phase s1 = On c")
    case True
    from Cons.IH [OF this f(2)] obtain s' where
      "steps tok tgt command s1 s'" "same_session s1 s'" "cn_att (sy_conns s' c) = cn_att (sy_conns s1 c)"
      "sy_phase s' = On c \<and> cn_down (sy_conns s' c) = [] \<or> (\<exists>code. sy_phase s' = Finished (Inr code))" by blast
    with \<open>step tok tgt command s s1\<close> same f(3) show ?thesis
      by (intro exI [of _ s']) (auto simp: same_session_def intro: converse_rtranclp_into_rtranclp)
  next
    case False
    with client_message_ok [OF m] f(1) have "\<exists>code. sy_phase s1 = Finished (Inr code)" by auto
    with \<open>step tok tgt command s s1\<close> same f(3) show ?thesis by (intro exI [of _ s1]) auto
  qed
qed

section \<open>Coming back\<close>

text \<open>From any point the client can find itself between two connections.\<close>

lemma go_away:
  assumes "\<not> is_finished (sy_phase s)" "resume_token (sy_client s) = Some tk"
  shows "\<exists>s'. steps tok tgt command s s' \<and> same_session s s' \<and> sy_phase s' = Away \<and> resume_token (sy_client s') = Some tk
     \<and> sy_registry s' = sy_registry s"
proof (cases "sy_phase s")
  case Away
  with assms show ?thesis by (intro exI [of _ s]) (simp add: same_session_def)
next
  case (Waiting c)
  define s1 where "s1 = connected_act tgt (Inl ConnectTimeout) None c s"
  have "step tok tgt command s s1" unfolding s1_def by (rule step.ConnectFails) (use Waiting in simp_all)
  moreover have "same_session s s1" by (simp add: same_session_def s1_def connected_act_frame)
  moreover have "sy_phase s1 = Away" "resume_token (sy_client s1) = Some tk" "sy_registry s1 = sy_registry s"
    using assms(2) by (simp_all add: s1_def connected_act_def after_connect_retry)
  ultimately show ?thesis by blast
next
  case (On c)
  define s1 where "s1 = client_act tgt (\<lambda>_. Inl ClientIo) (FromServer Disconnected WriteOk) True c s"
  have "step tok tgt command s s1" unfolding s1_def by (rule step.ClientEvent) (use On in simp_all)
  moreover have "same_session s s1" by (simp add: same_session_def s1_def client_act_frame)
  moreover have "sy_phase s1 = Away" "resume_token (sy_client s1) = Some tk" "sy_registry s1 = sy_registry s"
    using assms(2) by (simp_all add: s1_def client_act_def)
  ultimately show ?thesis by blast
qed (use assms in simp)

text \<open>And from there it can attach again, with everything that is missing under way to it.\<close>

lemma come_back:
  assumes "reachable tok tgt command s" "length (gh_hist s) + 2 < 2 ^ 64"
    and "sy_phase s = Away" "resume_token (sy_client s) = Some tok" "registry_get tok (sy_registry s) = Some i"
  shows "\<exists>s' c a. steps tok tgt command s s' \<and> same_session s s' \<and> sy_phase s' = On c \<and> cn_att (sy_conns s' c) = Some a
     \<and> unat (sent_up_to a) = length (gh_hist s')"
proof -
  have inv: "log_inv s" "down_inv s" using reachable_output [OF assms(1,2)] by auto
  let ?c = "sy_next s" and ?H = "gh_hist s"
  define s1 where "s1 = connect_act tgt command s"
  define s2 where "s2 = accept_act 0 ?c (Resume tok (seen s)) s1"
  define m where "m = started_message tok (sy_session s1)"
  define s3 where "s3 = connected_act tgt (start_reply m) None ?c (pop_down ?c s2)"
  define s4 where "s4 = flush_act None 0 ?c (attach_init 0 (seen s)) s3"
  have res: "ses_resumable (sy_session s)" using inv(2) by (simp add: down_inv_def token_ok_def)
  then have reply: "start_reply m = Inr (Some tok)" by (simp add: m_def s1_def connect_act_def started_message_def)
  have f1: "sy_phase s1 = Waiting ?c" "sy_client s1 = sy_client s" "sy_registry s1 = sy_registry s" "sy_session s1 = sy_session s"
    "sy_conns s1 ?c = no_conn\<lparr>cn_req := Some (Resume tok (seen s))\<rparr>" "gh_hist s1 = ?H" "gh_out s1 = gh_out s" "gh_err s1 = gh_err s"
    using assms(4) by (simp_all add: s1_def connect_act_def start_request_def)
  have f2: "sy_phase s2 = Waiting ?c" "sy_client s2 = sy_client s" "cn_down (sy_conns s2 ?c) = [m]"
    "cn_att (sy_conns s2 ?c) = Some (attach_init 0 (seen s))" "sy_log s2 = sy_log s"
    using assms(5) f1 by (simp_all add: s2_def accept_act_def handle_request_def server_view_def m_def no_conn_def Let_def)
  obtain cl where cl: "after_connect tgt (start_reply m) (sy_client s) = GoAttach cl"
    by (simp add: reply after_connect_def Let_def)
  have f3: "sy_phase s3 = On ?c" "cn_att (sy_conns s3 ?c) = Some (attach_init 0 (seen s))" "sy_log s3 = sy_log s" "gh_hist s3 = ?H"
    "gh_out s3 = gh_out s" "gh_err s3 = gh_err s"
    using cl f2 f1 by (simp_all add: s3_def connected_act_def pop_down_def resend_def s2_def accept_act_frame)
  have "step tok tgt command s s1" unfolding s1_def by (rule step.Connect [OF assms(3)])
  moreover have "step tok tgt command s1 s2" unfolding s2_def by (rule step.Accept) (simp add: f1)
  moreover have "step tok tgt command s2 s3" unfolding s3_def by (rule step.Answer [OF f2(1,3)])
  moreover have "step tok tgt command s3 s4" unfolding s4_def by (rule step.Flush [OF f3(2)])
  ultimately have "steps tok tgt command s s4" by (meson converse_rtranclp_into_rtranclp rtranclp.rtrancl_refl)
  moreover have le: "unat (seen s) \<le> length ?H" "trimmed s \<le> unat (seen s)"
    using inv(2) assms(3) down_inv_bounds(2) [OF inv(2)] by (simp_all add: down_inv_def)
  have "log_holds (sh_log (ses_shared (sy_session s3))) ?H (trimmed s)" using log_invD(1) [OF inv(1)] f3(3) by simp
  note fl = attach_flush_eq [OF this, of "attach_init 0 (seen s)" "drop (unat (seen s)) ?H" None]
  have bound: "length ?H < 2 ^ 64" using assms(2) by simp
  define a where "a = flushed (drop (unat (seen s)) ?H) (attach_init 0 (seen s))"
  have up: "unat (sent_up_to a) = length ?H"
    using flushed_up_to [OF refl, of "attach_init 0 (seen s)" ?H] le(1) unat_u64_of_nat [OF bound]
    by (simp add: a_def attach_init_def)
  have "sy_phase s4 = On ?c" "cn_att (sy_conns s4 ?c) = Some a"
    using f3(1) fl le by (simp_all add: s4_def flush_act_def a_def attach_init_def)
  moreover have "same_session s s4" by (simp add: same_session_def s4_def flush_act_frame f3)
  ultimately show ?thesis using up by (intro exI [of _ s4] exI [of _ ?c] exI [of _ a]) (simp add: s4_def flush_act_frame f3)
qed

section \<open>Properties\<close>

text \<open>
  C9: A client with a resume token can always get everything.  From every reachable state in which
  \<open>run_exec\<close> has not returned and the session is still registered, whatever was lost before, there
  is a continuation in which the client has written every byte the child has written, and if the
  child has exited the client returns its exit code.
\<close>
theorem resume_can_complete:
  assumes "reachable tok tgt command s" "length (gh_hist s) + 2 < 2 ^ 64"
    and "\<not> is_finished (sy_phase s)" "resume_token (sy_client s) = Some tok" "registry_get tok (sy_registry s) \<noteq> None"
  shows "\<exists>s'. (step tok tgt command)\<^sup>*\<^sup>* s s' \<and> gh_hist s' = gh_hist s
     \<and> cl_stdout (sy_client s') = gh_out s \<and> cl_stderr (sy_client s') = gh_err s
     \<and> (\<forall>H e code. gh_hist s = H @ [Exit e code] \<longrightarrow> sy_phase s' = Finished (Inr code))"
proof -
  obtain i where i: "registry_get tok (sy_registry s) = Some i" using assms(5) by blast
  obtain s1 where s1: "steps tok tgt command s s1" "same_session s s1" "sy_phase s1 = Away"
    "resume_token (sy_client s1) = Some tok" "sy_registry s1 = sy_registry s"
    using go_away [OF assms(3,4)] by blast
  have r1: "reachable tok tgt command s1" using steps_reachable [OF s1(1) assms(1)] .
  have b1: "length (gh_hist s1) + 2 < 2 ^ 64" "registry_get tok (sy_registry s1) = Some i"
    using s1(2,5) assms(2) i by (simp_all add: same_session_def)
  obtain s2 c a where s2: "steps tok tgt command s1 s2" "same_session s1 s2" "sy_phase s2 = On c"
    "cn_att (sy_conns s2 c) = Some a" "unat (sent_up_to a) = length (gh_hist s2)"
    using come_back [OF r1 b1(1) s1(3,4) b1(2)] by blast
  obtain s' where s': "steps tok tgt command s2 s'" "same_session s2 s'" "cn_att (sy_conns s' c) = cn_att (sy_conns s2 c)"
    "sy_phase s' = On c \<and> cn_down (sy_conns s' c) = [] \<or> (\<exists>code. sy_phase s' = Finished (Inr code))"
    using read_all [OF s2(3) refl] by blast
  have path: "steps tok tgt command s s'" using s1(1) s2(1) s'(1) by simp
  have same: "gh_hist s' = gh_hist s" "gh_out s' = gh_out s" "gh_err s' = gh_err s" "gh_hist s2 = gh_hist s"
    using s1(2) s2(2) s'(2) by (simp_all add: same_session_def)
  have inv: "log_inv s'" "down_inv s'"
    using reachable_output [OF steps_reachable [OF path assms(1)]] assms(2) same(1) by auto
  then have cl: "client_ok (sy_phase s') (gh_hist s') (sy_client s')" by (simp add: down_inv_def)
  have out: "gh_out s' = stdout_bytes (gh_hist s')" "gh_err s' = stderr_bytes (gh_hist s')" using inv(1) by (simp_all add: log_inv_def)
  from s'(4) show ?thesis
  proof (elim disjE conjE exE)
    fix code
    assume fin: "sy_phase s' = Finished (Inr code)"
    with cl out path same show ?thesis by (intro exI [of _ s']) auto
  next
    assume on: "sy_phase s' = On c" "cn_down (sy_conns s' c) = []"
    have "log_after (sy_log s') (sent_up_to a) = []"
      using log_after_suffix [OF log_invD(1) [OF inv(1)], of "sent_up_to a"] s2(5) same by simp
    with quiescent_seen [OF inv on(1)] s'(3) s2(4) on(2) have "unat (seen s') = length (gh_hist s')" by simp
    with cl on(1) out path same show ?thesis by (intro exI [of _ s']) auto
  qed
qed

theorem resume_can_complete_witness:
  "\<exists>s'. (step ''t'' demo_tgt [])\<^sup>*\<^sup>* demo_s4 s' \<and> cl_stdout (sy_client demo_s4) = [] \<and> cl_stdout (sy_client s') = [104]"
proof -
  have "\<not> is_finished (sy_phase demo_s4)" "resume_token (sy_client demo_s4) = Some ''t''"
    "registry_get ''t'' (sy_registry demo_s4) \<noteq> None" "cl_stdout (sy_client demo_s4) = []"
    by (simp_all add: demo_s4_eq registry_get_def)
  with resume_can_complete [OF demo_reach_4 demo_middle(2)] demo_middle(3) show ?thesis by auto
qed

end
