(* ===== verification/Agent.thy ===== *)
theory Agent
  imports Attach Client "HOL-Library.AList"
begin

text \<open>
  Forwarding of the SSH agent (\<open>src/server/src/agent.rs\<close> and \<open>src/client/src/agent.rs\<close>): every
  connection to the forwarded socket is a stream with its own number, relayed over the agent
  channel that attached last.  Both ends keep a table of the streams with a queue of bytes still
  to be written to the local socket, and a relay per stream that moves bytes between the socket
  and the channel.

  Unbounded channels are lists; a sender that was dropped is a flag.  What the sockets do is the
  event of a step.
\<close>

section \<open>Streams\<close>

text \<open>The receiving side of a stream: what is queued for the local socket, and whether the sender is
  still in the table.\<close>

record Stream =
  st_queue :: "bytes list"
  st_open :: bool

type_synonym streams = "(u64 \<times> Stream) list"

definition new_stream :: Stream where
  "new_stream = \<lparr>st_queue = [], st_open = True\<rparr>"

text \<open>\<open>streams.get(&id)\<close> followed by a send, and \<open>streams.remove(&id)\<close>.  The queue of a stream that was
  removed is still drained by its relay.\<close>

definition stream_push :: "u64 \<Rightarrow> bytes \<Rightarrow> streams \<Rightarrow> streams" where
  "stream_push i data ss =
     (case map_of ss i of
        Some s \<Rightarrow> if st_open s then AList.update i (s\<lparr>st_queue := st_queue s @ [data]\<rparr>) ss else ss
      | None \<Rightarrow> ss)"

definition stream_close :: "u64 \<Rightarrow> streams \<Rightarrow> streams" where
  "stream_close i ss =
     (case map_of ss i of Some s \<Rightarrow> AList.update i (s\<lparr>st_open := False\<rparr>) ss | None \<Rightarrow> ss)"

text \<open>One event of a relay's select loop.\<close>

datatype RelayEvent =
    LocalRead ReadResult
  | QueueRecv WriteResult \<comment> \<open>how the write of the received bytes ends\<close>

section \<open>The hub of the server\<close>

text \<open>The path of its socket, which plays no part in forwarding, is kept beside it.\<close>

record AgentHub =
  hub_channel :: "nat option"
  hub_out :: "nat \<Rightarrow> ChannelMessage list" \<comment> \<open>queue of every channel that ever attached\<close>
  hub_streams :: streams
  hub_next_id :: u64

definition AgentHub_start :: AgentHub where
  "AgentHub_start = \<lparr>hub_channel = None, hub_out = (\<lambda>_. []), hub_streams = [], hub_next_id = 1\<rparr>"

text \<open>
  \<open>AgentHub::start\<close>: the socket at a stable path in the runtime directory, where one left by an earlier
  run is removed, or in a private directory.  What the file system answers is an argument.
\<close>

record HubEnv =
  he_exists :: bool
  he_remove :: "ServerError option"
  he_tempdir :: "ServerError + string"
  he_bind :: "string \<Rightarrow> ServerError option"

definition agent_socket :: "HubEnv \<Rightarrow> string option \<Rightarrow> ServerError + string" where
  "agent_socket env runtime_dir =
     (case runtime_dir of
        Some dir \<Rightarrow>
          (if he_exists env
           then (case he_remove env of Some e \<Rightarrow> Inl e | None \<Rightarrow> Inr (path_join dir ''agent.sock''))
           else Inr (path_join dir ''agent.sock''))
      | None \<Rightarrow> and_then (he_tempdir env) (\<lambda>dir. Inr (path_join dir ''agent.sock'')))"

definition hub_start :: "HubEnv \<Rightarrow> string option \<Rightarrow> ServerError + (string \<times> AgentHub)" where
  "hub_start env runtime_dir =
     and_then (agent_socket env runtime_dir)
       (\<lambda>path. case he_bind env path of Some e \<Rightarrow> Inl e | None \<Rightarrow> Inr (path, AgentHub_start))"

text \<open>\<open>SharedAgentHub::get_or_start\<close>: the hub with the path of its socket, started at the first use.\<close>

definition get_or_start ::
  "HubEnv \<Rightarrow> string option \<Rightarrow> (string \<times> AgentHub) option \<Rightarrow>
   (ServerError + (string \<times> AgentHub)) \<times> (string \<times> AgentHub) option" where
  "get_or_start env runtime_dir hub =
     (case hub of
        Some h \<Rightarrow> (Inr h, hub)
      | None \<Rightarrow> (case hub_start env runtime_dir of Inl e \<Rightarrow> (Inl e, None) | Inr h \<Rightarrow> (Inr h, Some h)))"

definition send_to_channel :: "ChannelMessage \<Rightarrow> AgentHub \<Rightarrow> bool \<times> AgentHub" where
  "send_to_channel m h =
     (case hub_channel h of
        Some c \<Rightarrow> (True, h\<lparr>hub_out := (hub_out h)(c := hub_out h c @ [m])\<rparr>)
      | None \<Rightarrow> (False, h))"

definition CHANNEL_WAIT :: millis where "CHANNEL_WAIT = 5 * 1000"

text \<open>\<open>channel_attached\<close>: the time until a channel attaches, if one does.\<close>

definition channel_attached :: "AgentHub \<Rightarrow> millis option \<Rightarrow> bool" where
  "channel_attached h wait =
     (hub_channel h \<noteq> None \<or> (case wait of Some t \<Rightarrow> t < CHANNEL_WAIT | None \<Rightarrow> False))"

text \<open>The start of \<open>relay_agent_stream\<close> once a channel is attached.  The result is the number of the
  stream, \<open>None\<close> when the channel is gone again.\<close>

definition hub_open :: "AgentHub \<Rightarrow> u64 option \<times> AgentHub" where
  "hub_open h =
     (let i = hub_next_id h;
          h1 = h\<lparr>hub_next_id := i + 1, hub_streams := AList.update i new_stream (hub_streams h)\<rparr>
      in case send_to_channel (AgentOpen i) h1 of
           (True, h2) \<Rightarrow> (Some i, h2)
         | (False, h2) \<Rightarrow> (None, h2\<lparr>hub_streams := AList.delete i (hub_streams h2)\<rparr>))"

text \<open>A connection to the socket: it waits for a channel on the hub as it is, and opens a stream on the hub as
  it is by then.\<close>

definition relay_start :: "AgentHub \<Rightarrow> millis option \<Rightarrow> AgentHub \<Rightarrow> u64 option \<times> AgentHub" where
  "relay_start h wait h' = (if channel_attached h wait then hub_open h' else (None, h'))"

text \<open>The end of the relay; its queue goes with it.\<close>

definition hub_finish :: "u64 \<Rightarrow> AgentHub \<Rightarrow> AgentHub" where
  "hub_finish i h = snd (send_to_channel (AgentClose i) (h\<lparr>hub_streams := AList.delete i (hub_streams h)\<rparr>))"

text \<open>One event of the relay of stream \<open>i\<close>: the hub afterwards, and what was written to the local socket.
  \<open>QueueRecv\<close> can only happen when something is queued or the sender is gone.\<close>

definition hub_relay :: "u64 \<Rightarrow> RelayEvent \<Rightarrow> AgentHub \<Rightarrow> AgentHub \<times> bytes" where
  "hub_relay i ev h =
     (case ev of
        LocalRead (ReadOk (b # bs)) \<Rightarrow>
          (case send_to_channel (AgentData i (b # bs)) h of
             (True, h') \<Rightarrow> (h', [])
           | (False, h') \<Rightarrow> (hub_finish i h', []))
      | LocalRead _ \<Rightarrow> (hub_finish i h, [])
      | QueueRecv wr \<Rightarrow>
          (case map_of (hub_streams h) i of
             Some s \<Rightarrow>
               (case st_queue s of
                  data # rest \<Rightarrow>
                    (let h' = h\<lparr>hub_streams := AList.update i (s\<lparr>st_queue := rest\<rparr>) (hub_streams h)\<rparr>
                     in if wr = WriteOk then (h', data) else (hub_finish i h', write_out wr data))
                | [] \<Rightarrow> if st_open s then (h, []) else (hub_finish i h, []))
           | None \<Rightarrow> (h, [])))"

text \<open>\<open>handle_agent_channel\<close>: attach, one decoded frame, the next message to send, detach.\<close>

definition channel_attach :: "nat \<Rightarrow> AgentHub \<Rightarrow> AgentHub" where
  "channel_attach c h = h\<lparr>hub_channel := Some c\<rparr>"

fun channel_message :: "ChannelMessage \<Rightarrow> AgentHub \<Rightarrow> AgentHub" where
  "channel_message (AgentData i data) h = h\<lparr>hub_streams := stream_push i data (hub_streams h)\<rparr>"
| "channel_message (AgentClose i) h = h\<lparr>hub_streams := stream_close i (hub_streams h)\<rparr>"
| "channel_message _ h = h"

definition channel_next :: "nat \<Rightarrow> AgentHub \<Rightarrow> (ChannelMessage \<times> AgentHub) option" where
  "channel_next c h =
     (case hub_out h c of m # ms \<Rightarrow> Some (m, h\<lparr>hub_out := (hub_out h)(c := ms)\<rparr>) | [] \<Rightarrow> None)"

definition channel_detach :: "nat \<Rightarrow> AgentHub \<Rightarrow> AgentHub" where
  "channel_detach c h = (if hub_channel h = Some c then h\<lparr>hub_channel := None\<rparr> else h)"

section \<open>The relay of the client\<close>

record ClientAgent =
  ca_streams :: streams
  ca_out :: "ChannelMessage list"

definition ClientAgent_start :: ClientAgent where
  "ClientAgent_start = \<lparr>ca_streams = [], ca_out = []\<rparr>"

text \<open>\<open>connect_agent_channel\<close>: the messages it sends, given the results of its calls.\<close>

definition connect_agent_channel ::
  "string \<Rightarrow> string \<Rightarrow> ClientError + string \<Rightarrow> ClientError option \<Rightarrow> ClientError option \<Rightarrow> ClientError option \<Rightarrow>
   ClientError + Welcome \<Rightarrow> (Hello list \<times> ExecRequest list) \<times> (ClientError + unit)" where
  "connect_agent_channel version resume token conn hello_fails request_fails welcome =
     (case token of
        Inl e \<Rightarrow> (([], []), Inl e)
      | Inr t \<Rightarrow>
          (case conn of
             Some e \<Rightarrow> (([], []), Inl e)
           | None \<Rightarrow>
               (case hello_fails of
                  Some e \<Rightarrow> (([], []), Inl e)
                | None \<Rightarrow>
                    (let h = \<lparr>hello_token = t, client_name = ''herdr-eternal-ssh (agent)'', client_version = version\<rparr>
                     in case request_fails of
                          Some e \<Rightarrow> (([h], []), Inl e)
                        | None \<Rightarrow> (([h], [AgentChannel resume]), and_then welcome (\<lambda>_. Inr ()))))))"

text \<open>One decoded frame from the server.\<close>

fun relay_message :: "ChannelMessage \<Rightarrow> ClientAgent \<Rightarrow> ClientAgent" where
  "relay_message (AgentOpen i) a = a\<lparr>ca_streams := AList.update i new_stream (ca_streams a)\<rparr>"
| "relay_message (AgentData i data) a = a\<lparr>ca_streams := stream_push i data (ca_streams a)\<rparr>"
| "relay_message (AgentClose i) a = a\<lparr>ca_streams := stream_close i (ca_streams a)\<rparr>"
| "relay_message _ a = a"

text \<open>A relay that ended.  Its sender stays in the table until the server closes the stream, but nothing
  reads its queue any more.\<close>

definition relay_close :: "u64 \<Rightarrow> ClientAgent \<Rightarrow> ClientAgent" where
  "relay_close i a = a\<lparr>ca_out := ca_out a @ [AgentClose i]\<rparr>"

text \<open>One event of \<open>relay_agent_stream\<close>: the state, the bytes written to the agent, and whether the relay
  goes on.\<close>

datatype ClientRelayEvent = ConnectFailed | Relay RelayEvent

definition client_relay :: "u64 \<Rightarrow> ClientRelayEvent \<Rightarrow> ClientAgent \<Rightarrow> ClientAgent \<times> bytes \<times> bool" where
  "client_relay i ev a =
     (case ev of
        ConnectFailed \<Rightarrow> (relay_close i a, [], False)
      | Relay (LocalRead (ReadOk (b # bs))) \<Rightarrow> (a\<lparr>ca_out := ca_out a @ [AgentData i (b # bs)]\<rparr>, [], True)
      | Relay (LocalRead _) \<Rightarrow> (relay_close i a, [], False)
      | Relay (QueueRecv wr) \<Rightarrow>
          (case map_of (ca_streams a) i of
             Some s \<Rightarrow>
               (case st_queue s of
                  data # rest \<Rightarrow>
                    (let a' = a\<lparr>ca_streams := AList.update i (s\<lparr>st_queue := rest\<rparr>) (ca_streams a)\<rparr>
                     in if wr = WriteOk then (a', data, True) else (relay_close i a', write_out wr data, False))
                | [] \<Rightarrow> (a, [], st_open s))
           | None \<Rightarrow> (a, [], False)))"

section \<open>Taking messages apart\<close>

text \<open>What a message does to one stream.\<close>

fun stream_step :: "u64 \<Rightarrow> ChannelMessage \<Rightarrow> Stream option \<Rightarrow> Stream option" where
  "stream_step j (AgentData i d) (Some s) =
     Some (if i = j \<and> st_open s then s\<lparr>st_queue := st_queue s @ [d]\<rparr> else s)"
| "stream_step j (AgentClose i) (Some s) = Some (if i = j then s\<lparr>st_open := False\<rparr> else s)"
| "stream_step j _ so = so"

fun opens :: "ChannelMessage \<Rightarrow> u64 option" where
  "opens (AgentOpen i) = Some i"
| "opens _ = None"

text \<open>The bytes a list of messages carries for a stream, up to its close.\<close>

fun stream_data :: "u64 \<Rightarrow> ChannelMessage list \<Rightarrow> bytes list" where
  "stream_data j [] = []"
| "stream_data j (AgentData i d # ms) = (if i = j then d # stream_data j ms else stream_data j ms)"
| "stream_data j (AgentClose i # ms) = (if i = j then [] else stream_data j ms)"
| "stream_data j (_ # ms) = stream_data j ms"

text \<open>
  The contract of both ends: a message of one stream has no effect on any other, data is queued in
  order, and a closed stream takes nothing more.
\<close>

locale agent_demux =
  fixes deliver :: "ChannelMessage \<Rightarrow> 's \<Rightarrow> 's" and table :: "'s \<Rightarrow> streams"
  assumes deliver_stream: "opens m \<noteq> Some j \<Longrightarrow> map_of (table (deliver m s)) j = stream_step j m (map_of (table s) j)"
begin

lemma deliver_all:
  "\<forall>m \<in> set ms. opens m \<noteq> Some j \<Longrightarrow>
   map_of (table (fold deliver ms s)) j = fold (stream_step j) ms (map_of (table s) j)"
  by (induction ms arbitrary: s) (simp_all add: deliver_stream)

lemma closed_fold: "\<not> st_open t \<Longrightarrow> fold (stream_step j) ms (Some t) = Some t"
proof (induction ms)
  case (Cons m ms)
  have "stream_step j m (Some t) = Some t" using Cons.prems by (cases m) auto
  with Cons show ?case by simp
qed simp

lemma queue_fold:
  "st_open t \<Longrightarrow> \<exists>u. fold (stream_step j) ms (Some t) = Some u \<and> st_queue u = st_queue t @ stream_data j ms"
proof (induction ms arbitrary: t)
  case (Cons m ms)
  show ?case
  proof (cases "m = AgentClose j")
    case True
    then show ?thesis using closed_fold [of "t\<lparr>st_open := False\<rparr>" j ms] by simp
  next
    case False
    define t' where "t' = (case m of AgentData i d \<Rightarrow> if i = j then t\<lparr>st_queue := st_queue t @ [d]\<rparr> else t | _ \<Rightarrow> t)"
    have "stream_step j m (Some t) = Some t'" "st_open t'" "st_queue t' @ stream_data j ms = st_queue t @ stream_data j (m # ms)"
      using False Cons.prems by (cases m; simp add: t'_def)+
    with Cons.IH [of t'] show ?thesis by auto
  qed
qed simp

text \<open>An open stream gets exactly its own data, in order, whatever else arrives.\<close>

lemma deliver_queue:
  assumes "\<forall>m \<in> set ms. opens m \<noteq> Some j" "map_of (table s) j = Some t" "st_open t"
  shows "\<exists>u. map_of (table (fold deliver ms s)) j = Some u \<and> st_queue u = st_queue t @ stream_data j ms"
  using deliver_all [OF assms(1), of s] queue_fold [OF assms(3), of j ms] assms(2) by simp

text \<open>Messages for a stream that is not in the table have no effect on it.\<close>

lemma deliver_unknown:
  assumes "\<forall>m \<in> set ms. opens m \<noteq> Some j" "map_of (table s) j = None"
  shows "map_of (table (fold deliver ms s)) j = None"
proof -
  have "fold (stream_step j) ms None = None" by (induction ms) simp_all
  with deliver_all [OF assms(1), of s] assms(2) show ?thesis by simp
qed

end

lemma map_of_push: "map_of (stream_push i d ss) j = stream_step j (AgentData i d) (map_of ss j)"
  by (cases "map_of ss j"; cases "map_of ss i") (auto simp: stream_push_def update_conv')

lemma map_of_close: "map_of (stream_close i ss) j = stream_step j (AgentClose i) (map_of ss j)"
  by (cases "map_of ss j"; cases "map_of ss i") (auto simp: stream_close_def update_conv')

interpretation hub_demux: agent_demux channel_message hub_streams
proof unfold_locales
  fix m j s
  assume "opens m \<noteq> Some j"
  then show "map_of (hub_streams (channel_message m s)) j = stream_step j m (map_of (hub_streams s) j)"
    by (cases m) (simp_all add: map_of_push map_of_close)
qed

interpretation client_demux: agent_demux relay_message ca_streams
proof unfold_locales
  fix m j s
  assume "opens m \<noteq> Some j"
  then show "map_of (ca_streams (relay_message m s)) j = stream_step j m (map_of (ca_streams s) j)"
    by (cases m) (simp_all add: map_of_push map_of_close update_conv')
qed

end
