(* ===== verification/AgentLink.thy ===== *)
theory AgentLink
  imports Agent "HOL-Library.Sublist"
begin

text \<open>
  One agent channel end to end: the hub of the server, the two directions of the connection, and the
  relay of the client that serves it.  Streams of other channels live in the same hub, other channels
  may attach and detach at any time, and all relays and the connection run interleaved.

  Ghost fields record, per stream, what was read from and written to the sockets at both ends since this channel
  attached: \<open>gs_read\<close> and \<open>gs_wrote\<close> at the server, \<open>gc_wrote\<close> and \<open>gc_read\<close> at the client.  Of what the relays of
  the hub read, \<open>gs_sent\<close> is the part that was sent to this channel; the rest went to a channel that has
  replaced it, or nowhere.
\<close>

section \<open>The system\<close>

record AgentLink =
  al_hub :: AgentHub
  al_down :: "ChannelMessage list"
  al_client :: ClientAgent
  al_up :: "ChannelMessage list"
  al_done :: "u64 set" \<comment> \<open>streams whose relay at the client has ended\<close>
  al_opened :: nat \<comment> \<open>connections to the forwarded socket so far\<close>
  al_ours :: "u64 set" \<comment> \<open>the streams opened while this channel was the attached one\<close>
  gs_read :: "u64 \<Rightarrow> bytes"
  gs_sent :: "u64 \<Rightarrow> bytes"
  gc_wrote :: "u64 \<Rightarrow> bytes"
  gc_read :: "u64 \<Rightarrow> bytes"
  gs_wrote :: "u64 \<Rightarrow> bytes"

definition grow :: "u64 \<Rightarrow> bytes \<Rightarrow> (u64 \<Rightarrow> bytes) \<Rightarrow> u64 \<Rightarrow> bytes" where
  "grow i w g = g(i := g i @ w)"

fun local_data :: "RelayEvent \<Rightarrow> bytes" where
  "local_data (LocalRead (ReadOk d)) = d"
| "local_data _ = []"

text \<open>The state when the channel \<open>c\<close> attaches to a hub: nothing of it is queued anywhere.\<close>

definition link_init :: "nat \<Rightarrow> AgentHub \<Rightarrow> AgentLink" where
  "link_init c h =
     \<lparr>al_hub = channel_attach c (h\<lparr>hub_out := (hub_out h)(c := [])\<rparr>), al_down = [], al_client = ClientAgent_start, al_up = [],
      al_done = {}, al_opened = 0, al_ours = {}, gs_read = (\<lambda>_. []), gs_sent = (\<lambda>_. []), gc_wrote = (\<lambda>_. []), gc_read = (\<lambda>_. []), gs_wrote = (\<lambda>_. [])\<rparr>"

definition opened_ours :: "nat \<Rightarrow> AgentLink \<Rightarrow> u64 set" where
  "opened_ours c l = (if hub_channel (al_hub l) = Some c then insert (hub_next_id (al_hub l)) (al_ours l) else al_ours l)"

fun msg_stream :: "ChannelMessage \<Rightarrow> u64 option" where
  "msg_stream (AgentData i _) = Some i"
| "msg_stream (AgentClose i) = Some i"
| "msg_stream _ = None"

text \<open>The clients of other channels send only for streams that were not opened at this one, and that exist.\<close>

inductive link_step :: "nat \<Rightarrow> AgentLink \<Rightarrow> AgentLink \<Rightarrow> bool" for c where
  Open: "link_step c l (l\<lparr>al_hub := snd (hub_open (al_hub l)), al_opened := Suc (al_opened l), al_ours := opened_ours c l\<rparr>)"
| HubRelay: "map_of (hub_streams (al_hub l)) i \<noteq> None \<Longrightarrow> hub_relay i ev (al_hub l) = (h', w) \<Longrightarrow>
    link_step c l (l\<lparr>al_hub := h', gs_wrote := grow i w (gs_wrote l),
      gs_read := grow i (local_data ev) (gs_read l),
      gs_sent := grow i (if hub_channel (al_hub l) = Some c then local_data ev else []) (gs_sent l)\<rparr>)"
| Send: "channel_next c (al_hub l) = Some (m, h') \<Longrightarrow> link_step c l (l\<lparr>al_hub := h', al_down := al_down l @ [m]\<rparr>)"
| ClientRecv: "al_down l = m # ms \<Longrightarrow> link_step c l (l\<lparr>al_down := ms, al_client := relay_message m (al_client l)\<rparr>)"
| ClientRelay: "map_of (ca_streams (al_client l)) i \<noteq> None \<Longrightarrow> i \<notin> al_done l \<Longrightarrow> client_relay i ev (al_client l) = (a', w, go) \<Longrightarrow>
    link_step c l (l\<lparr>al_client := a', gc_wrote := grow i w (gc_wrote l),
      gc_read := grow i (case ev of Relay e \<Rightarrow> local_data e | ConnectFailed \<Rightarrow> []) (gc_read l),
      al_done := (if go then al_done l else insert i (al_done l))\<rparr>)"
| ClientSend: "ca_out (al_client l) = m # ms \<Longrightarrow>
    link_step c l (l\<lparr>al_client := (al_client l)\<lparr>ca_out := ms\<rparr>, al_up := al_up l @ [m]\<rparr>)"
| HubRecv: "al_up l = m # ms \<Longrightarrow> link_step c l (l\<lparr>al_up := ms, al_hub := channel_message m (al_hub l)\<rparr>)"
| OtherAttach: "c' \<noteq> c \<Longrightarrow> link_step c l (l\<lparr>al_hub := channel_attach c' (al_hub l)\<rparr>)"
| OtherDetach: "c' \<noteq> c \<Longrightarrow> link_step c l (l\<lparr>al_hub := channel_detach c' (al_hub l)\<rparr>)"
| OtherMessage: "msg_stream m = Some i \<Longrightarrow> i \<notin> al_ours l \<Longrightarrow> unat i < unat (hub_next_id (al_hub l)) \<Longrightarrow>
    link_step c l (l\<lparr>al_hub := channel_message m (al_hub l)\<rparr>)"

inductive link_reachable :: "nat \<Rightarrow> AgentHub \<Rightarrow> AgentLink \<Rightarrow> bool" for c h where
  Init: "link_reachable c h (link_init c h)"
| Step: "link_reachable c h l \<Longrightarrow> link_step c l l' \<Longrightarrow> link_reachable c h l'"

inductive_cases link_step_elim: "link_step c l l'"

lemmas link_step_cases = link_step_elim [consumes 1, case_names Open HubRelay Send ClientRecv ClientRelay ClientSend HubRecv OtherAttach OtherDetach OtherMessage]

section \<open>What the client will have\<close>

text \<open>The stream at the client once it has taken in everything under way.\<close>

fun client_step :: "u64 \<Rightarrow> ChannelMessage \<Rightarrow> Stream option \<Rightarrow> Stream option" where
  "client_step j (AgentOpen i) so = (if i = j then Some new_stream else so)"
| "client_step j m so = stream_step j m so"

lemma relay_message_stream: "map_of (ca_streams (relay_message m a)) j = client_step j m (map_of (ca_streams a) j)"
  by (cases m) (simp_all add: map_of_push map_of_close update_conv')

definition coming :: "nat \<Rightarrow> u64 \<Rightarrow> AgentLink \<Rightarrow> Stream option" where
  "coming c j l = fold (client_step j) (al_down l @ hub_out (al_hub l) c) (map_of (ca_streams (al_client l)) j)"

definition live :: "u64 \<Rightarrow> AgentLink \<Rightarrow> bool" where
  "live j l \<longleftrightarrow> map_of (hub_streams (al_hub l)) j \<noteq> None"

definition unused :: "u64 \<Rightarrow> AgentLink \<Rightarrow> bool" where
  "unused j l \<longleftrightarrow> unat (hub_next_id (al_hub l)) \<le> unat j"

definition underway :: "nat \<Rightarrow> AgentLink \<Rightarrow> ChannelMessage list" where
  "underway c l = al_down l @ hub_out (al_hub l) c"

definition known :: "u64 \<Rightarrow> AgentLink \<Rightarrow> bool" where
  "known j l \<longleftrightarrow> map_of (ca_streams (al_client l)) j \<noteq> None"

text \<open>From the hub to the client.  A stream is opened at most once.\<close>

definition down_ok :: "nat \<Rightarrow> u64 \<Rightarrow> AgentLink \<Rightarrow> bool" where
  "down_ok c j l \<longleftrightarrow>
     (live j l \<longrightarrow> (\<forall>s. coming c j l = Some s \<longrightarrow> st_open s))
     \<and> (\<forall>s. coming c j l = Some s \<longrightarrow> j \<notin> al_done l \<longrightarrow> gs_sent l j = gc_wrote l j @ concat (st_queue s))
     \<and> (coming c j l = None \<longrightarrow> gc_wrote l j = [])
     \<and> prefix (gc_wrote l j) (gs_sent l j)
     \<and> count_list (underway c l) (AgentOpen j) + (if known j l then 1 else 0) \<le> 1
     \<and> (unused j l \<longrightarrow> coming c j l = None \<and> gs_sent l j = [] \<and> \<not> live j l \<and> count_list (underway c l) (AgentOpen j) = 0)"

text \<open>From the client to the hub, for the streams of this channel.\<close>

definition arriving :: "u64 \<Rightarrow> AgentLink \<Rightarrow> Stream option" where
  "arriving j l = fold (stream_step j) (al_up l @ ca_out (al_client l)) (map_of (hub_streams (al_hub l)) j)"

definition up_ok :: "nat \<Rightarrow> u64 \<Rightarrow> AgentLink \<Rightarrow> bool" where
  "up_ok c j l \<longleftrightarrow>
     (coming c j l = None \<longrightarrow> gc_read l j = [] \<and> (\<forall>m \<in> set (al_up l @ ca_out (al_client l)). msg_stream m \<noteq> Some j))
     \<and> (coming c j l \<noteq> None \<longrightarrow> prefix (gs_wrote l j) (gc_read l j))
     \<and> (coming c j l \<noteq> None \<longrightarrow> live j l \<longrightarrow>
          (\<exists>t. arriving j l = Some t \<and> gc_read l j = gs_wrote l j @ concat (st_queue t) \<and> (j \<notin> al_done l \<longrightarrow> st_open t)))
     \<and> (unused j l \<longrightarrow> gs_wrote l j = [])"

definition link_ok :: "nat \<Rightarrow> AgentLink \<Rightarrow> bool" where
  "link_ok c l \<longleftrightarrow> (\<forall>j. down_ok c j l \<and> up_ok c j l)"

section \<open>Folds\<close>

lemma stream_step_other: "msg_stream m \<noteq> Some j \<Longrightarrow> stream_step j m so = so"
  by (cases m; cases so) auto

lemma client_step_other: "msg_stream m \<noteq> Some j \<Longrightarrow> m \<noteq> AgentOpen j \<Longrightarrow> client_step j m so = so"
  by (cases m; cases so) auto

lemma stream_step_None [simp]: "stream_step j m None = None"
  by (cases m) auto

lemma stream_step_Some: "\<exists>t. stream_step j m (Some s) = Some t"
  by (cases m) auto

lemma fold_stream_other: "\<forall>m \<in> set ms. msg_stream m \<noteq> Some j \<Longrightarrow> fold (stream_step j) ms so = so"
  by (induction ms arbitrary: so) (simp_all add: stream_step_other)

lemma client_step_Some: "\<exists>t. client_step j m (Some s) = Some t"
  by (cases m) auto

lemma fold_client_Some: "\<exists>t. fold (client_step j) ms (Some s) = Some t"
  by (induction ms arbitrary: s) (simp, metis client_step_Some fold_simps(2))

lemma client_step_no_open: "m \<noteq> AgentOpen j \<Longrightarrow> client_step j m so = stream_step j m so"
  by (cases m) auto

lemma fold_client_no_open:
  "AgentOpen j \<notin> set ms \<Longrightarrow> fold (client_step j) ms so = fold (stream_step j) ms so"
  by (induction ms arbitrary: so) (auto simp: client_step_no_open)

text \<open>Taking the first element of the queue does not matter for what comes after.\<close>

lemma stream_step_pop:
  "stream_step j m (Some (s\<lparr>st_queue := d # q\<rparr>)) = Some t \<Longrightarrow>
   \<exists>q'. st_queue t = d # q' \<and> stream_step j m (Some (s\<lparr>st_queue := q\<rparr>)) = Some (t\<lparr>st_queue := q'\<rparr>)"
  by (cases m) auto

lemma fold_stream_pop:
  "fold (stream_step j) ms (Some (s\<lparr>st_queue := d # q\<rparr>)) = Some t \<Longrightarrow>
   \<exists>q'. st_queue t = d # q' \<and> fold (stream_step j) ms (Some (s\<lparr>st_queue := q\<rparr>)) = Some (t\<lparr>st_queue := q'\<rparr>)"
proof (induction ms arbitrary: s q)
  case (Cons m ms)
  obtain u where u: "stream_step j m (Some (s\<lparr>st_queue := d # q\<rparr>)) = Some u" using stream_step_Some by blast
  from stream_step_pop [OF this] obtain q1 where q1: "st_queue u = d # q1"
    "stream_step j m (Some (s\<lparr>st_queue := q\<rparr>)) = Some (u\<lparr>st_queue := q1\<rparr>)" by blast
  have "u\<lparr>st_queue := d # q1\<rparr> = u" using q1(1) by (cases u) simp
  then have "fold (stream_step j) ms (Some (u\<lparr>st_queue := d # q1\<rparr>)) = Some t" using Cons.prems u by simp
  from Cons.IH [OF this] q1(2) show ?case by simp
qed auto

section \<open>Effects\<close>

definition to_channel :: "nat \<Rightarrow> AgentHub \<Rightarrow> ChannelMessage \<Rightarrow> ChannelMessage list" where
  "to_channel c h m = (if hub_channel h = Some c then [m] else [])"

lemma send_to_channel_frame:
  assumes "send_to_channel m h = (ok, h')"
  shows "hub_streams h' = hub_streams h" "hub_next_id h' = hub_next_id h" "hub_channel h' = hub_channel h"
    "hub_out h' c = hub_out h c @ to_channel c h m" "ok \<longleftrightarrow> hub_channel h \<noteq> None"
  using assms by (auto simp: send_to_channel_def to_channel_def split: option.splits)

lemma hub_finish_frame:
  "map_of (hub_streams (hub_finish i h)) = (map_of (hub_streams h))(i := None)"
  "hub_next_id (hub_finish i h) = hub_next_id h" "hub_channel (hub_finish i h) = hub_channel h"
  "hub_out (hub_finish i h) c = hub_out h c @ to_channel c h (AgentClose i)"
  by (auto simp: hub_finish_def send_to_channel_def to_channel_def delete_conv' split: option.splits)

text \<open>One event of a relay of the hub: it forwards, ends, writes one queued piece, or does nothing.\<close>

lemma hub_relay_cases:
  assumes "hub_relay i ev h = (h', w)" "map_of (hub_streams h) i = Some s"
  obtains (Forward) "hub_streams h' = hub_streams h" "w = []" "hub_channel h \<noteq> None"
      "\<forall>c. hub_out h' c = hub_out h c @ to_channel c h (AgentData i (local_data ev))"
      "hub_next_id h' = hub_next_id h" "hub_channel h' = hub_channel h"
    | (Finish) "map_of (hub_streams h') = (map_of (hub_streams h))(i := None)" "local_data ev = [] \<or> hub_channel h = None"
      "w = [] \<or> (\<exists>wr d q. st_queue s = d # q \<and> w = write_out wr d)"
      "\<forall>c. hub_out h' c = hub_out h c @ to_channel c h (AgentClose i)"
      "hub_next_id h' = hub_next_id h" "hub_channel h' = hub_channel h"
    | (Pop) q where "st_queue s = w # q" "map_of (hub_streams h') = (map_of (hub_streams h))(i \<mapsto> s\<lparr>st_queue := q\<rparr>)"
      "local_data ev = []" "hub_out h' = hub_out h" "hub_next_id h' = hub_next_id h" "hub_channel h' = hub_channel h"
    | (Idle) "h' = h" "w = []" "local_data ev = []"
proof (cases ev)
  case (LocalRead r)
  show thesis
  proof (cases "\<exists>b bs. r = ReadOk (b # bs)")
    case True
    then obtain b bs where r: "r = ReadOk (b # bs)" by blast
    obtain ok h1 where s1: "send_to_channel (AgentData i (b # bs)) h = (ok, h1)" by force
    note f = send_to_channel_frame [OF s1]
    show thesis
    proof (cases ok)
      case True
      then have "h' = h1" "w = []" using assms(1) LocalRead r s1 by (auto simp: hub_relay_def)
      with f True LocalRead r show thesis by (intro Forward) auto
    next
      case False
      then have "h' = hub_finish i h1" "w = []" "hub_channel h = None" using assms(1) LocalRead r s1 f by (auto simp: hub_relay_def)
      with f show thesis by (intro Finish) (auto simp: hub_finish_frame to_channel_def)
    qed
  next
    case False
    then have "h' = hub_finish i h" "w = []" "local_data ev = []"
      using assms(1) LocalRead by (auto simp: hub_relay_def split: ReadResult.splits list.splits)
    then show thesis by (intro Finish) (auto simp: hub_finish_frame)
  qed
next
  case (QueueRecv wr)
  show thesis
  proof (cases "st_queue s")
    case Nil
    with assms QueueRecv show thesis
      by (cases "st_open s") (auto simp: hub_relay_def hub_finish_frame intro: Idle Finish)
  next
    case (Cons d q)
    let ?h = "h\<lparr>hub_streams := AList.update i (s\<lparr>st_queue := q\<rparr>) (hub_streams h)\<rparr>"
    show thesis
    proof (cases "wr = WriteOk")
      case True
      with Cons assms QueueRecv have "h' = ?h" "w = d" by (simp_all add: hub_relay_def)
      with Cons QueueRecv show thesis by (intro Pop [of q]) (simp_all add: update_conv')
    next
      case False
      with Cons assms QueueRecv have "h' = hub_finish i ?h" "w = write_out wr d" by (simp_all add: hub_relay_def)
      with Cons QueueRecv show thesis by (intro Finish) (auto simp: hub_finish_frame update_conv' to_channel_def)
    qed
  qed
qed

lemma hub_open_cases:
  assumes "hub_open h = (r, h')" "map_of (hub_streams h) (hub_next_id h) = None"
  shows "hub_next_id h' = hub_next_id h + 1" "hub_channel h' = hub_channel h"
    "hub_out h' c = hub_out h c @ to_channel c h (AgentOpen (hub_next_id h))"
    "map_of (hub_streams h') = (if hub_channel h = None then map_of (hub_streams h)
       else (map_of (hub_streams h))(hub_next_id h \<mapsto> new_stream))"
  using assms
  by (auto simp: hub_open_def Let_def send_to_channel_def to_channel_def update_conv' delete_conv' fun_upd_idem split: option.splits)

text \<open>One event of a relay of the client.\<close>

lemma client_relay_cases:
  assumes "client_relay i ev a = (a', w, go)" "map_of (ca_streams a) i = Some s"
  obtains (Forward) e where "ev = Relay e" "ca_streams a' = ca_streams a" "w = []" "ca_out a' = ca_out a @ [AgentData i (local_data e)]" "go"
    | (Finish) "map_of (ca_streams a') i \<noteq> None" "\<forall>j. j \<noteq> i \<longrightarrow> map_of (ca_streams a') j = map_of (ca_streams a) j"
      "w = [] \<or> (\<exists>wr d q. st_queue s = d # q \<and> w = write_out wr d)"
      "ca_out a' = ca_out a @ [AgentClose i]" "\<not> go" "\<forall>e. ev = Relay e \<longrightarrow> local_data e = []"
      "map_of (ca_streams a') i = Some s \<or> (\<exists>d q. st_queue s = d # q \<and> map_of (ca_streams a') i = Some (s\<lparr>st_queue := q\<rparr>))"
    | (Pop) q where "st_queue s = w # q" "map_of (ca_streams a') = (map_of (ca_streams a))(i \<mapsto> s\<lparr>st_queue := q\<rparr>)"
      "\<forall>e. ev = Relay e \<longrightarrow> local_data e = []" "ca_out a' = ca_out a" "go"
    | (Idle) "a' = a" "w = []" "\<forall>e. ev = Relay e \<longrightarrow> local_data e = []"
proof (cases ev)
  case ConnectFailed
  with assms show thesis by (intro Finish) (auto simp: client_relay_def relay_close_def)
next
  case (Relay e)
  show thesis
  proof (cases e)
    case (LocalRead r)
    show thesis
    proof (cases "\<exists>b bs. r = ReadOk (b # bs)")
      case True
      with assms Relay LocalRead show thesis by (intro Forward [of e]) (auto simp: client_relay_def)
    next
      case False
      then have "a' = relay_close i a" "w = []" "\<not> go" "local_data e = []"
        using assms(1) Relay LocalRead by (auto simp: client_relay_def split: ReadResult.splits list.splits)
      with Relay assms(2) show thesis by (intro Finish) (auto simp: relay_close_def)
    qed
  next
    case (QueueRecv wr)
    show thesis
    proof (cases "st_queue s")
      case Nil
      with assms Relay QueueRecv show thesis by (intro Idle) (auto simp: client_relay_def)
    next
      case (Cons d q)
      show thesis
      proof (cases "wr = WriteOk")
        case True
        with Cons assms Relay QueueRecv show thesis by (intro Pop [of q]) (auto simp: client_relay_def update_conv')
      next
        case False
        with Cons assms Relay QueueRecv show thesis
          by (intro Finish) (auto simp: client_relay_def relay_close_def update_conv')
      qed
    qed
  qed
qed

section \<open>Preservation\<close>

lemma link_okD:
  assumes "link_ok c l"
  shows "live j l \<Longrightarrow> coming c j l = Some s \<Longrightarrow> st_open s"
    "coming c j l = Some s \<Longrightarrow> j \<notin> al_done l \<Longrightarrow> gs_sent l j = gc_wrote l j @ concat (st_queue s)"
    "coming c j l = None \<Longrightarrow> gc_wrote l j = []" "prefix (gc_wrote l j) (gs_sent l j)"
    "count_list (underway c l) (AgentOpen j) + (if known j l then 1 else 0) \<le> 1"
    "unused j l \<Longrightarrow> coming c j l = None" "unused j l \<Longrightarrow> gs_sent l j = []" "unused j l \<Longrightarrow> \<not> live j l"
    "unused j l \<Longrightarrow> count_list (underway c l) (AgentOpen j) = 0"
    "coming c j l = None \<Longrightarrow> gc_read l j = []"
    "coming c j l = None \<Longrightarrow> m \<in> set (al_up l @ ca_out (al_client l)) \<Longrightarrow> msg_stream m \<noteq> Some j"
    "coming c j l \<noteq> None \<Longrightarrow> prefix (gs_wrote l j) (gc_read l j)"
    "coming c j l \<noteq> None \<Longrightarrow> live j l \<Longrightarrow>
       \<exists>t. arriving j l = Some t \<and> gc_read l j = gs_wrote l j @ concat (st_queue t) \<and> (j \<notin> al_done l \<longrightarrow> st_open t)"
    "unused j l \<Longrightarrow> gs_wrote l j = []"
  using assms unfolding link_ok_def down_ok_def up_ok_def by blast+

lemma coming_hub:
  assumes "al_down l' = al_down l" "al_client l' = al_client l" "hub_out (al_hub l') c = hub_out (al_hub l) c @ ms"
  shows "coming c j l' = fold (client_step j) ms (coming c j l)" "underway c l' = underway c l @ ms" "known j l' = known j l"
  using assms by (simp_all add: coming_def underway_def known_def)

lemma known_coming: "known j l \<Longrightarrow> coming c j l \<noteq> None"
  unfolding known_def coming_def by (metis fold_client_Some option.exhaust option.simps(3))

lemma link_ok_open:
  assumes "link_ok c l" "unat (hub_next_id (al_hub l)) + 1 < 2 ^ 64" "l' = l\<lparr>al_hub := snd (hub_open (al_hub l)), al_opened := Suc (al_opened l), al_ours := opened_ours c l\<rparr>"
  shows "link_ok c l'"
proof -
  let ?h = "al_hub l" and ?i = "hub_next_id (al_hub l)"
  note inv = link_okD [OF assms(1)]
  obtain r h' where op: "hub_open ?h = (r, h')" by force
  have ui: "unused ?i l" by (simp add: unused_def)
  have new: "map_of (hub_streams ?h) ?i = None" using inv(8) [OF ui] by (simp add: live_def)
  note f = hub_open_cases [OF op new]
  have l': "l' = l\<lparr>al_hub := h', al_opened := Suc (al_opened l), al_ours := opened_ours c l\<rparr>" using assms(3) op by simp
  let ?ms = "to_channel c ?h (AgentOpen ?i)"
  have co: "coming c j l' = fold (client_step j) ?ms (coming c j l)" "underway c l' = underway c l @ ?ms" "known j l' = known j l" for j
    by (rule coming_hub; simp add: l' f)+
  have un: "unused j l' \<longleftrightarrow> unused j l \<and> j \<noteq> ?i" for j
    using unat_inc [OF assms(2)] by (auto simp: unused_def l' f(1) u64_eq_iff)
  have nk: "\<not> known ?i l" using known_coming inv(6) [OF ui] by blast
  have "down_ok c j l' \<and> up_ok c j l'" for j
  proof (cases "j = ?i")
    case False
    have "coming c j l' = coming c j l" using False by (simp add: co to_channel_def)
    moreover have "live j l' = live j l" using False by (simp add: live_def l' f(4))
    moreover have "arriving j l' = arriving j l" using False by (simp add: arriving_def l' f(4))
    moreover have "count_list (underway c l') (AgentOpen j) = count_list (underway c l) (AgentOpen j)"
      using False by (simp add: co(2) to_channel_def)
    moreover have "down_ok c j l" "up_ok c j l" using assms(1) by (simp_all add: link_ok_def)
    ultimately show ?thesis using un [of j] by (simp add: down_ok_def up_ok_def co(3)) (simp add: l')
  next
    case True
    have old: "coming c ?i l = None" "gs_sent l ?i = []" "gc_wrote l ?i = []" "gc_read l ?i = []" "gs_wrote l ?i = []"
      "count_list (underway c l) (AgentOpen ?i) = 0"
      using inv [of ?i] ui by simp_all
    have quiet: "\<forall>m \<in> set (al_up l @ ca_out (al_client l)). msg_stream m \<noteq> Some ?i" using inv(11) [OF old(1)] by blast
    have arr: "arriving ?i l' = map_of (hub_streams h') ?i"
      using fold_stream_other [OF quiet] by (simp add: arriving_def l')
    show ?thesis
    proof (cases "hub_channel ?h = Some c")
      case here: True
      have "coming c ?i l' = Some new_stream" by (simp add: co to_channel_def here old)
      moreover have "arriving ?i l' = Some new_stream" using here by (simp add: arr f(4))
      ultimately show ?thesis unfolding True using old un [of ?i] nk
        by (simp add: down_ok_def up_ok_def co(2,3) to_channel_def here) (simp add: l' new_stream_def)
    next
      case False
      then have "coming c ?i l' = None" "count_list (underway c l') (AgentOpen ?i) = 0" by (simp_all add: co to_channel_def old)
      then show ?thesis unfolding True using old un [of ?i] nk quiet
        by (simp add: down_ok_def up_ok_def co(3)) (simp add: l')
    qed
  qed
  then show ?thesis by (simp add: link_ok_def)
qed


text \<open>Streams that a step of the hub's relay \<open>i\<close> does not concern.\<close>

lemma link_ok_relay_other:
  assumes "link_ok c l" "j \<noteq> i"
    and "al_down l' = al_down l" "al_client l' = al_client l" "al_up l' = al_up l" "al_done l' = al_done l"
    and "hub_out (al_hub l') c = hub_out (al_hub l) c @ ms" "\<forall>m \<in> set ms. msg_stream m = Some i"
    and "map_of (hub_streams (al_hub l')) j = map_of (hub_streams (al_hub l)) j" "hub_next_id (al_hub l') = hub_next_id (al_hub l)"
    and "gs_sent l' j = gs_sent l j" "gs_wrote l' j = gs_wrote l j" "gc_read l' = gc_read l" "gc_wrote l' = gc_wrote l"
  shows "down_ok c j l' \<and> up_ok c j l'"
proof -
  have other: "client_step j m so = so" if "m \<in> set ms" for m so
    by (rule client_step_other) (use that assms(2,8) in auto)
  have "fold (client_step j) ms so = so" for so
    using other by (induction ms arbitrary: so) simp_all
  then have "coming c j l' = coming c j l" using coming_hub(1) [OF assms(3,4,7)] by simp
  moreover have "count_list (underway c l') (AgentOpen j) = count_list (underway c l) (AgentOpen j)"
  proof -
    have "AgentOpen j \<notin> set ms" using assms(8) by auto
    then show ?thesis by (simp add: coming_hub(2) [OF assms(3,4,7)])
  qed
  moreover have "known j l' = known j l" "live j l' = live j l" "unused j l' = unused j l" "arriving j l' = arriving j l"
    using assms(4,5,9,10) by (simp_all add: known_def live_def unused_def arriving_def)
  moreover have "down_ok c j l" "up_ok c j l" using assms(1) by (simp_all add: link_ok_def)
  ultimately show ?thesis using assms(4-6,11-14) by (simp add: down_ok_def up_ok_def)
qed

lemma write_out_prefix_eq: "prefix (write_out wr d) d"
  by (cases wr) (auto simp: write_out_def take_is_prefix)

lemma link_ok_hub_relay:
  assumes "link_ok c l" "map_of (hub_streams (al_hub l)) i = Some s" "hub_relay i ev (al_hub l) = (h', w)"
    and l': "l' = l\<lparr>al_hub := h', gs_wrote := grow i w (gs_wrote l),
      gs_read := grow i (local_data ev) (gs_read l),
      gs_sent := grow i (if hub_channel (al_hub l) = Some c then local_data ev else []) (gs_sent l)\<rparr>"
  shows "down_ok c i l' \<and> up_ok c i l'"
proof -
  note inv = link_okD [OF assms(1), of i]
  have live: "live i l" using assms(2) by (simp add: live_def)
  have used: "\<not> unused i l" using inv(8) live by blast
  have sim: "al_down l' = al_down l" "al_client l' = al_client l" "al_up l' = al_up l" "al_done l' = al_done l"
    "al_hub l' = h'" "gc_read l' = gc_read l" "gc_wrote l' = gc_wrote l" "gs_wrote l' i = gs_wrote l i @ w"
    "gs_sent l' i = gs_sent l i @ (if hub_channel (al_hub l) = Some c then local_data ev else [])"
    by (simp_all add: l' grow_def)
  have down: "down_ok c i l'" if ho: "hub_out h' c = hub_out (al_hub l) c @ ms" and nx: "hub_next_id h' = hub_next_id (al_hub l)"
    and m: "ms = [] \<and> gs_sent l' i = gs_sent l i \<or> ms = [AgentClose i] \<and> gs_sent l' i = gs_sent l i \<and> \<not> live i l'
      \<or> ms = [AgentData i d] \<and> gs_sent l' i = gs_sent l i @ d \<and> live i l'" for ms d
  proof -
    have co: "coming c i l' = fold (client_step i) ms (coming c i l)" "underway c l' = underway c l @ ms" "known i l' = known i l"
      using coming_hub [of l' l c ms] by (simp_all add: sim ho)
    have un: "\<not> unused i l'" using used nx by (simp add: unused_def sim)
    show ?thesis
    proof (cases "coming c i l")
      case None
      with co m have "coming c i l' = None" by auto
      with None inv(3) inv(5) m co(2,3) un show ?thesis unfolding down_ok_def by (auto simp: sim)
    next
      case (Some u)
      then have u: "st_open u" "i \<notin> al_done l \<Longrightarrow> gs_sent l i = gc_wrote l i @ concat (st_queue u)" using inv(1,2) live by auto
      from m Some u co have "\<exists>u'. coming c i l' = Some u' \<and> (live i l' \<longrightarrow> st_open u')
          \<and> (i \<notin> al_done l \<longrightarrow> gs_sent l' i = gc_wrote l i @ concat (st_queue u'))" by auto
      moreover have "prefix (gc_wrote l i) (gs_sent l' i)" using inv(4) m by auto
      ultimately show ?thesis using inv(5) m co(2,3) un unfolding down_ok_def by (auto simp: sim)
    qed
  qed
  have st: "coming c i l' = None \<longleftrightarrow> coming c i l = None" if "hub_out h' c = hub_out (al_hub l) c @ ms"
    "ms = [] \<or> ms = [AgentClose i] \<or> ms = [AgentData i d]" for ms d
    using coming_hub(1) [of l' l c ms i] that sim by (cases "coming c i l") auto
  have up: "up_ok c i l'" if none: "coming c i l' = None \<longleftrightarrow> coming c i l = None"
    and p: "coming c i l \<noteq> None \<Longrightarrow> prefix (gs_wrote l' i) (gc_read l i)"
    and e: "coming c i l \<noteq> None \<Longrightarrow> live i l' \<Longrightarrow>
      \<exists>t. arriving i l' = Some t \<and> gc_read l i = gs_wrote l' i @ concat (st_queue t) \<and> (i \<notin> al_done l \<longrightarrow> st_open t)"
    and nx: "hub_next_id h' = hub_next_id (al_hub l)"
    using inv(10,11) p e none used nx unfolding up_ok_def unused_def by (auto simp: sim)
  have ar: "\<exists>t. arriving i l = Some t \<and> gc_read l i = gs_wrote l i @ concat (st_queue t) \<and> (i \<notin> al_done l \<longrightarrow> st_open t)"
    if "coming c i l \<noteq> None" using inv(13) that live by blast
  from assms(3,2) show ?thesis
  proof (cases rule: hub_relay_cases)
    case Forward
    let ?ms = "to_channel c (al_hub l) (AgentData i (local_data ev))"
    have ho: "hub_out h' c = hub_out (al_hub l) c @ ?ms" using Forward(4) by blast
    have "live i l'" using live Forward(1) by (simp add: live_def sim)
    then have "down_ok c i l'" by (intro down [OF ho Forward(5), of "local_data ev"]) (auto simp: sim to_channel_def)
    moreover have "arriving i l' = arriving i l" using Forward(1) by (simp add: arriving_def sim)
    then have "up_ok c i l'"
      by (intro up st [OF ho, of "local_data ev"])
         (use Forward(2,5) ar inv(12) in \<open>auto simp: sim to_channel_def\<close>)
    ultimately show ?thesis by simp
  next
    case Finish
    let ?ms = "to_channel c (al_hub l) (AgentClose i)"
    have ho: "hub_out h' c = hub_out (al_hub l) c @ ?ms" using Finish(4) by blast
    have dead: "\<not> live i l'" using Finish(1) by (simp add: live_def sim)
    then have "down_ok c i l'" by (intro down [OF ho Finish(5), of "[]"]) (use Finish(2) in \<open>auto simp: sim to_channel_def\<close>)
    moreover have "prefix (gs_wrote l' i) (gc_read l i)" if nn: "coming c i l \<noteq> None"
    proof -
      obtain t where t: "arriving i l = Some t" "gc_read l i = gs_wrote l i @ concat (st_queue t)" using ar [OF nn] by blast
      have "\<exists>q'. st_queue t = d # q'" if "st_queue s = d # q" for d q
      proof -
        have "s\<lparr>st_queue := d # q\<rparr> = s" using that by (cases s) simp
        then show ?thesis using fold_stream_pop [where j = i and s = s and d = d and q = q and t = t] t(1) assms(2) unfolding arriving_def by metis
      qed
      with Finish(3) t(2) write_out_prefix_eq show ?thesis by (fastforce simp: sim intro: prefix_prefix)
    qed
    then have "up_ok c i l'"
      by (intro up st [OF ho, of "[]"]) (use dead Finish(5) in \<open>auto simp: to_channel_def\<close>)
    ultimately show ?thesis by simp
  next
    case (Pop q)
    have ho: "hub_out h' c = hub_out (al_hub l) c @ []" using Pop(4) by simp
    have "down_ok c i l'" by (rule down [OF ho Pop(5), of "[]"]) (use Pop(3) in \<open>auto simp: sim\<close>)
    moreover have "\<exists>t. arriving i l' = Some t \<and> gc_read l i = gs_wrote l' i @ concat (st_queue t) \<and> (i \<notin> al_done l \<longrightarrow> st_open t)"
      if nn: "coming c i l \<noteq> None"
    proof -
      obtain t where t: "arriving i l = Some t" "gc_read l i = gs_wrote l i @ concat (st_queue t)" "i \<notin> al_done l \<longrightarrow> st_open t"
        using ar [OF nn] by blast
      have "s\<lparr>st_queue := w # q\<rparr> = s" using Pop(1) by (cases s) simp
      then obtain q' where "st_queue t = w # q'" "arriving i l' = Some (t\<lparr>st_queue := q'\<rparr>)"
        using fold_stream_pop [where j = i and ms = "al_up l @ ca_out (al_client l)" and s = s and d = w and q = q and t = t] t(1) assms(2) Pop(2) by (auto simp: arriving_def sim)
      with t show ?thesis by (simp add: sim)
    qed
    ultimately show ?thesis using Pop(5) by (intro conjI up st [OF ho, of "[]"]) (auto simp: prefix_def)
  next
    case Idle
    then have "l' = l" by (simp add: l' grow_def fun_upd_idem)
    with assms(1) show ?thesis by (simp add: link_ok_def)
  qed
qed


text \<open>Steps that only move messages along.\<close>

lemma link_ok_move:
  assumes "link_ok c l" "al_done l' = al_done l" "gs_sent l' = gs_sent l" "gc_wrote l' = gc_wrote l" "gc_read l' = gc_read l" "gs_wrote l' = gs_wrote l"
    and "\<And>j. coming c j l' = coming c j l" "\<And>j. live j l' = live j l" "\<And>j. coming c j l \<noteq> None \<Longrightarrow> arriving j l' = arriving j l" "\<And>j. unused j l' = unused j l"
    and "set (al_up l' @ ca_out (al_client l')) \<subseteq> set (al_up l @ ca_out (al_client l))"
    and "\<And>j. count_list (underway c l') (AgentOpen j) \<le> count_list (underway c l) (AgentOpen j)"
    and "\<And>j. count_list (underway c l') (AgentOpen j) + (if known j l' then 1 else 0)
      \<le> count_list (underway c l) (AgentOpen j) + (if known j l then 1 else 0)"
  shows "link_ok c l'"
  unfolding link_ok_def
proof (intro allI conjI)
  fix j
  note inv = link_okD [OF assms(1), of j]
  have "count_list (underway c l') (AgentOpen j) + (if known j l' then 1 else 0) \<le> 1"
    using assms(13) [of j] inv(5) by linarith
  moreover have "count_list (underway c l') (AgentOpen j) = 0" if "unused j l" using assms(12) [of j] inv(9) [OF that] by simp
  ultimately show "down_ok c j l'"
    using inv(1-4,6-8) unfolding down_ok_def assms(2-8,10) by blast
  have "msg_stream m \<noteq> Some j" if "coming c j l = None" "m \<in> set (al_up l' @ ca_out (al_client l'))" for m
    using inv(11) that assms(11) by blast
  then show "up_ok c j l'"
    using inv(10,12-14) assms(9) [of j] unfolding up_ok_def assms(2-8,10) by metis
qed

lemma client_step_None: "client_step j m so = None \<longleftrightarrow> so = None \<and> m \<noteq> AgentOpen j"
  by (cases m; cases so) auto

lemma channel_message_frame:
  "hub_out (channel_message m h) = hub_out h" "hub_next_id (channel_message m h) = hub_next_id h"
  "map_of (hub_streams (channel_message m h)) j = stream_step j m (map_of (hub_streams h) j)"
  by (cases m; simp add: map_of_push map_of_close)+

lemma link_ok_client_relay:
  assumes "link_ok c l" "map_of (ca_streams (al_client l)) i = Some s" "i \<notin> al_done l" "client_relay i ev (al_client l) = (a', w, go)"
    and l': "l' = l\<lparr>al_client := a', gc_wrote := grow i w (gc_wrote l),
      gc_read := grow i (case ev of Relay e \<Rightarrow> local_data e | ConnectFailed \<Rightarrow> []) (gc_read l),
      al_done := (if go then al_done l else insert i (al_done l))\<rparr>"
  shows "link_ok c l'"
proof -
  note inv = link_okD [OF assms(1)]
  let ?rd = "case ev of Relay e \<Rightarrow> local_data e | ConnectFailed \<Rightarrow> []"
  have kn: "known i l" using assms(2) by (simp add: known_def)
  then have no_open: "AgentOpen i \<notin> set (underway c l)" using inv(5) [of i] by (auto simp: count_list_0_iff split: if_splits)
  have cs: "coming c i l = fold (stream_step i) (underway c l) (Some s)"
    using fold_client_no_open [OF no_open] assms(2) by (simp add: coming_def underway_def)
  obtain u where u: "coming c i l = Some u" using known_coming [OF kn] by blast
  have eq: "gs_sent l i = gc_wrote l i @ concat (st_queue u)" using inv(2) [OF u assms(3)] .
  have sim: "al_down l' = al_down l" "al_hub l' = al_hub l" "al_up l' = al_up l" "al_client l' = a'" "gs_sent l' = gs_sent l" "gs_wrote l' = gs_wrote l"
    "gc_wrote l' i = gc_wrote l i @ w" "gc_read l' i = gc_read l i @ ?rd" "al_done l' = (if go then al_done l else insert i (al_done l))"
    "\<And>j. j \<noteq> i \<Longrightarrow> gc_wrote l' j = gc_wrote l j" "\<And>j. j \<noteq> i \<Longrightarrow> gc_read l' j = gc_read l j" "underway c l' = underway c l"
    "\<And>j. live j l' = live j l" "\<And>j. unused j l' = unused j l"
    by (simp_all add: l' grow_def underway_def live_def unused_def)
  have head: "\<exists>q'. st_queue u = d # q' \<and> fold (stream_step i) (underway c l) (Some (s\<lparr>st_queue := q\<rparr>)) = Some (u\<lparr>st_queue := q'\<rparr>)"
    if "st_queue s = d # q" for d q
  proof -
    have "s\<lparr>st_queue := d # q\<rparr> = s" using that by (cases s) simp
    then show ?thesis using fold_stream_pop [where j = i and ms = "underway c l" and s = s and d = d and q = q and t = u] cs u by simp
  qed
  have "\<exists>o'. ca_out a' = ca_out (al_client l) @ o' \<and> (\<forall>m \<in> set o'. msg_stream m = Some i)
      \<and> (\<forall>j. j \<noteq> i \<longrightarrow> map_of (ca_streams a') j = map_of (ca_streams (al_client l)) j)
      \<and> (\<exists>u'. coming c i l' = Some u' \<and> (st_open u \<longrightarrow> st_open u') \<and> (go \<longrightarrow> gs_sent l i = gc_wrote l' i @ concat (st_queue u')))
      \<and> prefix (gc_wrote l' i) (gs_sent l i) \<and> known i l'
      \<and> (o' = [] \<and> ?rd = [] \<or> o' = [AgentData i ?rd] \<and> go \<or> o' = [AgentClose i] \<and> ?rd = [] \<and> \<not> go)"
    using assms(4,2)
  proof (cases rule: client_relay_cases)
    case (Forward e)
    then have "coming c i l' = coming c i l" "known i l'" using kn by (simp_all add: coming_def sim known_def)
    with Forward u eq inv(4) [of i] show ?thesis by (simp add: sim)
  next
    case Finish
    have "\<exists>u'. coming c i l' = Some u' \<and> (st_open u \<longrightarrow> st_open u')"
    proof -
      have co: "coming c i l' = fold (stream_step i) (underway c l) (map_of (ca_streams a') i)"
        using fold_client_no_open [OF no_open] by (simp add: coming_def underway_def sim)
      have fu: "fold (stream_step i) (underway c l) (Some s) = Some u" using cs u by simp
      from Finish(7) show ?thesis unfolding co
      proof (elim disjE exE conjE)
        fix d q
        assume "st_queue s = d # q" "map_of (ca_streams a') i = Some (s\<lparr>st_queue := q\<rparr>)"
        with head [of d q] show "\<exists>u'. fold (stream_step i) (underway c l) (map_of (ca_streams a') i) = Some u' \<and> (st_open u \<longrightarrow> st_open u')"
          by auto
      qed (simp add: fu)
    qed
    moreover have "prefix (gc_wrote l' i) (gs_sent l i)"
      using Finish(3) head eq write_out_prefix_eq by (fastforce simp: sim intro: prefix_prefix)
    moreover have "?rd = []" using Finish(6) by (cases ev) auto
    moreover have "known i l'" using Finish(1) by (simp add: known_def sim)
    ultimately show ?thesis using Finish by auto
  next
    case (Pop q)
    obtain q' where q': "st_queue u = w # q'" "fold (stream_step i) (underway c l) (Some (s\<lparr>st_queue := q\<rparr>)) = Some (u\<lparr>st_queue := q'\<rparr>)"
      using head [OF Pop(1)] by blast
    have "coming c i l' = Some (u\<lparr>st_queue := q'\<rparr>)"
      using fold_client_no_open [OF no_open] q'(2) Pop(2) by (simp add: coming_def underway_def sim)
    moreover have "?rd = []" using Pop(3) by (cases ev) auto
    moreover have "known i l'" using Pop(2) by (simp add: known_def sim)
    ultimately show ?thesis using Pop q'(1) eq by (auto simp: sim prefix_def)
  next
    case Idle
    have "?rd = []" using Idle(3) by (cases ev) auto
    moreover have "coming c i l' = coming c i l" using Idle by (simp add: coming_def sim)
    ultimately show ?thesis using Idle u eq inv(4) [of i] kn by (auto simp: sim known_def)
  qed
  then obtain o' u' where o: "ca_out a' = ca_out (al_client l) @ o'" "\<forall>m \<in> set o'. msg_stream m = Some i"
    "\<forall>j. j \<noteq> i \<longrightarrow> map_of (ca_streams a') j = map_of (ca_streams (al_client l)) j"
    "coming c i l' = Some u'" "st_open u \<longrightarrow> st_open u'" "go \<longrightarrow> gs_sent l i = gc_wrote l' i @ concat (st_queue u')"
    "prefix (gc_wrote l' i) (gs_sent l i)" "known i l'"
    "o' = [] \<and> ?rd = [] \<or> o' = [AgentData i ?rd] \<and> go \<or> o' = [AgentClose i] \<and> ?rd = [] \<and> \<not> go" by blast
  have arr: "arriving j l' = fold (stream_step j) o' (arriving j l)" for j by (simp add: arriving_def sim o(1))
  show ?thesis
    unfolding link_ok_def
  proof (intro allI)
    fix j
    show "down_ok c j l' \<and> up_ok c j l'"
    proof (cases "j = i")
      case False
      have co: "coming c j l' = coming c j l" "known j l' = known j l" using False o(3) by (simp_all add: coming_def sim known_def)
      have "arriving j l' = arriving j l" using fold_stream_other [of o' j] o(2) False by (auto simp: arr)
      moreover have "(j \<in> al_done l') = (j \<in> al_done l)" using False by (simp add: sim)
      moreover have "(\<forall>m \<in> set (al_up l' @ ca_out (al_client l')). msg_stream m \<noteq> Some j)
          = (\<forall>m \<in> set (al_up l @ ca_out (al_client l)). msg_stream m \<noteq> Some j)" using o(1,2) False by (auto simp: sim)
      moreover have "down_ok c j l" "up_ok c j l" using assms(1) by (simp_all add: link_ok_def)
      ultimately show ?thesis unfolding down_ok_def up_ok_def co using False by (simp add: sim(5,6,10-14))
    next
      case True
      have used: "\<not> unused i l" using inv(6) [of i] u by auto
      have "down_ok c i l'"
        unfolding down_ok_def
        using o(4-8) inv(1) [of i] inv(5) [of i] u kn used by (auto simp: sim(5,9,12-14))
      moreover have "prefix (gs_wrote l' i) (gc_read l' i)" using inv(12) [of i] u by (auto simp: sim intro: prefix_prefix)
      moreover have "\<exists>t. arriving i l' = Some t \<and> gc_read l' i = gs_wrote l' i @ concat (st_queue t) \<and> (i \<notin> al_done l' \<longrightarrow> st_open t)"
        if lv: "live i l'"
      proof -
        have "coming c i l \<noteq> None" "live i l" using u lv by (simp_all add: sim)
        from inv(13) [OF this] assms(3) obtain t where
          "arriving i l = Some t" "gc_read l i = gs_wrote l i @ concat (st_queue t)" "st_open t" by blast
        with o(9) show ?thesis by (auto simp: arr sim)
      qed
      ultimately show ?thesis unfolding True up_ok_def using o(4) used by (simp add: sim(14))
    qed
  qed
qed


lemma link_ok_step:
  assumes "link_ok c l" "link_step c l l'" and ours: "\<And>j. j \<in> al_ours l \<longleftrightarrow> coming c j l \<noteq> None"
    and bound: "unat (hub_next_id (al_hub l)) + (al_opened l' - al_opened l) < 2 ^ 64"
  shows "link_ok c l'"
  using assms(2)
proof (cases rule: link_step_cases)
  case Open
  then show ?thesis using link_ok_open [OF assms(1) _ Open] bound by simp
next
  case (HubRelay i ev h' w s)
  have "down_ok c j l' \<and> up_ok c j l'" for j
  proof (cases "j = i")
    case True
    with link_ok_hub_relay [OF assms(1) HubRelay(3,2,1)] show ?thesis by simp
  next
    case False
    have sim: "al_down l' = al_down l" "al_client l' = al_client l" "al_up l' = al_up l" "al_done l' = al_done l" "al_hub l' = h'"
      "gs_sent l' j = gs_sent l j" "gs_wrote l' j = gs_wrote l j" "gc_read l' = gc_read l" "gc_wrote l' = gc_wrote l"
      using False by (simp_all add: HubRelay(1) grow_def)
    from HubRelay(2,3) show ?thesis
    proof (cases rule: hub_relay_cases)
      case Forward
      then show ?thesis using False
        by (intro link_ok_relay_other [OF assms(1) False sim(1-4), where ms = "to_channel c (al_hub l) (AgentData i (local_data ev))"])
           (auto simp: sim to_channel_def)
    next
      case Finish
      then show ?thesis using False
        by (intro link_ok_relay_other [OF assms(1) False sim(1-4), where ms = "to_channel c (al_hub l) (AgentClose i)"])
           (auto simp: sim to_channel_def)
    next
      case (Pop q)
      then show ?thesis using False
        by (intro link_ok_relay_other [OF assms(1) False sim(1-4), where ms = "[]"]) (auto simp: sim)
    next
      case Idle
      then show ?thesis using False
        by (intro link_ok_relay_other [OF assms(1) False sim(1-4), where ms = "[]"]) (auto simp: sim)
    qed
  qed
  then show ?thesis by (simp add: link_ok_def)
next
  case (Send m h')
  then have "hub_out (al_hub l) c = m # hub_out h' c" "hub_streams h' = hub_streams (al_hub l)" "hub_next_id h' = hub_next_id (al_hub l)"
    by (auto simp: channel_next_def split: list.splits)
  with Send(1) show ?thesis
    by (intro link_ok_move [OF assms(1)]) (simp_all add: coming_def live_def arriving_def unused_def underway_def known_def)
next
  case (ClientRecv m ms)
  have "known j l' \<longleftrightarrow> known j l \<or> m = AgentOpen j" for j
    by (simp add: ClientRecv(1) known_def relay_message_stream client_step_None)
  moreover have "ca_out (relay_message m a) = ca_out a" for a by (cases m) simp_all
  ultimately show ?thesis using ClientRecv
    by (intro link_ok_move [OF assms(1)])
       (auto simp: coming_def live_def arriving_def unused_def underway_def relay_message_stream)
next
  case (ClientRelay i ev a' w go s)
  from link_ok_client_relay [OF assms(1) ClientRelay(4,2,3,1)] show ?thesis .
next
  case (ClientSend m ms)
  then show ?thesis
    by (intro link_ok_move [OF assms(1)]) (auto simp: coming_def live_def arriving_def unused_def underway_def known_def)
next
  case (HubRecv m ms)
  have "live j l' = live j l" for j
    by (cases "map_of (hub_streams (al_hub l)) j"; cases m) (simp_all add: HubRecv(1) live_def map_of_push map_of_close)
  with HubRecv show ?thesis
    by (intro link_ok_move [OF assms(1)])
       (auto simp: coming_def arriving_def unused_def underway_def known_def channel_message_frame)
next
  case (OtherMessage m i)
  have "live j l' = live j l" for j
    by (cases "map_of (hub_streams (al_hub l)) j"; cases m) (simp_all add: OtherMessage(1) live_def map_of_push map_of_close)
  moreover have "arriving j l' = arriving j l" if "coming c j l \<noteq> None" for j
  proof -
    have "msg_stream m \<noteq> Some j" using OtherMessage(2,3) that ours by auto
    then show ?thesis by (simp add: OtherMessage(1) arriving_def channel_message_frame stream_step_other)
  qed
  ultimately show ?thesis using OtherMessage(1)
    by (intro link_ok_move [OF assms(1)]) (simp_all add: coming_def unused_def underway_def known_def channel_message_frame)
qed (intro link_ok_move [OF assms(1)];
     simp add: coming_def live_def arriving_def unused_def underway_def known_def channel_attach_def channel_detach_def)+

definition hub_ok :: "AgentHub \<Rightarrow> bool" where
  "hub_ok h \<longleftrightarrow> (\<forall>j. map_of (hub_streams h) j \<noteq> None \<longrightarrow> unat j < unat (hub_next_id h))"

lemma link_ok_init: "hub_ok h \<Longrightarrow> link_ok c (link_init c h)"
  by (auto simp: link_ok_def down_ok_def up_ok_def link_init_def coming_def underway_def known_def ClientAgent_start_def
      channel_attach_def live_def unused_def hub_ok_def leD)

lemma hub_open_next_id: "hub_next_id (snd (hub_open h)) = hub_next_id h + 1"
  by (auto simp: hub_open_def Let_def send_to_channel_def split: option.splits)

lemma link_next_id:
  "link_reachable c h l \<Longrightarrow> hub_next_id (al_hub l) = hub_next_id h + of_nat (al_opened l)"
proof (induction rule: link_reachable.induct)
  case (Step l l')
  from Step.hyps(2) show ?case
  proof (cases rule: link_step_cases)
    case (HubRelay i ev h' w s)
    from HubRelay(2,3) have "hub_next_id h' = hub_next_id (al_hub l)" by (cases rule: hub_relay_cases) simp_all
    with Step.IH HubRelay(1) show ?thesis by simp
  qed (use Step.IH in \<open>auto simp: hub_open_next_id channel_next_def channel_message_frame channel_attach_def channel_detach_def
      split: list.splits\<close>)
qed (simp add: link_init_def channel_attach_def)

lemma opened_mono: "link_step c l l' \<Longrightarrow> al_opened l \<le> al_opened l'"
  by (cases rule: link_step.cases) auto

text \<open>The streams of this channel are the ones it has announced to the client.\<close>

lemma fold_client_None: "fold (client_step j) ms so = None \<longleftrightarrow> so = None \<and> AgentOpen j \<notin> set ms"
  by (induction ms arbitrary: so) (auto simp: client_step_None)

lemma coming_iff: "coming c j l \<noteq> None \<longleftrightarrow> known j l \<or> AgentOpen j \<in> set (underway c l)"
  by (auto simp: coming_def fold_client_None known_def underway_def)

lemma hub_open_out: "hub_out (snd (hub_open h)) c = hub_out h c @ to_channel c h (AgentOpen (hub_next_id h))"
  by (auto simp: hub_open_def Let_def send_to_channel_def to_channel_def split: option.splits)

lemma link_ours: "link_reachable c h l \<Longrightarrow> j \<in> al_ours l \<longleftrightarrow> coming c j l \<noteq> None"
  unfolding coming_iff
proof (induction rule: link_reachable.induct)
  case (Step l l')
  from Step.hyps(2) show ?case
  proof (cases rule: link_step_cases)
    case Open
    with Step.IH show ?thesis
      by (auto simp: opened_ours_def underway_def known_def hub_open_out to_channel_def)
  next
    case (HubRelay i ev h' w s)
    from HubRelay(2,3) have "AgentOpen j \<in> set (hub_out h' c) \<longleftrightarrow> AgentOpen j \<in> set (hub_out (al_hub l) c)"
      by (cases rule: hub_relay_cases) (auto simp: to_channel_def)
    with Step.IH HubRelay(1) show ?thesis by (simp add: underway_def known_def)
  next
    case (ClientRecv m ms)
    have "known j l' \<longleftrightarrow> known j l \<or> m = AgentOpen j"
      by (simp add: ClientRecv(1) known_def relay_message_stream client_step_None)
    with Step.IH ClientRecv show ?thesis by (auto simp: underway_def)
  next
    case (ClientRelay i ev a' w go s)
    from ClientRelay(3,4) have "(map_of (ca_streams a') j = None) = (map_of (ca_streams (al_client l)) j = None)"
      by (cases rule: client_relay_cases; cases "j = i") (auto simp: ClientRelay(4))
    with Step.IH ClientRelay(1) show ?thesis by (simp add: underway_def known_def)
  qed (use Step.IH in \<open>auto simp: underway_def known_def channel_message_frame channel_attach_def channel_detach_def
      channel_next_def split: list.splits\<close>)
qed (simp add: link_init_def underway_def known_def channel_attach_def ClientAgent_start_def)

lemma link_reachable_ok:
  assumes "link_reachable c h l" "hub_ok h" "unat (hub_next_id h) + al_opened l < 2 ^ 64"
  shows "link_ok c l"
  using assms(1,3)
proof (induction rule: link_reachable.induct)
  case Init
  then show ?case using link_ok_init [OF assms(2)] by simp
next
  case (Step l l')
  have le: "al_opened l \<le> al_opened l'" by (rule opened_mono [OF Step.hyps(2)])
  have "unat (hub_next_id (al_hub l)) = unat (hub_next_id h) + al_opened l"
    unfolding link_next_id [OF Step.hyps(1)] using le Step.prems by (simp add: unat_word_ariths unat_of_nat)
  with le Step show ?case by (intro link_ok_step [OF _ Step.hyps(2) link_ours [OF Step.hyps(1)]]) simp_all
qed

section \<open>A run\<close>

text \<open>A program connects to the forwarded socket and sends two bytes, the agent answers one, and both are
  carried across.\<close>

definition run_opened :: AgentLink where
  "run_opened =
     (let l = link_init 0 AgentHub_start
      in l\<lparr>al_hub := snd (hub_open (al_hub l)), al_opened := Suc (al_opened l), al_ours := opened_ours 0 l\<rparr>)"

definition link_send :: "nat \<Rightarrow> AgentLink \<Rightarrow> AgentLink" where
  "link_send c l = (case channel_next c (al_hub l) of Some (m, h) \<Rightarrow> l\<lparr>al_hub := h, al_down := al_down l @ [m]\<rparr> | None \<Rightarrow> l)"

definition link_recv :: "AgentLink \<Rightarrow> AgentLink" where
  "link_recv l = (case al_down l of m # ms \<Rightarrow> l\<lparr>al_down := ms, al_client := relay_message m (al_client l)\<rparr> | [] \<Rightarrow> l)"

definition link_local :: "u64 \<Rightarrow> RelayEvent \<Rightarrow> AgentLink \<Rightarrow> AgentLink" where
  "link_local i e l =
     (case client_relay i (Relay e) (al_client l) of
        (a, w, go) \<Rightarrow> l\<lparr>al_client := a, gc_wrote := grow i w (gc_wrote l), gc_read := grow i (local_data e) (gc_read l),
           al_done := (if go then al_done l else insert i (al_done l))\<rparr>)"

definition link_answer :: "AgentLink \<Rightarrow> AgentLink" where
  "link_answer l =
     (case ca_out (al_client l) of m # ms \<Rightarrow> l\<lparr>al_client := (al_client l)\<lparr>ca_out := ms\<rparr>, al_up := al_up l @ [m]\<rparr> | [] \<Rightarrow> l)"

definition link_back :: "AgentLink \<Rightarrow> AgentLink" where
  "link_back l = (case al_up l of m # ms \<Rightarrow> l\<lparr>al_up := ms, al_hub := channel_message m (al_hub l)\<rparr> | [] \<Rightarrow> l)"

definition link_hub :: "nat \<Rightarrow> u64 \<Rightarrow> RelayEvent \<Rightarrow> AgentLink \<Rightarrow> AgentLink" where
  "link_hub c i ev l =
     (case hub_relay i ev (al_hub l) of
        (h, w) \<Rightarrow> l\<lparr>al_hub := h, gs_wrote := grow i w (gs_wrote l),
          gs_read := grow i (local_data ev) (gs_read l),
          gs_sent := grow i (if hub_channel (al_hub l) = Some c then local_data ev else []) (gs_sent l)\<rparr>)"

definition run_end :: AgentLink where
  "run_end = (link_hub 0 1 (QueueRecv WriteOk) \<circ> link_back \<circ> link_answer \<circ> link_local 1 (LocalRead (ReadOk [9])) \<circ> link_local 1 (QueueRecv WriteOk)
     \<circ> link_recv \<circ> link_recv \<circ> link_send 0 \<circ> link_send 0
     \<circ> link_hub 0 1 (LocalRead (ReadOk [7, 8]))) run_opened"

lemma reach_moves:
  assumes "link_reachable c h l"
  shows "link_reachable c h (link_send c l)" "link_reachable c h (link_recv l)" "link_reachable c h (link_answer l)"
    "link_reachable c h (link_back l)"
    "map_of (ca_streams (al_client l)) i \<noteq> None \<Longrightarrow> i \<notin> al_done l \<Longrightarrow> link_reachable c h (link_local i e l)"
    "map_of (hub_streams (al_hub l)) i \<noteq> None \<Longrightarrow> link_reachable c h (link_hub c i ev l)"
proof -
  note st = link_reachable.Step [OF assms]
  show "link_reachable c h (link_send c l)" "link_reachable c h (link_recv l)" "link_reachable c h (link_answer l)"
    "link_reachable c h (link_back l)"
    by (auto simp: link_send_def link_recv_def link_answer_def link_back_def assms
        intro: st [OF link_step.Send] st [OF link_step.ClientRecv] st [OF link_step.ClientSend] st [OF link_step.HubRecv]
        split: option.splits list.splits)
  show "link_reachable c h (link_local i e l)" if "map_of (ca_streams (al_client l)) i \<noteq> None" "i \<notin> al_done l"
  proof -
    obtain a w go where r: "client_relay i (Relay e) (al_client l) = (a, w, go)" using prod_cases3 by blast
    from st [OF link_step.ClientRelay [OF that r]] show ?thesis by (simp add: link_local_def r)
  qed
  show "link_reachable c h (link_hub c i ev l)" if "map_of (hub_streams (al_hub l)) i \<noteq> None"
  proof -
    obtain h' w where r: "hub_relay i ev (al_hub l) = (h', w)" by force
    from st [OF link_step.HubRelay [OF that r]] show ?thesis by (simp add: link_hub_def r)
  qed
qed

lemmas agent_run_simps = link_init_def AgentHub_start_def ClientAgent_start_def channel_attach_def hub_open_def send_to_channel_def
  hub_relay_def client_relay_def channel_next_def new_stream_def opened_ours_def grow_def Let_def stream_push_def
  link_send_def link_recv_def link_local_def link_answer_def link_back_def link_hub_def

lemma reach_run_opened: "link_reachable 0 AgentHub_start run_opened"
  unfolding run_opened_def Let_def by (rule link_reachable.Step [OF link_reachable.Init link_step.Open])

lemma reach_run_end: "link_reachable 0 AgentHub_start run_end"
  unfolding run_end_def comp_def
  by (intro reach_moves reach_run_opened) (simp_all add: run_opened_def agent_run_simps)

lemma hub_ok_start: "hub_ok AgentHub_start"
  by (simp add: hub_ok_def AgentHub_start_def)

section \<open>What the hub sends to the channel\<close>

text \<open>A channel attaches once, so after it was replaced nothing is sent to it any more.\<close>

lemma hub_relay_channel: "hub_relay i ev h = (h', w) \<Longrightarrow> hub_channel h' = hub_channel h"
  by (auto simp: hub_relay_def hub_finish_def send_to_channel_def Let_def split: option.splits RelayEvent.splits ReadResult.splits list.splits
      prod.splits if_splits)

lemma hub_open_channel: "hub_channel (snd (hub_open h)) = hub_channel h"
  by (auto simp: hub_open_def Let_def send_to_channel_def split: option.splits)

lemma channel_message_channel: "hub_channel (channel_message m h) = hub_channel h"
  by (cases m) simp_all

lemma link_step_channel: "link_step c l l' \<Longrightarrow> hub_channel (al_hub l') = Some c \<Longrightarrow> hub_channel (al_hub l) = Some c"
  by (cases rule: link_step_cases)
    (auto simp: hub_relay_channel hub_open_channel channel_message_channel channel_next_def channel_attach_def channel_detach_def
      split: list.splits if_splits)

lemma link_sent:
  "link_reachable c h l \<Longrightarrow> prefix (gs_sent l j) (gs_read l j) \<and> (hub_channel (al_hub l) = Some c \<longrightarrow> gs_sent l j = gs_read l j)"
proof (induction rule: link_reachable.induct)
  case (Step l l')
  from Step.hyps(2) show ?case
  proof (cases rule: link_step_cases)
    case (HubRelay i ev h' w)
    with Step.IH hub_relay_channel [of i ev "al_hub l" h' w] show ?thesis by (auto simp: grow_def)
  qed (use Step.IH link_step_channel [OF Step.hyps(2)] in auto)
qed (simp add: link_init_def)

section \<open>Properties\<close>

text \<open>
  C21: the forwarded agent connection is exact in both directions.  Whatever the interleaving of relays,
  channel tasks and other channels, the bytes written to the local agent of the client for a stream
  are a prefix of those the program on the server wrote to the forwarded socket since this channel
  attached, and for a stream of this channel the bytes written back to the program are a prefix of what
  the agent answered on that stream; no byte is reordered, duplicated or sent to another stream.
\<close>

theorem agent_stream_exact:
  assumes "link_reachable c h l" "hub_ok h" "unat (hub_next_id h) + al_opened l < 2 ^ 64"
  shows "prefix (gc_wrote l j) (gs_read l j) \<and> (j \<in> al_ours l \<longrightarrow> prefix (gs_wrote l j) (gc_read l j))"
  using link_okD(4,12) [OF link_reachable_ok [OF assms], of j] link_ours [OF assms(1), of j] link_sent [OF assms(1), of j]
  by (blast intro: prefix_order.trans)

theorem agent_stream_exact_witness:
  "gc_wrote run_end 1 = [7, 8] \<and> 1 \<in> al_ours run_end \<and> prefix (gc_wrote run_end 1) (gs_read run_end 1)
   \<and> prefix (gs_wrote run_end 1) (gc_read run_end 1)"
proof -
  have e: "gc_wrote run_end 1 = [7, 8]" "1 \<in> al_ours run_end" "al_opened run_end = 1"
    by (simp_all add: run_end_def run_opened_def agent_run_simps)
  have "unat (hub_next_id AgentHub_start) + al_opened run_end < 2 ^ 64" unfolding e(3) by (simp add: AgentHub_start_def)
  with agent_stream_exact [OF reach_run_end hub_ok_start, of 1] e show ?thesis by blast
qed

text \<open>
  C22: nothing is dropped on the way while the channel lasts.  As long as no other channel has replaced it, once the
  queues of a stream and of the channel are empty and the relays at both ends still run, the agent has got
  every byte of the program and the program every byte of the agent.
\<close>

theorem agent_stream_complete:
  assumes "link_reachable c h l" "hub_ok h" "unat (hub_next_id h) + al_opened l < 2 ^ 64" "j \<notin> al_done l"
    and "al_down l = []" "hub_out (al_hub l) c = []" "map_of (ca_streams (al_client l)) j = Some s" "st_queue s = []"
    and "al_up l = []" "ca_out (al_client l) = []" "map_of (hub_streams (al_hub l)) j = Some t" "st_queue t = []"
    and "hub_channel (al_hub l) = Some c"
  shows "gc_wrote l j = gs_read l j \<and> gs_wrote l j = gc_read l j"
proof -
  note inv = link_okD [OF link_reachable_ok [OF assms(1-3)], of j]
  have "coming c j l = Some s" "arriving j l = Some t" "live j l" using assms by (simp_all add: coming_def arriving_def live_def)
  moreover have "gs_sent l j = gs_read l j" using link_sent [OF assms(1), of j] assms(13) by simp
  ultimately show ?thesis using inv(2) [of s] inv(13) assms(4,8,12) by auto
qed

theorem agent_stream_complete_witness:
  "gc_wrote run_end 1 = gs_read run_end 1 \<and> gs_wrote run_end 1 = gc_read run_end 1 \<and> gc_read run_end 1 = [9]"
proof -
  have e: "gc_read run_end 1 = [9]" "al_opened run_end = 1" "1 \<notin> al_done run_end" "al_down run_end = []" "hub_out (al_hub run_end) 0 = []"
    "map_of (ca_streams (al_client run_end)) 1 = Some new_stream" "al_up run_end = []" "ca_out (al_client run_end) = []"
    "map_of (hub_streams (al_hub run_end)) 1 = Some new_stream" "st_queue new_stream = []" "hub_channel (al_hub run_end) = Some 0"
    by (simp_all add: run_end_def run_opened_def agent_run_simps)
  have "unat (hub_next_id AgentHub_start) + al_opened run_end < 2 ^ 64" unfolding e(2) by (simp add: AgentHub_start_def)
  from agent_stream_complete [OF reach_run_end hub_ok_start this e(3-6,10,7-9,10,11)] e(1) show ?thesis by blast
qed

text \<open>
  C39: a connection to the forwarded socket does not survive a reconnect of the agent channel.  The relay
  of a stream opened at an earlier channel keeps the stream and sends what it reads to the channel that
  is attached now; the relay of the client on that channel, which has never seen the stream opened,
  ignores it and answers nothing, so the stream is neither served nor closed.
\<close>

theorem agent_stream_orphaned:
  assumes "hub_channel h = Some c" "map_of (hub_streams h) i = Some s" "st_open s" "st_queue s = []"
    and "AgentOpen i \<notin> set (ms @ hub_out h c)"
  shows "\<exists>h' a. hub_relay i (LocalRead (ReadOk (b # bs))) h = (h', [])
           \<and> hub_streams h' = hub_streams h \<and> hub_out h' c = hub_out h c @ [AgentData i (b # bs)]
           \<and> a = fold relay_message (ms @ hub_out h' c) ClientAgent_start
           \<and> map_of (ca_streams a) i = None \<and> ca_out a = []
           \<and> hub_relay i (QueueRecv WriteOk) h' = (h', [])"
proof -
  define h' where "h' = h\<lparr>hub_out := (hub_out h)(c := hub_out h c @ [AgentData i (b # bs)])\<rparr>"
  have "map_of (ca_streams (fold relay_message (ms @ hub_out h' c) ClientAgent_start)) i = None"
  proof (rule client_demux.deliver_unknown)
    have "opens m = Some i \<longleftrightarrow> m = AgentOpen i" for m by (cases m) auto
    then show "\<forall>m \<in> set (ms @ hub_out h' c). opens m \<noteq> Some i" using assms(5) by (auto simp: h'_def)
  qed (simp add: ClientAgent_start_def)
  moreover have "ca_out (fold relay_message ns a) = ca_out a" for ns a
  proof (induction ns arbitrary: a)
    case (Cons m ns)
    then show ?case by (cases m) simp_all
  qed simp
  ultimately show ?thesis
    by (intro exI [of _ h'] exI conjI)
       (use assms(1-4) in \<open>auto simp: hub_relay_def send_to_channel_def h'_def ClientAgent_start_def\<close>)
qed

theorem agent_stream_orphaned_witness:
  "let h = channel_attach 1 (al_hub run_opened)
   in hub_channel h = Some 1 \<and> map_of (hub_streams h) 1 = Some new_stream
      \<and> (\<exists>h' a. hub_relay 1 (LocalRead (ReadOk [7])) h = (h', []) \<and> hub_streams h' = hub_streams h
           \<and> hub_out h' 1 = hub_out h 1 @ [AgentData 1 [7]]
           \<and> a = fold relay_message ([] @ hub_out h' 1) ClientAgent_start
           \<and> map_of (ca_streams a) 1 = None \<and> ca_out a = [] \<and> hub_relay 1 (QueueRecv WriteOk) h' = (h', []))"
proof -
  define h where "h = channel_attach 1 (al_hub run_opened)"
  have e: "hub_channel h = Some 1" "map_of (hub_streams h) 1 = Some new_stream" "st_open new_stream" "st_queue new_stream = []"
    "AgentOpen 1 \<notin> set ([] @ hub_out h 1)"
    by (simp_all add: h_def run_opened_def agent_run_simps)
  from agent_stream_orphaned [OF e, of 7 "[]"] e(1,2) show ?thesis unfolding Let_def h_def [symmetric] by blast
qed

end
