(* ===== verification/AgentRun.thy ===== *)
theory AgentRun
  imports AgentLink
begin

text \<open>
  The loops around agent forwarding: the accept loop of the hub's socket and the connection that is an agent
  channel (\<open>src/server/src/agent.rs\<close>: \<open>SharedAgentHub\<close>, \<open>accept_agent_connections\<close>,
  \<open>handle_agent_channel\<close>), and the client's channel with its reconnects (\<open>src/client/src/agent.rs\<close>:
  \<open>forward_agent\<close>, \<open>relay_agent_channel\<close>).  The end of the theory shows that these loops take exactly the
  steps of AgentLink, so that what holds there holds of them.

  The hub is shared: between two turns of a loop, relays and other channels change it, which is the
  argument \<open>meanwhile\<close>.
\<close>

section \<open>The hub of the server\<close>

record SharedAgentHub =
  shared_runtime_dir :: "string option"
  shared_hub :: "(string \<times> AgentHub) option"

definition SharedAgentHub_new :: "string option \<Rightarrow> SharedAgentHub" where
  "SharedAgentHub_new runtime_dir = \<lparr>shared_runtime_dir = runtime_dir, shared_hub = None\<rparr>"

definition shared_get_or_start :: "HubEnv \<Rightarrow> SharedAgentHub \<Rightarrow> (ServerError + (string \<times> AgentHub)) \<times> SharedAgentHub" where
  "shared_get_or_start env sh =
     (case get_or_start env (shared_runtime_dir sh) (shared_hub sh) of (r, hub) \<Rightarrow> (r, sh\<lparr>shared_hub := hub\<rparr>))"

definition socket_path :: "string \<times> AgentHub \<Rightarrow> string" where
  "socket_path hub = fst hub"

text \<open>\<open>accept_agent_connections\<close>: for each accepted connection the time until a channel attaches and what happens to
  the hub in the meantime; \<open>None\<close> is a failing accept, which ends the loop.  The result has the stream each
  connection got.\<close>

fun accept_agent_connections ::
  "(millis option \<times> (AgentHub \<Rightarrow> AgentHub)) option list \<Rightarrow> AgentHub \<Rightarrow> u64 option list \<times> AgentHub" where
  "accept_agent_connections [] h = ([], h)"
| "accept_agent_connections (None # rest) h = ([], h)"
| "accept_agent_connections (Some (wait, meanwhile) # rest) h =
     (case relay_start h wait (meanwhile h) of
        (i, h') \<Rightarrow> (case accept_agent_connections rest h' of (is, h'') \<Rightarrow> (i # is, h'')))"

section \<open>A connection that is an agent channel\<close>

datatype AgentSelect =
    OutboundReady "ServerError option" \<comment> \<open>the error of the send, if it fails\<close>
  | AgentEvent Event

datatype AgentStep = AgentLoop AgentHub | AgentReturn "ServerError + unit" AgentHub

text \<open>One turn, and what it puts on the wire.  An empty queue is not ready.\<close>

definition agent_select ::
  "(bytes \<Rightarrow> ServerError + ChannelMessage) \<Rightarrow> nat \<Rightarrow> AgentSelect \<Rightarrow> AgentHub \<Rightarrow> AgentStep \<times> ChannelMessage list" where
  "agent_select dec c ev h =
     (case ev of
        OutboundReady fails \<Rightarrow>
          (case channel_next c h of
             None \<Rightarrow> (AgentLoop h, [])
           | Some (m, h') \<Rightarrow>
               (case fails of Some e \<Rightarrow> (AgentReturn (Inl e) h', []) | None \<Rightarrow> (AgentLoop h', [m])))
      | AgentEvent (Frame bs) \<Rightarrow>
          (case dec bs of Inl e \<Rightarrow> (AgentReturn (Inl e) h, []) | Inr m \<Rightarrow> (AgentLoop (channel_message m h), []))
      | AgentEvent (Datagram _) \<Rightarrow> (AgentLoop h, [])
      | AgentEvent Closed \<Rightarrow> (AgentReturn (Inr ()) h, [])
      | AgentEvent (Failed e) \<Rightarrow> (AgentReturn (Inl e) h, []))"

fun agent_loop ::
  "(bytes \<Rightarrow> ServerError + ChannelMessage) \<Rightarrow> nat \<Rightarrow> ((AgentHub \<Rightarrow> AgentHub) \<times> AgentSelect) list \<Rightarrow> AgentHub \<Rightarrow>
   (ServerError + unit) option \<times> ChannelMessage list \<times> AgentHub" where
  "agent_loop dec c [] h = (None, [], h)"
| "agent_loop dec c ((meanwhile, ev) # rest) h =
     (case agent_select dec c ev (meanwhile h) of
        (AgentReturn r h', sent) \<Rightarrow> (Some r, sent, h')
      | (AgentLoop h', sent) \<Rightarrow> (case agent_loop dec c rest h' of (r, sent', h'') \<Rightarrow> (r, sent @ sent', h'')))"

text \<open>\<open>handle_agent_channel\<close>; no result while the connection lives.\<close>

definition handle_agent_channel ::
  "(bytes \<Rightarrow> ServerError + ChannelMessage) \<Rightarrow> nat \<Rightarrow> ((AgentHub \<Rightarrow> AgentHub) \<times> AgentSelect) list \<Rightarrow> AgentHub \<Rightarrow>
   (ServerError + unit) option \<times> ChannelMessage list \<times> AgentHub" where
  "handle_agent_channel dec c turns h =
     (case agent_loop dec c turns (channel_attach c h) of
        (None, sent, h') \<Rightarrow> (None, sent, h')
      | (Some r, sent, h') \<Rightarrow> (Some r, sent, channel_detach c h'))"

section \<open>The client\<close>

datatype RelaySelect =
    OutboundSend "ClientError option"
  | ConnNext "ClientError + ConnEvent"

text \<open>One turn of \<open>relay_agent_channel\<close>: whether it goes on, the state, and what it sends.\<close>

definition relay_select ::
  "(bytes \<Rightarrow> ClientError + ChannelMessage) \<Rightarrow> RelaySelect \<Rightarrow> ClientAgent \<Rightarrow> bool \<times> ClientAgent \<times> ChannelMessage list" where
  "relay_select dec ev a =
     (case ev of
        OutboundSend fails \<Rightarrow>
          (case ca_out a of
             [] \<Rightarrow> (True, a, [])
           | m # ms \<Rightarrow> if fails = None then (True, a\<lparr>ca_out := ms\<rparr>, [m]) else (False, a\<lparr>ca_out := ms\<rparr>, []))
      | ConnNext (Inr (ConnFrame bs)) \<Rightarrow>
          (case dec bs of Inl _ \<Rightarrow> (False, a, []) | Inr m \<Rightarrow> (True, relay_message m a, []))
      | ConnNext (Inr (ConnDatagram _)) \<Rightarrow> (True, a, [])
      | ConnNext (Inr Disconnected) \<Rightarrow> (False, a, [])
      | ConnNext (Inl _) \<Rightarrow> (False, a, []))"

fun relay_agent_channel ::
  "(bytes \<Rightarrow> ClientError + ChannelMessage) \<Rightarrow> ((ClientAgent \<Rightarrow> ClientAgent) \<times> RelaySelect) list \<Rightarrow> ClientAgent \<Rightarrow>
   bool \<times> ClientAgent \<times> ChannelMessage list" where
  "relay_agent_channel dec [] a = (True, a, [])"
| "relay_agent_channel dec ((meanwhile, ev) # rest) a =
     (case relay_select dec ev (meanwhile a) of
        (False, a', sent) \<Rightarrow> (False, a', sent)
      | (True, a', sent) \<Rightarrow> (case relay_agent_channel dec rest a' of (go, a'', sent') \<Rightarrow> (go, a'', sent @ sent')))"

definition RECONNECT_DELAY :: millis where "RECONNECT_DELAY = 1000"

text \<open>\<open>forward_agent\<close> never returns: for each attempt how long connecting takes, whether it succeeds and how long the
  channel then lives; the result are the times at which it dials.\<close>

fun forward_agent :: "millis \<Rightarrow> (millis \<times> bool \<times> millis) list \<Rightarrow> millis list" where
  "forward_agent now [] = [now]"
| "forward_agent now ((connecting, ok, lived) # rest) =
     now # forward_agent (now + connecting + (if ok then lived else 0) + RECONNECT_DELAY) rest"

section \<open>Laws\<close>

text \<open>The hub is started once: a later request gets the same socket, and a failed start is tried again.\<close>

lemma get_or_start_once:
  assumes "shared_get_or_start env sh = (Inr hub, sh')"
  shows "shared_get_or_start env' sh' = (Inr hub, sh')"
  using assms by (auto simp: shared_get_or_start_def get_or_start_def split: option.splits sum.splits prod.splits)

lemma get_or_start_failed:
  assumes "shared_get_or_start env sh = (Inl e, sh')"
  shows "sh' = sh \<and> shared_hub sh = None"
  using assms by (auto simp: shared_get_or_start_def get_or_start_def split: option.splits sum.splits prod.splits)

text \<open>With a runtime directory the path of the socket is the same in every run of the daemon.\<close>

lemma stable_socket:
  assumes "shared_get_or_start env (SharedAgentHub_new (Some dir)) = (Inr hub, sh)"
  shows "socket_path hub = path_join dir ''agent.sock''"
  using assms
  by (auto simp: shared_get_or_start_def SharedAgentHub_new_def get_or_start_def hub_start_def agent_socket_def socket_path_def
      split: option.splits sum.splits if_splits)

text \<open>The turns of the loops are the steps of the link.\<close>

lemma agent_select_steps:
  "agent_select dec c (OutboundReady None) (al_hub l) = (AgentLoop h', [m]) \<Longrightarrow>
     link_step c l (l\<lparr>al_hub := h', al_down := al_down l @ [m]\<rparr>)"
  "al_up l = m # ms \<Longrightarrow> dec bs = Inr m \<Longrightarrow> agent_select dec c (AgentEvent (Frame bs)) (al_hub l) = (AgentLoop h', []) \<Longrightarrow>
     link_step c l (l\<lparr>al_up := ms, al_hub := h'\<rparr>)"
  by (auto simp: agent_select_def split: option.splits prod.splits intro: link_step.Send link_step.HubRecv)

lemma relay_select_steps:
  "relay_select cdec (OutboundSend None) (al_client l) = (True, a', [m]) \<Longrightarrow>
     link_step c l (l\<lparr>al_client := a', al_up := al_up l @ [m]\<rparr>)"
  "al_down l = m # ms \<Longrightarrow> cdec bs = Inr m \<Longrightarrow> relay_select cdec (ConnNext (Inr (ConnFrame bs))) (al_client l) = (True, a', []) \<Longrightarrow>
     link_step c l (l\<lparr>al_down := ms, al_client := a'\<rparr>)"
  by (auto simp: relay_select_def split: list.splits intro: link_step.ClientSend link_step.ClientRecv)

text \<open>The forwarding is given up never: there is one attempt more than there were connections, each at least a second
  after the one before.\<close>

lemma forward_agent_retries:
  "length (forward_agent now xs) = Suc (length xs)"
  "Suc k < length (forward_agent now xs) \<Longrightarrow> forward_agent now xs ! k + RECONNECT_DELAY \<le> forward_agent now xs ! Suc k"
proof (induction xs arbitrary: now k)
  case (Cons x xs)
  obtain t ok lived where x: "x = (t, ok, lived)" by (metis prod_cases3)
  {
    case 1
    show ?case using Cons.IH(1) x by simp
  next
    case 2
    have hd: "forward_agent n xs ! 0 = n" for n by (cases xs) (auto split: prod.splits)
    show ?case using 2 x Cons.IH(2) by (cases k) (auto simp: hd)
  }
qed simp_all

text \<open>A channel that ends lets go of the hub and of nothing else: a channel that attached after it stays attached, and
  the streams of the hub stay open.\<close>

lemma agent_channel_end:
  assumes "handle_agent_channel dec c turns h = (Some r, sent, h')"
  shows "\<exists>g. agent_loop dec c turns (channel_attach c h) = (Some r, sent, g) \<and> hub_channel h' \<noteq> Some c
    \<and> (hub_channel g \<noteq> Some c \<longrightarrow> h' = g) \<and> hub_streams h' = hub_streams g"
  using assms by (auto simp: handle_agent_channel_def channel_detach_def split: option.splits prod.splits if_splits)

end
