(* ===== verification/SystemToken.thy ===== *)
theory SystemToken
  imports SystemInput
begin

text \<open>
  Two facts about the exec session of System that need no bound on the number of messages: its client knows and uses
  the token of its own session only, and the session is resumable and has a task exactly while its
  channel has a receiver.  Fleet builds on them.
\<close>

text \<open>A client knows the token of its own session only, and asks for no other; the session has a task
  exactly while its channel has a receiver.\<close>

definition is_started :: "ChannelMessage \<Rightarrow> bool" where
  "is_started m \<longleftrightarrow> (\<exists>t. m = Started t)"

definition keeps_token :: "string \<Rightarrow> System \<Rightarrow> bool" where
  "keeps_token tok s \<longleftrightarrow>
     (\<forall>c r. cn_req (sy_conns s c) = Some r \<longrightarrow> (\<exists>n. r = Resume tok n))
     \<and> (\<forall>c t. Started t \<in> set (cn_down (sy_conns s c)) \<longrightarrow> t = Some tok)
     \<and> (case resume_token (sy_client s) of Some t \<Rightarrow> t = tok | None \<Rightarrow> sy_phase s \<noteq> Away \<and> (\<forall>c. sy_phase s \<noteq> On c))"

definition session_sane :: "System \<Rightarrow> bool" where
  "session_sane s \<longleftrightarrow>
     ses_resumable (sy_session s) \<and> (ses_task_alive (sy_session s) \<longleftrightarrow> sy_task s \<noteq> None)
     \<and> (\<forall>m \<in> set (log_buffer (sy_log s)). \<not> is_started m)"

lemma task_log_buffer:
  "task_log mk st sh = (st', sh') \<Longrightarrow> log_buffer (sh_log sh') = log_buffer (sh_log sh) @ [mk (task_seq st + 1)]"
  by (auto simp: task_log_def log_push_def Let_def)

lemma task_select_buffer:
  assumes "task_select env ev st sh = (out, sh', eff)"
  shows "\<exists>ms. log_buffer (sh_log sh') = log_buffer (sh_log sh) @ ms \<and> (\<forall>m \<in> set ms. \<not> is_started m)"
proof (cases "\<exists>i. ev = Inbound i")
  case True
  with assms have "sh_log sh' = sh_log sh" by (auto dest: task_inbound_log)
  then show ?thesis by (intro exI [of _ "[]"]) simp
next
  case False
  with assms show ?thesis
    by (cases ev) (auto simp: is_started_def dest!: task_log_buffer split: ReadResult.splits if_splits prod.splits)
qed

lemma session_task_step_buffer:
  assumes "session_task_step env ev st sh = (out, sh', eff)" "\<forall>m \<in> set (log_buffer (sh_log sh)). \<not> is_started m"
  shows "\<forall>m \<in> set (log_buffer (sh_log sh')). \<not> is_started m"
proof -
  obtain o1 sh1 e1 where s1: "task_select env ev st sh = (o1, sh1, e1)" by (metis prod_cases3)
  have sel: "\<forall>m \<in> set (log_buffer (sh_log sh1)). \<not> is_started m" using task_select_buffer [OF s1] assms(2) by auto
  show ?thesis
  proof (cases o1)
    case (TaskRunning st1)
    obtain st2 sh2 where lg: "task_log (\<lambda>s. Exit s (the (io_exit_code st1))) st1 sh1 = (st2, sh2)" by force
    have "task_exit_check st1 sh1 = (out, sh')" using TaskRunning assms(1) s1 by (auto simp: session_task_step_def split: prod.splits)
    with sel lg task_log_buffer [OF lg] show ?thesis
      by (auto simp: task_exit_check_def is_started_def split: option.splits if_splits)
  qed (use assms(1) s1 sel in \<open>auto simp: session_task_step_def\<close>)
qed

lemma sane_init: "keeps_token tok (sys_init tok io agent now)" "session_sane (sys_init tok io agent now)"
  by (auto simp: keeps_token_def session_sane_def sys_init_def no_conn_def client_init_def started_message_def fresh_session_def
      Let_def OutboundLog_default_def)

lemma log_trim_subset: "set (log_buffer (log_trim l a)) \<subseteq> set (log_buffer l)"
proof -
  have "set (fst (trim_loop buf t s)) \<subseteq> set buf" for buf t s by (induction buf t s rule: trim_loop.induct) auto
  then show ?thesis by (simp add: log_trim_def split_beta)
qed

lemma attach_select_buffer:
  assumes "attach_select dec tok ev a r ses = (out, r', ses')"
  shows "set (log_buffer (sh_log (ses_shared ses'))) \<subseteq> set (log_buffer (sh_log (ses_shared ses)))"
  using attach_select_log [OF assms] by (elim disjE exE conjE) (simp_all add: log_trim_subset)

lemma session_sane_step:
  assumes "step tok tgt command s s'" "session_sane s"
  shows "session_sane s'"
  using assms(1)
proof (cases rule: step_cases)
  case (Task st ev env)
  obtain out sh' eff where t: "session_task_step env ev st (ses_shared (sy_session s)) = (out, sh', eff)" by (metis prod_cases3)
  show ?thesis using Task(1) t assms(2) session_task_step_buffer [OF t]
    by (cases out) (auto simp: task_act_def session_sane_def Let_def)
next
  case (Restart re intime)
  then show ?thesis using assms(2)
    by (auto simp: restart_act_def session_sane_def restore_session_def make_handover_def log_snapshot_def log_restore_def Let_def
        split: option.splits sum.splits if_splits)
next
  case (ServerEvent c a dec ev now)
  obtain out r ses' where sel: "attach_select dec tok ev a (sy_registry s) (sy_session s) = (out, r, ses')" by (metis prod_cases3)
  show ?thesis using ServerEvent(1) sel assms(2) attach_select_buffer [OF sel] attach_select_resumable [OF sel] attach_select_shared(1) [OF sel]
    by (auto simp: server_act_def session_sane_def)
next
  case Expire
  with assms(2) show ?thesis by (simp add: session_sane_def expire_act_frame)
next
  case (Answer c m rest n)
  with assms(2) show ?thesis by (simp add: session_sane_def connected_act_frame pop_down_def)
qed (use assms(2) in \<open>simp_all add: session_sane_def flush_act_frame ack_act_frame accept_act_frame client_act_frame connected_act_frame
      connect_act_def stdin_act_def Let_def split_beta\<close>)

lemma flush_started: "session_sane s \<Longrightarrow> Started t \<notin> set (fst (attach_flush fails a (sy_session s)))"
  using flush_sent by (fastforce simp: session_sane_def is_started_def)

lemma attached_step_token:
  assumes "attached_step tgt dec ev cl = (msgs, out)"
  shows "resume_token (outcome_client out) = resume_token cl \<and> Started t \<notin> set msgs"
proof -
  have m: "resume_token (outcome_client o') = resume_token cl \<and> Started t \<notin> set ms" if "client_message wr b x cl = (ms, o')" for wr b x ms o'
    using that by (cases x) (auto simp: Let_def split: if_splits)
  from assms show ?thesis
    by (cases ev) (auto simp: client_stdin_read_def Let_def stdin_message_def split: if_splits option.splits ConnEvent.splits sum.splits dest!: m)
qed

lemma outcome_phase_token:
  "outcome_phase c out = Away \<Longrightarrow> resume_token (outcome_client out) \<noteq> None"
  "outcome_phase c out = On c' \<Longrightarrow> c' = c"
  by (cases out; auto simp: outcome_phase_def split: if_splits)+

lemma keeps_token_server:
  assumes "keeps_token tok s" "sy_client s' = sy_client s" "sy_phase s' = sy_phase s"
    and "\<And>c r. cn_req (sy_conns s' c) = Some r \<Longrightarrow> cn_req (sy_conns s c) = Some r"
    and "\<And>c t. Started t \<in> set (cn_down (sy_conns s' c)) \<Longrightarrow> Started t \<in> set (cn_down (sy_conns s c)) \<or> t = Some tok"
  shows "keeps_token tok s'"
  using assms unfolding keeps_token_def by metis

lemma keeps_token_connected:
  assumes "keeps_token tok s" "r = Inr (Some tok) \<or> (\<exists>e. r = Inl e \<and> (\<forall>name. e \<noteq> NotLoggedIn name))"
  shows "keeps_token tok (connected_act tgt r n c s)"
proof -
  have tk: "resume_token (sy_client s) = None \<or> resume_token (sy_client s) = Some tok"
    using assms(1) by (auto simp: keeps_token_def split: option.splits)
  from assms(2) show ?thesis
  proof
    assume r: "r = Inr (Some tok)"
    then obtain cl where cl: "after_connect tgt r (sy_client s) = GoAttach cl" "resume_token cl = Some tok"
      using tk by (auto simp: after_connect_def spawn_agent_def Let_def)
    obtain msgs ok where "resend n cl = (msgs, ok)" by force
    with cl assms(1) show ?thesis by (auto simp: connected_act_def keeps_token_def)
  next
    assume "\<exists>e. r = Inl e \<and> (\<forall>name. e \<noteq> NotLoggedIn name)"
    then obtain e where "r = Inl e" "\<forall>name. e \<noteq> NotLoggedIn name" by blast
    with assms(1) show ?thesis
      by (cases e; cases "resume_token (sy_client s)") (auto simp: connected_act_def after_connect_def keeps_token_def)
  qed
qed

lemma start_reply_own:
  "(\<And>t. m = Started t \<Longrightarrow> t = Some tok) \<Longrightarrow>
   start_reply m = Inr (Some tok) \<or> (\<exists>e. start_reply m = Inl e \<and> (\<forall>name. e \<noteq> NotLoggedIn name))"
  by (cases m) auto

lemma keeps_token_step:
  assumes "step tok tgt command s s'" "session_sane s" "keeps_token tok s"
  shows "keeps_token tok s'"
  using assms(1)
proof (cases rule: step_cases)
  case (Flush c a fails now)
  show ?thesis
    by (rule keeps_token_server [OF assms(3)])
      (use Flush(1) flush_started [OF assms(2)] in \<open>auto simp: flush_act_frame flush_act_def split_beta split: if_splits\<close>)
next
  case (StdinAck c a fails now)
  show ?thesis
    by (rule keeps_token_server [OF assms(3)])
      (use StdinAck(1) in \<open>auto simp: ack_act_frame ack_act_def attach_ack_def Let_def split: if_splits option.splits\<close>)
next
  case (Accept c req now)
  then obtain n where req: "req = Resume tok n" using assms(3) by (auto simp: keeps_token_def)
  show ?thesis
    by (rule keeps_token_server [OF assms(3)])
      (use Accept(1) req assms(2) in \<open>auto simp: accept_act_frame accept_act_def handle_request_def deny_def server_view_def session_sane_def
          started_message_def Let_def split: if_splits option.splits\<close>)
next
  case (ClientEvent c cdec cev sent)
  obtain msgs out where st: "attached_step tgt cdec cev (sy_client s) = (msgs, out)" by force
  then show ?thesis using ClientEvent(1,2) assms(3) attached_step_token [OF st] outcome_phase_token [of c out]
    by (auto simp: client_act_def keeps_token_def split: AttachedEvent.splits ConnEvent.splits option.splits if_splits dest: in_set_tlD)
next
  case (ClientStdin c r ok leak)
  obtain msgs out where st: "attached_step tgt (\<lambda>_. Inl ClientProtocol) (StdinRead r ok) (sy_client s) = (msgs, out)" by force
  then show ?thesis using ClientStdin(1,2) assms(3) attached_step_token [OF st] outcome_phase_token [of c out]
    by (auto simp: stdin_act_def keeps_token_def Let_def split: option.splits if_splits)
next
  case Connect
  with assms(3) show ?thesis
    by (auto simp: connect_act_def keeps_token_def start_request_def no_conn_def split: option.splits if_splits)
next
  case (Answer c m rest n)
  have pop: "keeps_token tok (pop_down c s)"
    by (rule keeps_token_server [OF assms(3)]) (auto simp: pop_down_def dest: in_set_tlD split: if_splits)
  have own: "t = Some tok" if "m = Started t" for t
    using Answer(3) assms(3) that unfolding keeps_token_def by (metis list.set_intros(1))
  show ?thesis unfolding Answer(1) by (rule keeps_token_connected [OF pop start_reply_own]) (rule own)
next
  case (ConnectFails c e n)
  then show ?thesis using keeps_token_connected [OF assms(3)] by (cases e) auto
qed (rule keeps_token_server [OF assms(3)]; simp add: task_act_frame restart_act_frame detach_all_def server_act_frame expire_act_frame)+

lemma reachable_sane: "reachable tok tgt command s \<Longrightarrow> session_sane s \<and> keeps_token tok s"
  by (induction rule: reachable.induct) (auto intro: sane_init session_sane_step keeps_token_step)

end
