(* ===== verification/ServerMain.thy ===== *)
theory ServerMain
  imports Auth Handover
begin

text \<open>
  The server program (\<open>src/server/src/main.rs\<close>): the command line, the descriptors that systemd
  passes in, the checks of the configuration, and the server it starts (the constructors and
  setters of \<open>Server\<close> in \<open>src/server/src/lib.rs\<close>).

  Files, the socket type of a descriptor and the environment are arguments.
\<close>

section \<open>Inherited descriptors\<close>

text \<open>\<open>str::ends_with\<close>.\<close>

definition ends_with :: "string \<Rightarrow> string \<Rightarrow> bool" where
  "ends_with s e \<longleftrightarrow> length e \<le> length s \<and> drop (length s - length e) s = e"

definition SESSION_ROLES :: "string list" where
  "SESSION_ROLES = [''.stdin'', ''.stdout'', ''.stderr'', ''.exit'']"

record Activation =
  act_listener :: "fd option"
  act_quic :: "fd option"
  act_sessions :: named_fds

text \<open>One descriptor.  A second listening or datagram socket is dropped.\<close>

definition activation_one :: "(fd \<Rightarrow> bool) \<Rightarrow> fd \<times> string \<Rightarrow> Activation \<Rightarrow> Activation" where
  "activation_one is_datagram e acc =
     (case e of (f, name) \<Rightarrow>
        if \<exists>role \<in> set SESSION_ROLES. ends_with name role
        then acc\<lparr>act_sessions := act_sessions acc @ [(name, f)]\<rparr>
        else if is_datagram f
        then (if act_quic acc = None then acc\<lparr>act_quic := Some f\<rparr> else acc)
        else if act_listener acc = None then acc\<lparr>act_listener := Some f\<rparr> else acc)"

text \<open>\<open>fds\<close> is \<open>None\<close> when \<open>listen_fds_with_names\<close> fails.\<close>

definition activation_fds :: "(fd \<Rightarrow> bool) \<Rightarrow> (fd \<times> string) list option \<Rightarrow> Activation" where
  "activation_fds is_datagram fds =
     (let none = \<lparr>act_listener = None, act_quic = None, act_sessions = []\<rparr>
      in case fds of None \<Rightarrow> none | Some es \<Rightarrow> fold (activation_one is_datagram) es none)"

section \<open>The command line\<close>

record ServerArgs =
  arg_listen :: "string option"
  arg_quic_listen :: "string option"
  arg_quic_cert :: "string option"
  arg_quic_key :: "string option"
  arg_token_file :: "string option"
  arg_oidc_issuer :: "string option"
  arg_oidc_client_id :: "string option"
  arg_oidc_allowed_sub :: "string option"
  arg_session_timeout_secs :: "string option"

definition no_args :: ServerArgs where
  "no_args = \<lparr>arg_listen = None, arg_quic_listen = None, arg_quic_cert = None, arg_quic_key = None,
     arg_token_file = None, arg_oidc_issuer = None, arg_oidc_client_id = None, arg_oidc_allowed_sub = None,
     arg_session_timeout_secs = None\<rparr>"

text \<open>An option with what \<open>args.next()\<close> gives after it, \<open>None\<close> at the end.\<close>

definition set_option :: "string \<Rightarrow> string option \<Rightarrow> ServerArgs \<Rightarrow> ServerArgs option" where
  "set_option name v a =
     (if name = ''--listen'' then Some (a\<lparr>arg_listen := v\<rparr>)
      else if name = ''--quic-listen'' then Some (a\<lparr>arg_quic_listen := v\<rparr>)
      else if name = ''--quic-cert'' then Some (a\<lparr>arg_quic_cert := v\<rparr>)
      else if name = ''--quic-key'' then Some (a\<lparr>arg_quic_key := v\<rparr>)
      else if name = ''--token-file'' then Some (a\<lparr>arg_token_file := v\<rparr>)
      else if name = ''--oidc-issuer'' then Some (a\<lparr>arg_oidc_issuer := v\<rparr>)
      else if name = ''--oidc-client-id'' then Some (a\<lparr>arg_oidc_client_id := v\<rparr>)
      else if name = ''--oidc-allowed-sub'' then Some (a\<lparr>arg_oidc_allowed_sub := v\<rparr>)
      else if name = ''--session-timeout-secs'' then Some (a\<lparr>arg_session_timeout_secs := v\<rparr>)
      else None)"

fun parse_server_args :: "string list \<Rightarrow> ServerArgs \<Rightarrow> ServerArgs option" where
  "parse_server_args [] a = Some a"
| "parse_server_args [name] a = set_option name None a"
| "parse_server_args (name # v # rest) a =
     (case set_option name (Some v) a of None \<Rightarrow> None | Some a' \<Rightarrow> parse_server_args rest a')"

section \<open>The configuration\<close>

datatype ListenOn = Inherited fd | BindTo string

record ServerConfig =
  sc_auth :: Auth
  sc_listen :: ListenOn
  sc_quic :: "(ListenOn \<times> string \<times> string) option"
  sc_timeout :: millis
  sc_session_fds :: named_fds

datatype ServerStart = Usage | TokenFileUnreadable | Start ServerConfig

definition quic_files :: "ServerArgs \<Rightarrow> (string \<times> string) option option" where
  "quic_files a =
     (case (arg_quic_listen a, arg_quic_cert a, arg_quic_key a) of
        (_, Some cert, Some key) \<Rightarrow> Some (Some (cert, key))
      | (None, None, None) \<Rightarrow> Some None
      | _ \<Rightarrow> None)"

definition oidc_options :: "ServerArgs \<Rightarrow> OidcConfig option option" where
  "oidc_options a =
     (case (arg_oidc_issuer a, arg_oidc_client_id a, arg_oidc_allowed_sub a) of
        (Some issuer, Some client_id, Some sub) \<Rightarrow>
          Some (Some \<lparr>cfg_issuer = issuer, cfg_client_id = client_id, cfg_allowed_sub = sub\<rparr>)
      | (None, None, None) \<Rightarrow> Some None
      | _ \<Rightarrow> None)"

definition timeout_option :: "ServerArgs \<Rightarrow> millis option" where
  "timeout_option a =
     (case arg_session_timeout_secs a of
        None \<Rightarrow> Some DEFAULT_SESSION_TIMEOUT
      | Some s \<Rightarrow> (case parse_u64 s of Some secs \<Rightarrow> Some (unat secs * 1000) | None \<Rightarrow> None))"

definition read_token :: "(string \<Rightarrow> string option) \<Rightarrow> ServerArgs \<Rightarrow> string option option" where
  "read_token read_file a =
     (case arg_token_file a of
        None \<Rightarrow> Some None
      | Some path \<Rightarrow> (case read_file path of Some text \<Rightarrow> Some (Some (trim text)) | None \<Rightarrow> None))"

text \<open>An inherited socket is preferred to an address.\<close>

definition listen_on :: "fd option \<Rightarrow> string option \<Rightarrow> ListenOn option" where
  "listen_on inherited addr =
     (case inherited of Some f \<Rightarrow> Some (Inherited f) | None \<Rightarrow> map_option BindTo addr)"

definition check_config ::
  "(string \<Rightarrow> string option) \<Rightarrow> Activation \<Rightarrow> ServerArgs \<Rightarrow> ServerStart" where
  "check_config read_file act a =
     (case quic_files a of
        None \<Rightarrow> Usage
      | Some quic \<Rightarrow>
          (case listen_on (act_listener act) (arg_listen a) of
             None \<Rightarrow> Usage
           | Some listener \<Rightarrow>
               if quic \<noteq> None \<and> arg_quic_listen a = None \<and> act_quic act = None then Usage
               else case read_token read_file a of
                      None \<Rightarrow> TokenFileUnreadable
                    | Some token \<Rightarrow>
                        (case oidc_options a of
                           None \<Rightarrow> Usage
                         | Some provider \<Rightarrow>
                             if token = None \<and> provider = None then Usage
                             else case timeout_option a of
                                    None \<Rightarrow> Usage
                                  | Some timeout \<Rightarrow>
                                      Start \<lparr>sc_auth = \<lparr>static_token = token, oidc = provider\<rparr>, sc_listen = listener,
                                        sc_quic = (case quic of
                                            None \<Rightarrow> None
                                          | Some files \<Rightarrow> map_option (\<lambda>l. (l, files)) (listen_on (act_quic act) (arg_quic_listen a))),
                                        sc_timeout = timeout, sc_session_fds = act_sessions act\<rparr>)))"

definition server_main ::
  "(fd \<Rightarrow> bool) \<Rightarrow> (fd \<times> string) list option \<Rightarrow> (string \<Rightarrow> string option) \<Rightarrow> string list \<Rightarrow> ServerStart" where
  "server_main is_datagram fds read_file args =
     (case parse_server_args args no_args of
        None \<Rightarrow> Usage
      | Some a \<Rightarrow> check_config read_file (activation_fds is_datagram fds) a)"

text \<open>The user's login shell; \<open>None\<close> when the passwd entry is missing.\<close>

definition login_shell :: "string option \<Rightarrow> string" where
  "login_shell shell = (case shell of Some s \<Rightarrow> if s \<noteq> [] then s else ''/bin/sh'' | None \<Rightarrow> ''/bin/sh'')"

section \<open>Laws\<close>

lemma ends_with_iff: "ends_with s e \<longleftrightarrow> (\<exists>p. s = p @ e)"
proof
  assume "ends_with s e"
  then have "s = take (length s - length e) s @ e" by (metis append_take_drop_id ends_with_def)
  then show "\<exists>p. s = p @ e" by blast
qed (auto simp: ends_with_def)

definition is_session_name :: "string \<Rightarrow> bool" where
  "is_session_name name \<longleftrightarrow> (\<exists>role \<in> set SESSION_ROLES. ends_with name role)"

text \<open>Every pipe that a handover names is recognised as one.\<close>

lemma fd_name_is_session:
  assumes "role \<in> {''stdin'', ''stdout'', ''stderr'', ''exit''}"
  shows "is_session_name (fd_name token role)"
  using assms by (auto simp: is_session_name_def SESSION_ROLES_def ends_with_iff fd_name_def)

lemma handover_fds_role: "rf \<in> set (handover_fds ok st) \<Longrightarrow> fst rf \<in> {''stdin'', ''stdout'', ''stderr'', ''exit''}"
  by (auto simp: handover_fds_def split: option.splits if_splits)

lemma activation_one_eq:
  "activation_one dg (f, n) acc =
     (if is_session_name n then acc\<lparr>act_sessions := act_sessions acc @ [(n, f)]\<rparr>
      else if dg f then (if act_quic acc = None then acc\<lparr>act_quic := Some f\<rparr> else acc)
      else if act_listener acc = None then acc\<lparr>act_listener := Some f\<rparr> else acc)"
  by (simp add: activation_one_def is_session_name_def)

text \<open>The loop in closed form: session pipes in order, the first socket of each kind.\<close>

lemma activation_fold:
  "fold (activation_one dg) es acc =
     \<lparr>act_listener = (case act_listener acc of
          Some f \<Rightarrow> Some f
        | None \<Rightarrow> map_option fst (find (\<lambda>(f, n). \<not> is_session_name n \<and> \<not> dg f) es)),
      act_quic = (case act_quic acc of
          Some f \<Rightarrow> Some f
        | None \<Rightarrow> map_option fst (find (\<lambda>(f, n). \<not> is_session_name n \<and> dg f) es)),
      act_sessions = act_sessions acc @ map (\<lambda>(f, n). (n, f)) (filter (\<lambda>(f, n). is_session_name n) es)\<rparr>"
proof (induction es arbitrary: acc)
  case (Cons e es)
  obtain f n where e: "e = (f, n)" by force
  show ?case unfolding e
    by (cases "is_session_name n"; cases "dg f"; cases "act_listener acc"; cases "act_quic acc")
       (simp_all add: Cons.IH activation_one_eq)
qed (simp split: option.splits)

lemma activation_fds_eq:
  "activation_fds dg (Some es) =
     \<lparr>act_listener = map_option fst (find (\<lambda>(f, n). \<not> is_session_name n \<and> \<not> dg f) es),
      act_quic = map_option fst (find (\<lambda>(f, n). \<not> is_session_name n \<and> dg f) es),
      act_sessions = map (\<lambda>(f, n). (n, f)) (filter (\<lambda>(f, n). is_session_name n) es)\<rparr>"
  by (simp add: activation_fds_def activation_fold)

lemma find_append_only: "find P ys = None \<Longrightarrow> find P (xs @ ys) = Some x \<Longrightarrow> x \<in> set xs"
  by (induction xs) (auto split: if_splits)

lemma check_config_Start:
  assumes "check_config read_file act a = Start cfg"
  shows "\<exists>token provider listener timeout quic. read_token read_file a = Some token \<and> oidc_options a = Some provider
    \<and> \<not> (token = None \<and> provider = None) \<and> listen_on (act_listener act) (arg_listen a) = Some listener
    \<and> timeout_option a = Some timeout \<and> quic_files a = Some quic
    \<and> sc_auth cfg = \<lparr>static_token = token, oidc = provider\<rparr> \<and> sc_listen cfg = listener \<and> sc_timeout cfg = timeout
    \<and> sc_session_fds cfg = act_sessions act \<and> (quic = None \<longleftrightarrow> sc_quic cfg = None)"
  using assms
  by (auto simp: check_config_def listen_on_def split: option.splits if_splits)

lemma strip_blank:
  assumes "list_all (\<lambda>c. ws1 (char_code c)) s" "\<And>c t. ws1 (char_code c) \<Longrightarrow> f (c # t) = 1"
  shows "strip_by f s = []"
  using assms(1)
proof (induction s)
  case Nil
  then show ?case by (simp add: strip_by.simps)
next
  case (Cons c s)
  then show ?case using assms(2) by (subst strip_by.simps) simp
qed

lemma trim_blank: "list_all (\<lambda>c. ws1 (char_code c)) s \<Longrightarrow> trim s = []"
  using strip_blank [of s ws_len] by (simp add: trim_def ws_len_def strip_by.simps)

section \<open>Properties\<close>

text \<open>
  The descriptors of a handover come back.  When a daemon that handed over its sessions is
  started again with those descriptors, among any sockets that systemd passes in, it sees exactly
  the handed-over pipes under their names, in order, and never takes one of them for a listening
  socket.
\<close>
theorem activation_finds_handover:
  assumes "\<forall>(f, n) \<in> set sockets. \<not> is_session_name n"
    and "pipes = concat (map (\<lambda>(token, st). map (\<lambda>(role, f). (fd_name token role, f)) (handover_fds ok st)) sessions)"
    and "a = activation_fds dg (Some (sockets @ map (\<lambda>(n, f). (f, n)) pipes))"
  shows "act_sessions a = pipes
    \<and> (\<forall>f. act_listener a = Some f \<longrightarrow> f \<in> fst ` set sockets) \<and> (\<forall>f. act_quic a = Some f \<longrightarrow> f \<in> fst ` set sockets)"
proof -
  have names: "\<forall>(n, f) \<in> set pipes. is_session_name n"
    using fd_name_is_session [OF handover_fds_role] by (auto simp: assms(2) split_beta)
  have skip: "find (\<lambda>(f, n). \<not> is_session_name n \<and> P f) (map (\<lambda>(n, f). (f, n)) pipes) = None" for P
    using names by (auto simp: find_None_iff)
  have "filter (\<lambda>(f, n). is_session_name n) sockets = []" using assms(1) by (auto simp: filter_empty_conv)
  moreover have "filter (\<lambda>(f, n). is_session_name n) (map (\<lambda>(n, f). (f, n)) pipes) = map (\<lambda>(n, f). (f, n)) pipes"
    using names by (auto simp: filter_id_conv)
  ultimately have "act_sessions a = pipes" unfolding assms(3) activation_fds_eq
    by (simp add: comp_def split_beta)
  moreover have "fst e \<in> fst ` set sockets"
    if "find (\<lambda>(f, n). \<not> is_session_name n \<and> P f) (sockets @ map (\<lambda>(n, f). (f, n)) pipes) = Some e" for P e
    using find_append_only [OF skip that] by simp
  ultimately show ?thesis unfolding assms(3) activation_fds_eq by auto
qed

theorem activation_finds_handover_witness:
  "act_sessions (activation_fds (\<lambda>f. f = 4) (Some ([(3, ''web''), (4, ''quic'')]
      @ map (\<lambda>(n, f). (f, n)) (map (\<lambda>(role, f). (fd_name ''t'' role, f)) (handover_fds (\<lambda>_. True) (session_task_start demo_io fresh_shared))))))
   = map (\<lambda>(role, f). (fd_name ''t'' role, f)) (handover_fds (\<lambda>_. True) (session_task_start demo_io fresh_shared))
   \<and> handover_fds (\<lambda>_. True) (session_task_start demo_io fresh_shared) \<noteq> []"
proof -
  have "\<forall>(f, n) \<in> set [(3 :: fd, ''web''), (4, ''quic'')]. \<not> is_session_name n"
    by (simp add: is_session_name_def SESSION_ROLES_def ends_with_def)
  from activation_finds_handover [OF this refl refl, of "\<lambda>f. f = 4" "\<lambda>_. True" "[(''t'', session_task_start demo_io fresh_shared)]"]
  show ?thesis by (simp add: handover_fds_def session_task_start_def demo_io_def)
qed

text \<open>
  The server never starts without authentication and never with half of a configuration.  If
  the command line starts a server, then it has a pre-shared token or an OIDC provider with all
  three of its settings, a socket to listen on, and QUIC only with a certificate and a key.
\<close>
theorem server_start_configured:
  assumes "server_main dg fds read_file args = Start cfg"
  shows "(static_token (sc_auth cfg) \<noteq> None \<or> oidc (sc_auth cfg) \<noteq> None)
    \<and> (\<exists>a. parse_server_args args no_args = Some a
        \<and> (oidc (sc_auth cfg) = None \<longleftrightarrow> arg_oidc_issuer a = None \<and> arg_oidc_client_id a = None \<and> arg_oidc_allowed_sub a = None)
        \<and> (\<forall>p. arg_token_file a = Some p \<longrightarrow> (\<exists>text. read_file p = Some text \<and> static_token (sc_auth cfg) = Some (trim text)))
        \<and> (sc_quic cfg \<noteq> None \<longleftrightarrow> arg_quic_cert a \<noteq> None \<and> arg_quic_key a \<noteq> None))"
proof -
  obtain a where a: "parse_server_args args no_args = Some a" "check_config read_file (activation_fds dg fds) a = Start cfg"
    using assms by (auto simp: server_main_def split: option.splits)
  from check_config_Start [OF a(2)] obtain token provider quic where c:
    "read_token read_file a = Some token" "oidc_options a = Some provider" "\<not> (token = None \<and> provider = None)"
    "quic_files a = Some quic" "sc_auth cfg = \<lparr>static_token = token, oidc = provider\<rparr>" "quic = None \<longleftrightarrow> sc_quic cfg = None"
    by (elim exE conjE)
  have "provider = None \<longleftrightarrow> arg_oidc_issuer a = None \<and> arg_oidc_client_id a = None \<and> arg_oidc_allowed_sub a = None"
    using c(2) by (auto simp: oidc_options_def split: option.splits)
  moreover have "quic \<noteq> None \<longleftrightarrow> arg_quic_cert a \<noteq> None \<and> arg_quic_key a \<noteq> None"
    using c(4) by (auto simp: quic_files_def split: option.splits)
  moreover have "\<forall>p. arg_token_file a = Some p \<longrightarrow> (\<exists>text. read_file p = Some text \<and> token = Some (trim text))"
    using c(1) by (auto simp: read_token_def split: option.splits)
  ultimately show ?thesis using a(1) c by auto
qed


theorem server_start_configured_witness:
  "\<exists>cfg. server_main (\<lambda>_. False) None (\<lambda>_. Some ''secret'') [''--listen'', ''a:1'', ''--token-file'', ''/t''] = Start cfg
     \<and> static_token (sc_auth cfg) \<noteq> None"
proof -
  have "\<exists>cfg. server_main (\<lambda>_. False) None (\<lambda>_. Some ''secret'') [''--listen'', ''a:1'', ''--token-file'', ''/t''] = Start cfg"
    by (simp add: server_main_def set_option_def no_args_def check_config_def quic_files_def listen_on_def activation_fds_def
        read_token_def oidc_options_def timeout_option_def)
  then obtain cfg where run: "server_main (\<lambda>_. False) None (\<lambda>_. Some ''secret'') [''--listen'', ''a:1'', ''--token-file'', ''/t''] = Start cfg"
    by blast
  from server_start_configured [OF run] have "static_token (sc_auth cfg) \<noteq> None"
    by (auto simp: set_option_def no_args_def)
  with run show ?thesis by blast
qed

text \<open>
  A blank token file opens the server.  If the token file is empty or holds only white space, the
  server starts with the empty string as its pre-shared token, and a client that presents an
  empty token is authenticated.
\<close>
theorem blank_token_file_admits_anyone:
  assumes "server_main dg fds read_file args = Start cfg" "parse_server_args args no_args = Some a"
    and "arg_token_file a = Some path" "read_file path = Some text" "list_all (\<lambda>c. ws1 (char_code c)) text"
  shows "static_token (sc_auth cfg) = Some [] \<and> verify lib (sc_auth cfg) [] st = (Inr (), st)"
proof -
  have "check_config read_file (activation_fds dg fds) a = Start cfg" using assms(1,2) by (simp add: server_main_def)
  from check_config_Start [OF this] obtain token provider where
    "read_token read_file a = Some token" "sc_auth cfg = \<lparr>static_token = token, oidc = provider\<rparr>" by (elim exE conjE)
  then have "static_token (sc_auth cfg) = Some []" using assms(3,4) trim_blank [OF assms(5)] by (simp add: read_token_def)
  then show ?thesis by (simp add: verify_def constant_time_eq_def bytes_of_text_def)
qed

theorem blank_token_file_admits_anyone_witness:
  "\<exists>cfg. server_main (\<lambda>_. False) None (\<lambda>_. Some '' '') [''--listen'', ''a:1'', ''--token-file'', ''/t''] = Start cfg
     \<and> (\<forall>lib st. verify (lib :: (unit, unit, unit, unit) oidc_lib) (sc_auth cfg) [] st = (Inr (), st))"
proof -
  let ?args = "[''--listen'', ''a:1'', ''--token-file'', ''/t'']"
  have "\<exists>a. parse_server_args ?args no_args = Some a \<and> arg_token_file a = Some ''/t''" by (simp add: set_option_def no_args_def)
  then obtain a where a: "parse_server_args ?args no_args = Some a" "arg_token_file a = Some ''/t''" by blast
  have "\<exists>cfg. server_main (\<lambda>_. False) None (\<lambda>_. Some '' '') ?args = Start cfg"
    by (simp add: server_main_def set_option_def no_args_def check_config_def quic_files_def listen_on_def activation_fds_def
        read_token_def oidc_options_def timeout_option_def)
  then obtain cfg where run: "server_main (\<lambda>_. False) None (\<lambda>_. Some '' '') ?args = Start cfg" by blast
  have blank: "list_all (\<lambda>c. ws1 (char_code c)) '' ''" by (simp add: ws1_def)
  have "verify (lib :: (unit, unit, unit, unit) oidc_lib) (sc_auth cfg) [] st = (Inr (), st)" for lib st
    using blank_token_file_admits_anyone [OF run a _ blank, where lib = lib and st = st] by simp
  with run show ?thesis by blast
qed

end
