(* ===== verification/ServerRun.thy ===== *)
theory ServerRun
  imports ServerMain Spawn
begin

text \<open>
  The life of a daemon: how \<open>main\<close> builds the \<open>Server\<close> (\<open>src/server/src/main.rs\<close>), the accept loop of
  \<open>Server::serve\<close> and \<open>Server::shut_down\<close> (\<open>src/server/src/lib.rs\<close>), and, across two instances, what
  a restart under systemd does to the sessions.

  The results of binding sockets, of the TLS configuration and of the notifications to systemd are
  arguments.  What happens on an accepted connection is \<open>handle_connection\<close> of Attach.
\<close>

section \<open>The server\<close>

record Daemon =
  d_listener :: ListenOn
  d_quic :: "ListenOn option"
  d_auth :: Auth
  d_shell :: string
  d_server :: Server
  d_timeout :: millis
  d_agent_dir :: "string option"
  d_session_env :: env

definition no_sessions :: "store \<Rightarrow> Server" where
  "no_sessions unused = \<lparr>srv_registry = [], srv_store = unused, srv_tasks = (\<lambda>_. None)\<rparr>"

text \<open>\<open>local_addr\<close> is the result of asking the listener for its address.\<close>

definition with_listener ::
  "store \<Rightarrow> ServerError option \<Rightarrow> ListenOn \<Rightarrow> Auth \<Rightarrow> string \<Rightarrow> ServerError + Daemon" where
  "with_listener unused local_addr listener auth shell =
     (case local_addr of
        Some e \<Rightarrow> Inl e
      | None \<Rightarrow>
          Inr \<lparr>d_listener = listener, d_quic = None, d_auth = auth, d_shell = shell, d_server = no_sessions unused,
               d_timeout = DEFAULT_SESSION_TIMEOUT, d_agent_dir = None, d_session_env = []\<rparr>)"

definition set_session_timeout :: "millis \<Rightarrow> Daemon \<Rightarrow> Daemon" where
  "set_session_timeout timeout d = d\<lparr>d_timeout := timeout\<rparr>"

definition set_agent_runtime_dir :: "string \<Rightarrow> Daemon \<Rightarrow> Daemon" where
  "set_agent_runtime_dir dir d = d\<lparr>d_agent_dir := Some dir\<rparr>"

text \<open>\<open>enable_quic_endpoint\<close>, on the result of \<open>quic::listen\<close>.\<close>

definition enable_quic_endpoint :: "ServerError option \<Rightarrow> ListenOn \<Rightarrow> Daemon \<Rightarrow> ServerError + Daemon" where
  "enable_quic_endpoint listened socket d =
     (case listened of Some e \<Rightarrow> Inl e | None \<Rightarrow> Inr (d\<lparr>d_quic := Some socket\<rparr>))"

section \<open>Starting\<close>

text \<open>What the start meets: opening the listening socket, its address, parsing the QUIC address and
  opening that socket, \<open>RUNTIME_DIRECTORY\<close>, and \<open>sessions.json\<close> in it.\<close>

record BootEnv =
  be_open :: "ListenOn \<Rightarrow> ServerError option"
  be_local_addr :: "ServerError option"
  be_parse_addr :: "string \<Rightarrow> bool"
  be_quic :: "ListenOn \<Rightarrow> string \<times> string \<Rightarrow> ServerError option"
  be_runtime_dir :: "string option"
  be_sessions :: "string \<Rightarrow> (ServerError + (string \<times> sid \<times> SessionRecord) list) option"
  be_restore :: RestoreEnv
  be_unused :: store

definition boot_listener :: "BootEnv \<Rightarrow> ServerConfig \<Rightarrow> string \<Rightarrow> ServerError + Daemon" where
  "boot_listener env cfg shell =
     (case be_open env (sc_listen cfg) of
        Some e \<Rightarrow> Inl e
      | None \<Rightarrow> with_listener (be_unused env) (be_local_addr env) (sc_listen cfg) (sc_auth cfg) shell)"

definition boot_quic :: "BootEnv \<Rightarrow> ServerConfig \<Rightarrow> Daemon \<Rightarrow> ServerError + Daemon" where
  "boot_quic env cfg d =
     (case sc_quic cfg of
        None \<Rightarrow> Inr d
      | Some (socket, files) \<Rightarrow>
          (case socket of
             BindTo addr \<Rightarrow>
               if be_parse_addr env addr then enable_quic_endpoint (be_quic env socket files) socket d else Inl Io
           | Inherited _ \<Rightarrow> enable_quic_endpoint (be_quic env socket files) socket d))"

definition boot_sessions :: "BootEnv \<Rightarrow> ServerConfig \<Rightarrow> Daemon \<Rightarrow> ServerError + Daemon" where
  "boot_sessions env cfg d =
     (case be_runtime_dir env of
        None \<Rightarrow> Inr d
      | Some dir \<Rightarrow>
          (case restore_sessions (be_restore env) (sc_session_fds cfg) (be_sessions env dir) (d_server d) of
             (Inl e, _) \<Rightarrow> Inl e
           | (Inr _, srv) \<Rightarrow> Inr ((set_agent_runtime_dir dir d)\<lparr>d_server := srv\<rparr>)))"

definition boot :: "BootEnv \<Rightarrow> ServerConfig \<Rightarrow> string \<Rightarrow> ServerError + Daemon" where
  "boot env cfg shell =
     and_then (boot_listener env cfg shell)
       (\<lambda>d. and_then (boot_quic env cfg (set_session_timeout (sc_timeout cfg) d)) (boot_sessions env cfg))"

section \<open>Serving\<close>

text \<open>One turn of the accept loop: an accepted connection with whether its WebSocket handshake succeeds,
  a failing \<open>accept\<close>, or the signal.\<close>

datatype ServeEvent = Accepted bool | AcceptFailed ServerError | Sigterm

datatype ServeEnd = ServeFailed ServerError | ShutDown

text \<open>How many connections were handed to \<open>handle_channel\<close>, and how the loop ended, \<open>None\<close> while it
  still runs.\<close>

fun serve_loop :: "ServeEvent list \<Rightarrow> nat \<times> ServeEnd option" where
  "serve_loop [] = (0, None)"
| "serve_loop (Accepted ok # evs) = (case serve_loop evs of (n, r) \<Rightarrow> (if ok then Suc n else n, r))"
| "serve_loop (AcceptFailed e # evs) = (0, Some (ServeFailed e))"
| "serve_loop (Sigterm # evs) = (0, Some ShutDown)"

text \<open>What a daemon leaves to its successor: the result of \<open>run\<close>, the descriptors in the fd store, the
  file, and the server.\<close>

type_synonym legacy = "(ServerError + unit) \<times> named_fds \<times> records option \<times> Server"

text \<open>Closing the QUIC endpoint tells the clients on it that their connection is gone and leaves the sessions
  alone.  \<open>notified\<close> says which descriptors systemd took; a notification that fails is ignored.\<close>

definition shut_down ::
  "string option \<Rightarrow> (sid \<Rightarrow> SessionHandover option) \<Rightarrow> ServerError option \<Rightarrow> (string \<times> fd \<Rightarrow> bool) \<Rightarrow> Server \<Rightarrow> legacy" where
  "shut_down runtime_dir answer write_fails notified srv =
     (case runtime_dir of
        None \<Rightarrow> (Inr (), [], None, srv)
      | Some dir \<Rightarrow>
          (case handover_sessions answer write_fails srv of
             (Inl e, recs, srv') \<Rightarrow> (Inl e, [], recs, srv')
           | (Inr fds, recs, srv') \<Rightarrow> (Inr (), filter notified fds, recs, srv')))"

definition serve_end ::
  "string option \<Rightarrow> (sid \<Rightarrow> SessionHandover option) \<Rightarrow> ServerError option \<Rightarrow> (string \<times> fd \<Rightarrow> bool) \<Rightarrow>
   ServeEnd \<Rightarrow> Server \<Rightarrow> legacy" where
  "serve_end runtime_dir answer write_fails notified fin srv =
     (case fin of
        ServeFailed e \<Rightarrow> (Inl e, [], None, srv)
      | ShutDown \<Rightarrow> shut_down runtime_dir answer write_fails notified srv)"

text \<open>\<open>Server::serve\<close> from its accept loop on; \<open>None\<close> while it runs.\<close>

definition serve ::
  "string option \<Rightarrow> (sid \<Rightarrow> SessionHandover option) \<Rightarrow> ServerError option \<Rightarrow> (string \<times> fd \<Rightarrow> bool) \<Rightarrow>
   ServeEvent list \<Rightarrow> Server \<Rightarrow> legacy option" where
  "serve runtime_dir answer write_fails notified evs srv =
     map_option (\<lambda>fin. serve_end runtime_dir answer write_fails notified fin srv) (snd (serve_loop evs))"

definition server_exit :: "ServerError + unit \<Rightarrow> nat" where
  "server_exit r = (case r of Inr _ \<Rightarrow> 0 | Inl _ \<Rightarrow> 1)"

section \<open>Laws\<close>

text \<open>Handshakes that fail do not end the loop; the first other event does.\<close>

lemma serve_loop_accepted: "snd (serve_loop (map Accepted oks @ evs)) = snd (serve_loop evs)"
  by (induction oks) (simp_all add: split_beta)

lemma boot_Inr:
  assumes "boot env cfg shell = Inr d" "be_runtime_dir env = Some dir"
  shows "d_auth d = sc_auth cfg" "d_timeout d = sc_timeout cfg" "d_agent_dir d = Some dir" "d_listener d = sc_listen cfg"
    "d_quic d = map_option fst (sc_quic cfg)"
    "restore_sessions (be_restore env) (sc_session_fds cfg) (be_sessions env dir) (no_sessions (be_unused env)) = (Inr (), d_server d)"
proof -
  obtain d1 d2 where d1: "boot_listener env cfg shell = Inr d1"
    and d2: "boot_quic env cfg (set_session_timeout (sc_timeout cfg) d1) = Inr d2" and d: "boot_sessions env cfg d2 = Inr d"
    using assms(1) by (auto simp: boot_def and_then_def split: sum.splits)
  have f1: "d_auth d1 = sc_auth cfg" "d_server d1 = no_sessions (be_unused env)" "d_listener d1 = sc_listen cfg" "d_quic d1 = None"
    using d1 by (auto simp: boot_listener_def with_listener_def split: option.splits)
  have f2: "d_auth d2 = sc_auth cfg" "d_server d2 = no_sessions (be_unused env)" "d_listener d2 = sc_listen cfg"
    "d_timeout d2 = sc_timeout cfg" "d_quic d2 = map_option fst (sc_quic cfg)"
    using d2 f1 by (auto simp: boot_quic_def enable_quic_endpoint_def set_session_timeout_def
        split: option.splits ListenOn.splits if_splits)
  obtain r srv where r: "restore_sessions (be_restore env) (sc_session_fds cfg) (be_sessions env dir) (no_sessions (be_unused env)) = (r, srv)"
    by force
  show "d_auth d = sc_auth cfg" "d_timeout d = sc_timeout cfg" "d_agent_dir d = Some dir" "d_listener d = sc_listen cfg"
    "d_quic d = map_option fst (sc_quic cfg)"
    "restore_sessions (be_restore env) (sc_session_fds cfg) (be_sessions env dir) (no_sessions (be_unused env)) = (Inr (), d_server d)"
    using d assms(2) f2 r by (cases r; auto simp: boot_sessions_def set_agent_runtime_dir_def)+
qed

text \<open>Every name a handover gives is that of a session pipe.\<close>

lemma handover_names:
  assumes "distinct (map fst (srv_registry srv))" "handover_sessions (answers tasks) None srv = (Inr fds, Some recs, old)"
  shows "\<forall>(n, f) \<in> set fds. is_session_name n"
proof -
  have "fds = concat (map (fds_of (answers tasks)) (filter (handed_over (answers tasks) (srv_store srv)) (srv_registry srv)))"
    by (rule handover_sessions_eq(1) [OF assms])
  then show ?thesis
    using fd_name_is_session [OF handover_fds_role]
    by (fastforce simp: fds_of_def handed_over_def answers_def make_handover_def log_snapshot_def split: option.splits)
qed

text \<open>What systemd passes to the next instance: the sockets of the unit, then the stored descriptors.\<close>

definition passed_on :: "(fd \<times> string) list \<Rightarrow> named_fds \<Rightarrow> (fd \<times> string) list" where
  "passed_on sockets stored = sockets @ map (\<lambda>(n, f). (f, n)) stored"

lemma passed_on_sessions:
  assumes "\<forall>(f, n) \<in> set sockets. \<not> is_session_name n" "\<forall>(n, f) \<in> set fds. is_session_name n"
  shows "act_sessions (activation_fds dg (Some (passed_on sockets fds))) = fds"
proof -
  have "filter (\<lambda>(f, n). is_session_name n) sockets = []" using assms(1) by (auto simp: filter_empty_conv)
  moreover have "filter (\<lambda>(f, n). is_session_name n) (map (\<lambda>(n, f). (f, n)) fds) = map (\<lambda>(n, f). (f, n)) fds"
    using assms(2) by (auto simp: filter_id_conv)
  ultimately show ?thesis by (simp add: activation_fds_eq passed_on_def comp_def split_beta)
qed

lemma server_main_sessions:
  assumes "server_main dg fds read_file args = Start cfg"
  shows "sc_session_fds cfg = act_sessions (activation_fds dg fds)"
  using assms check_config_Start by (fastforce simp: server_main_def split: option.splits)

section \<open>Properties\<close>

text \<open>
  C12: A restart under systemd keeps every running resumable session whose task answers the handover in time and whose
  descriptors systemd takes.  The old daemon shuts down on
  SIGTERM and puts descriptors and state away; systemd starts the next one with the sockets of the
  unit and the stored descriptors.  If that daemon starts, it serves the token again: the session has
  the same outbound log and the same count of applied input, and its task continues on the same
  pipes with the same process group, so that client and child see no difference.
\<close>
theorem daemon_restart_keeps_session:
  assumes "distinct (map fst (srv_registry srv))" "(token, i) \<in> set (srv_registry srv)"
    and "ses_resumable (srv_store srv i)" "ses_task_alive (srv_store srv i)"
    and "tasks i = Some (st, sh)" "task_ok H t st sh"
    and "serve (Some dir) (answers tasks) None (\<lambda>_. True) (map Accepted oks @ Sigterm # evs) srv = Some (Inr (), stored, Some recs, old)" "file_of recs json"
    and "\<forall>(f, n) \<in> set sockets. \<not> is_session_name n"
    and "server_main dg (Some (passed_on sockets stored)) read_file args = Start cfg"
    and "boot env cfg shell = Inr d" "be_runtime_dir env = Some dir" "be_sessions env dir = Some (Inr json)" "restore_env_ok (be_restore env)"
  shows "registry_get token (srv_registry old) = None
    \<and> (\<exists>j st'. registry_get token (srv_registry (d_server d)) = Some j \<and> srv_tasks (d_server d) j = Some st'
         \<and> ses_shared (srv_store (d_server d) j) = sh \<and> ses_resumable (srv_store (d_server d) j)
         \<and> task_ok H t st' sh \<and> last_client_seq st' = last_client_seq st
         \<and> io_stdin st' = io_stdin st \<and> io_exit_code st' = io_exit_code st \<and> io_pgid st' = io_pgid st
         \<and> (stdout_open st \<longrightarrow> io_stdout st' = io_stdout st)
         \<and> (stderr_open st \<longrightarrow> io_stderr st' = io_stderr st)
         \<and> (io_exit_code st = None \<longrightarrow> io_exit st' = io_exit st))"
proof -
  have ho: "handover_sessions (answers tasks) None srv = (Inr stored, Some recs, old)"
    using assms(7) by (auto simp: serve_def serve_loop_accepted serve_end_def shut_down_def handover_sessions_def split: prod.splits)
  have "sc_session_fds cfg = stored"
    using server_main_sessions [OF assms(10)] passed_on_sessions [OF assms(9) handover_names [OF assms(1) ho]] by simp
  then have "restore_sessions (be_restore env) stored (Some (Inr json)) (no_sessions (be_unused env)) = (Inr (), d_server d)"
    using boot_Inr(6) [OF assms(11,12)] assms(13) by simp
  with restart_preserves_session [OF assms(1-6) ho assms(8,14), of "no_sessions (be_unused env)"] show ?thesis by auto
qed

definition demo_args :: "string list" where
  "demo_args = [''--token-file'', ''/t'']"

definition demo_boot :: "(ServerError + (string \<times> sid \<times> SessionRecord) list) option \<Rightarrow> BootEnv" where
  "demo_boot json =
     \<lparr>be_open = (\<lambda>_. None), be_local_addr = None, be_parse_addr = (\<lambda>_. True), be_quic = (\<lambda>_ _. None), be_runtime_dir = Some ''/run'',
      be_sessions = (\<lambda>_. json), be_restore = demo_restore_env, be_unused = (\<lambda>_. demo_session)\<rparr>"

lemmas start_eval = demo_args_def server_main_def set_option_def no_args_def check_config_def quic_files_def listen_on_def
  read_token_def oidc_options_def timeout_option_def

lemma demo_start: "\<exists>cfg. server_main (\<lambda>_. False) (Some (passed_on [(3, ''web'')] stored)) (\<lambda>_. Some ''secret'') demo_args = Start cfg \<and> sc_quic cfg = None"
proof -
  let ?a = "activation_fds (\<lambda>_. False) (Some (passed_on [(3, ''web'')] stored))"
  have "act_listener ?a = Some 3"
    by (simp add: activation_fds_eq passed_on_def is_session_name_def SESSION_ROLES_def ends_with_def)
  then show ?thesis by (simp add: start_eval)
qed

lemma boot_ok:
  assumes "sc_quic cfg = None" "fst (restore_sessions demo_restore_env (sc_session_fds cfg) json (no_sessions (\<lambda>_. demo_session))) = Inr ()"
  shows "\<exists>d. boot (demo_boot json) cfg shell = Inr d"
  using assms
  by (auto simp: boot_def boot_listener_def with_listener_def boot_quic_def boot_sessions_def set_session_timeout_def demo_boot_def
      and_then_def split_beta split: sum.splits)

theorem daemon_restart_keeps_session_witness:
  "\<exists>json cfg d j st'. boot (demo_boot (Some (Inr json))) cfg ''/bin/sh'' = Inr d
     \<and> registry_get ''t'' (srv_registry (d_server d)) = Some j \<and> srv_tasks (d_server d) j = Some st'
     \<and> io_stdin st' = Some 4 \<and> io_pgid st' = 100"
proof -
  let ?st = "session_task_start demo_io fresh_shared" and ?env = "\<lambda>json. demo_boot (Some (Inr json))"
  obtain stored rec old where
    ho: "handover_sessions (answers demo_tasks) None demo_server = (Inr stored, Some [(''t'', rec)], old)"
    by (simp add: handover_sessions_def handover_one_def registry_entries_def demo_server_def demo_session_def
        inbound_send_def answers_def demo_tasks_def Let_def)
  define json where "json = [(''t'', 5 :: sid, rec)]"
  have js: "file_of [(''t'', rec)] json" by (simp add: file_of_def json_def)
  have sv: "serve (Some ''/run'') (answers demo_tasks) None (\<lambda>_. True) (map Accepted [True] @ Sigterm # []) demo_server
      = Some (Inr (), stored, Some [(''t'', rec)], old)"
    by (simp add: serve_def serve_end_def shut_down_def ho)
  have ok: "task_ok [] 0 ?st fresh_shared" by (simp add: task_ok_start)
  have reg: "distinct (map fst (srv_registry demo_server))" "(''t'', 0) \<in> set (srv_registry demo_server)"
    "ses_resumable (srv_store demo_server 0)" "ses_task_alive (srv_store demo_server 0)" "demo_tasks 0 = Some (?st, fresh_shared)"
    by (simp_all add: demo_server_def demo_session_def demo_tasks_def)
  have sock: "\<forall>(f, n) \<in> set [(3 :: fd, ''web'')]. \<not> is_session_name n"
    by (simp add: is_session_name_def SESSION_ROLES_def ends_with_def)
  obtain cfg where cfg: "server_main (\<lambda>_. False) (Some (passed_on [(3, ''web'')] stored)) (\<lambda>_. Some ''secret'') demo_args = Start cfg"
    "sc_quic cfg = None" using demo_start by blast
  have "sc_session_fds cfg = stored"
    using server_main_sessions [OF cfg(1)] passed_on_sessions [OF sock handover_names [OF reg(1) ho]] by simp
  moreover obtain new where "restore_sessions demo_restore_env stored (Some (Inr json)) (no_sessions (\<lambda>_. demo_session)) = (Inr (), new)"
    using restart_preserves_session [OF reg ok ho js demo_restore_env_ok, of "no_sessions (\<lambda>_. demo_session)"] by blast
  ultimately have "\<exists>d. boot (?env json) cfg ''/bin/sh'' = Inr d" by (intro boot_ok [OF cfg(2)]) simp
  then obtain d where d: "boot (?env json) cfg ''/bin/sh'' = Inr d" by blast
  have env: "be_runtime_dir (?env json) = Some ''/run''" "be_sessions (?env json) ''/run'' = Some (Inr json)" "restore_env_ok (be_restore (?env json))"
    by (simp_all add: demo_boot_def demo_restore_env_ok)
  from daemon_restart_keeps_session [OF reg ok sv js sock cfg(1) d env] d show ?thesis
    by (fastforce simp: session_task_start_def demo_io_def)
qed

text \<open>
  C40: A failing \<open>accept\<close> costs all sessions.  When accepting a connection fails once (for example because
  the process has no descriptor left), \<open>serve\<close> returns the error and the daemon exits without handing
  anything over: nothing is in the fd store and no state is written, so the next instance knows none of
  the sessions and denies every resume.
\<close>
theorem accept_error_drops_sessions:
  assumes "serve dir answer write_fails notified (map Accepted oks @ AcceptFailed e # evs) srv = Some (r, stored, recs, old)"
    and "\<forall>(f, nm) \<in> set sockets. \<not> is_session_name nm"
    and "server_main dg (Some (passed_on sockets stored)) read_file args = Start cfg"
    and "boot env cfg shell = Inr d" "be_runtime_dir env = Some dir'" "be_sessions env dir' = None"
  shows "server_exit r = 1 \<and> stored = [] \<and> recs = None
    \<and> (\<forall>token seen start tk k. handle_request start tk k (Resume token seen) (d_server d)
         = (deny ''unknown resume token'', HandshakeFailed UnknownResumeToken, d_server d))"
proof -
  have fin: "r = Inl e" "stored = []" "recs = None" using assms(1) by (simp_all add: serve_def serve_loop_accepted serve_end_def)
  have "d_server d = no_sessions (be_unused env)"
    using boot_Inr(6) [OF assms(4,5)] assms(6) by (simp add: restore_sessions_def)
  then show ?thesis using fin by (simp add: server_exit_def handle_request_def no_sessions_def registry_get_def)
qed

theorem accept_error_drops_sessions_witness:
  "\<exists>cfg d. boot (demo_boot None) cfg ''/bin/sh'' = Inr d
     \<and> (\<forall>start. handle_request start ''n'' 7 (Resume ''t'' 0) (d_server d)
          = (deny ''unknown resume token'', HandshakeFailed UnknownResumeToken, d_server d))
     \<and> registry_get ''t'' (srv_registry demo_server) \<noteq> None"
proof -
  have sv: "serve (Some ''/run'') (answers demo_tasks) None (\<lambda>_. True) (map Accepted [True] @ AcceptFailed Io # []) demo_server
      = Some (Inl Io, [], None, demo_server)"
    by (simp add: serve_def serve_end_def)
  have sock: "\<forall>(f, n) \<in> set [(3 :: fd, ''web'')]. \<not> is_session_name n"
    by (simp add: is_session_name_def SESSION_ROLES_def ends_with_def)
  obtain cfg where cfg: "server_main (\<lambda>_. False) (Some (passed_on [(3, ''web'')] [])) (\<lambda>_. Some ''secret'') demo_args = Start cfg"
    "sc_quic cfg = None" using demo_start by blast
  obtain d where d: "boot (demo_boot None) cfg ''/bin/sh'' = Inr d" using boot_ok [OF cfg(2), of None] by (auto simp: restore_sessions_def)
  have env: "be_runtime_dir (demo_boot None) = Some ''/run''" "be_sessions (demo_boot None) ''/run'' = None" by (simp_all add: demo_boot_def)
  have "registry_get ''t'' (srv_registry demo_server) \<noteq> None" by (simp add: demo_server_def registry_get_def)
  with accept_error_drops_sessions [OF sv sock cfg(1) d env] d show ?thesis by blast
qed

end
