(* ===== verification/ServerLive.thy ===== *)
theory ServerLive
  imports ServerRun
begin

text \<open>
  A running daemon with all its sessions and connections at once (\<open>src/server/src/lib.rs\<close>): connections
  come, resume, attach agent channels, stream, and go, session tasks run, and the sweep expires
  sessions, in any order.  The steps put together the operations of the other theories, each on the
  part of the state the code gives it.

  A connection is what its task holds.  The atomic actions of its \<open>AttachGuard\<close> are steps of their own: after the
  request it is \<open>Entering\<close>, then \<open>Counted\<close> (\<open>fetch_add\<close> is done, the detach time not cleared yet), then it
  runs its loop, as \<open>Attached\<close> or \<open>AgentAttached\<close>; when the loop has returned it is \<open>Ending\<close>, and if its guard
  was the last one \<open>Leaving\<close> (\<open>fetch_sub\<close> is done, the detach time not set yet).  Anything may happen in
  between.  The sweep, too, first collects the expired sessions and then deals with one after the other.
\<close>

section \<open>State\<close>

datatype ConnLink =
    Entering ConnLink
  | Counted ConnLink
  | Attached string sid AttachState
  | AgentAttached sid
  | Ending sid
  | Leaving sid

fun link_sid :: "ConnLink \<Rightarrow> sid" where
  "link_sid (Entering ln) = link_sid ln"
| "link_sid (Counted ln) = link_sid ln"
| "link_sid (Attached _ i _) = i"
| "link_sid (AgentAttached i) = i"
| "link_sid (Ending i) = i"
| "link_sid (Leaving i) = i"

record Live =
  lv_srv :: Server
  lv_links :: "ConnLink list"
  lv_next :: sid \<comment> \<open>sessions from here on are not allocated yet\<close>
  lv_doomed :: "(string \<times> sid) list" \<comment> \<open>what the sweep has collected and not dealt with yet\<close>

section \<open>Steps\<close>

definition set_session :: "sid \<Rightarrow> Session \<Rightarrow> Server \<Rightarrow> Server" where
  "set_session i s srv = srv\<lparr>srv_store := (srv_store srv)(i := s)\<rparr>"

text \<open>The request of an authenticated connection, up to its guard.\<close>

definition live_accept ::
  "(string \<Rightarrow> bool \<Rightarrow> bool \<Rightarrow> ServerError + Spawned) \<Rightarrow> string \<Rightarrow> millis \<Rightarrow> ExecRequest \<Rightarrow> Live \<Rightarrow> sid option \<times> Live" where
  "live_accept start token now req l =
     (case handle_request start token (lv_next l) req (lv_srv l) of
        (_, HandshakeAttach tok i seen, srv) \<Rightarrow>
          (Some i, l\<lparr>lv_srv := srv, lv_links := lv_links l @ [Entering (Attached tok i (attach_init now seen))],
                     lv_next := max (lv_next l) (Suc i)\<rparr>)
      | (_, HandshakeAgent i, srv) \<Rightarrow> (Some i, l\<lparr>lv_srv := srv, lv_links := lv_links l @ [Entering (AgentAttached i)]\<rparr>)
      | (_, HandshakeFailed _, srv) \<Rightarrow> (None, l\<lparr>lv_srv := srv\<rparr>))"

text \<open>The two actions of \<open>AttachGuard::new\<close> and of \<open>AttachGuard::drop\<close>.\<close>

definition live_count :: "sid \<Rightarrow> Server \<Rightarrow> Server" where
  "live_count i srv = set_session i (guard_new_count (srv_store srv i)) srv"

definition live_clear :: "sid \<Rightarrow> Server \<Rightarrow> Server" where
  "live_clear i srv = set_session i (guard_new_clear (srv_store srv i)) srv"

definition live_uncount :: "sid \<Rightarrow> Server \<Rightarrow> ConnLink list \<times> Server" where
  "live_uncount i srv =
     (case guard_drop_count (srv_store srv i) of
        (prev, s) \<Rightarrow> (if prev = 1 then [Leaving i] else [], set_session i s srv))"

definition live_stamp :: "millis \<Rightarrow> sid \<Rightarrow> Server \<Rightarrow> Server" where
  "live_stamp now i srv = set_session i (guard_drop_stamp now 1 (srv_store srv i)) srv"

text \<open>What an iteration of the attach loop leaves: the connection with its new state, or, when \<open>attach\<close>
  returns, one whose guard is to be dropped.\<close>

fun link_outcome ::
  "string \<Rightarrow> sid \<Rightarrow> AttachOutcome \<times> SessionRegistry \<times> Session \<Rightarrow> Server \<Rightarrow> ConnLink list \<times> Server" where
  "link_outcome tok i (Loop st, r, s) srv = ([Attached tok i st], set_session i s (srv\<lparr>srv_registry := r\<rparr>))"
| "link_outcome tok i (Return _ _, r, s) srv = ([Ending i], set_session i s (srv\<lparr>srv_registry := r\<rparr>))"

definition live_flush ::
  "send_failure \<Rightarrow> string \<Rightarrow> sid \<Rightarrow> AttachState \<Rightarrow> Server \<Rightarrow> ConnLink list \<times> Server" where
  "live_flush fails tok i st srv =
     link_outcome tok i (snd (attach_flush fails st (srv_store srv i)), srv_registry srv, srv_store srv i) srv"

definition live_ack ::
  "ServerError option \<Rightarrow> string \<Rightarrow> sid \<Rightarrow> AttachState \<Rightarrow> Server \<Rightarrow> ConnLink list \<times> Server" where
  "live_ack fails tok i st srv =
     link_outcome tok i (snd (attach_ack fails st (srv_store srv i)), srv_registry srv, srv_store srv i) srv"

definition live_select ::
  "(bytes \<Rightarrow> ServerError + ChannelMessage) \<Rightarrow> AttachEvent \<Rightarrow> string \<Rightarrow> sid \<Rightarrow> AttachState \<Rightarrow> Server \<Rightarrow>
   ConnLink list \<times> Server" where
  "live_select dec ev tok i st srv =
     link_outcome tok i (attach_select dec tok ev st (srv_registry srv) (srv_store srv i)) srv"

text \<open>One iteration of a session task.  Its channel is closed when no connection, no registry entry and not the sweep
  holds the session any more.\<close>

fun live_may :: "sid \<Rightarrow> TaskEvent \<Rightarrow> Live \<Rightarrow> bool" where
  "live_may i (Inbound (Some x)) l = (ses_inbound (srv_store (lv_srv l) i) \<noteq> [] \<and> hd (ses_inbound (srv_store (lv_srv l) i)) = x)"
| "live_may i (Inbound None) l =
     (ses_inbound (srv_store (lv_srv l) i) = [] \<and> i \<notin> snd ` set (srv_registry (lv_srv l)) \<and> i \<notin> link_sid ` set (lv_links l)
      \<and> i \<notin> snd ` set (lv_doomed l))"
| "live_may i _ l = True"

definition live_task :: "TaskEnv \<Rightarrow> TaskEvent \<Rightarrow> sid \<Rightarrow> TaskState \<Rightarrow> Server \<Rightarrow> Server" where
  "live_task env ev i st srv =
     (let s = srv_store srv i
      in case session_task_step env ev st (ses_shared s) of
           (out, sh', eff) \<Rightarrow>
             set_session i
               (s\<lparr>ses_inbound := (case ev of Inbound (Some _) \<Rightarrow> tl (ses_inbound s) | _ \<Rightarrow> ses_inbound s), ses_shared := sh',
                  ses_task_alive := (case out of TaskRunning _ \<Rightarrow> True | _ \<Rightarrow> False)\<rparr>)
               (srv\<lparr>srv_tasks := (srv_tasks srv)(i := (case out of TaskRunning st' \<Rightarrow> Some st' | _ \<Rightarrow> None))\<rparr>))"

text \<open>The sweep: collecting, and giving up one of the collected sessions.\<close>

definition live_collect :: "millis \<Rightarrow> millis \<Rightarrow> Server \<Rightarrow> (string \<times> sid) list" where
  "live_collect now timeout srv = registry_expired now timeout (srv_store srv) (srv_registry srv)"

definition live_expire :: "string \<times> sid \<Rightarrow> Server \<Rightarrow> Server" where
  "live_expire e srv =
     (case expire_one e (srv_registry srv, srv_store srv) of (r, st) \<Rightarrow> srv\<lparr>srv_registry := r, srv_store := st\<rparr>)"

text \<open>A token is fresh when no registry entry, no connection and not the sweep knows it.\<close>

fun link_token :: "ConnLink \<Rightarrow> string option" where
  "link_token (Entering ln) = link_token ln"
| "link_token (Counted ln) = link_token ln"
| "link_token (Attached tok _ _) = Some tok"
| "link_token _ = None"

definition fresh_token :: "string \<Rightarrow> Live \<Rightarrow> bool" where
  "fresh_token token l \<longleftrightarrow>
     registry_get token (srv_registry (lv_srv l)) = None \<and> Some token \<notin> link_token ` set (lv_links l)
     \<and> token \<notin> fst ` set (lv_doomed l)"

text \<open>A step, with the session it works for; \<open>None\<close> when the sweep collects and for refused requests.  An attach loop
  holds its session and with it the publisher of the log, so that waiting for news of the log cannot fail.
  The sweep may take the sessions it has collected in any order, as the hash map they come from has none, and
  may collect again before it is done, which is more than the code does.\<close>

inductive live_step :: "sid option \<Rightarrow> Live \<Rightarrow> Live \<Rightarrow> bool" where
  Accept: "live_accept (exec_session hub spawn vars user now shell session_env) token now req l = (a, l') \<Longrightarrow>
     fresh_token token l \<Longrightarrow> live_step a l l'"
| Count: "lv_links l = xs @ Entering ln # ys \<Longrightarrow>
     live_step (Some (link_sid ln)) l (l\<lparr>lv_srv := live_count (link_sid ln) (lv_srv l), lv_links := xs @ Counted ln # ys\<rparr>)"
| Clear: "lv_links l = xs @ Counted ln # ys \<Longrightarrow>
     live_step (Some (link_sid ln)) l (l\<lparr>lv_srv := live_clear (link_sid ln) (lv_srv l), lv_links := xs @ ln # ys\<rparr>)"
| Flush: "lv_links l = xs @ Attached tok i st # ys \<Longrightarrow> live_flush fails tok i st (lv_srv l) = (ls, srv) \<Longrightarrow>
     live_step (Some i) l (l\<lparr>lv_srv := srv, lv_links := xs @ ls @ ys\<rparr>)"
| StdinAck: "lv_links l = xs @ Attached tok i st # ys \<Longrightarrow> live_ack fail tok i st (lv_srv l) = (ls, srv) \<Longrightarrow>
     live_step (Some i) l (l\<lparr>lv_srv := srv, lv_links := xs @ ls @ ys\<rparr>)"
| Select: "lv_links l = xs @ Attached tok i st # ys \<Longrightarrow> attach_enabled tr ev st \<Longrightarrow> ev \<noteq> LatestChanged False \<Longrightarrow>
     live_select dec ev tok i st (lv_srv l) = (ls, srv) \<Longrightarrow>
     live_step (Some i) l (l\<lparr>lv_srv := srv, lv_links := xs @ ls @ ys\<rparr>)"
| AgentEnd: "lv_links l = xs @ AgentAttached i # ys \<Longrightarrow> live_step (Some i) l (l\<lparr>lv_links := xs @ Ending i # ys\<rparr>)"
| Uncount: "lv_links l = xs @ Ending i # ys \<Longrightarrow> live_uncount i (lv_srv l) = (ls, srv) \<Longrightarrow>
     live_step (Some i) l (l\<lparr>lv_srv := srv, lv_links := xs @ ls @ ys\<rparr>)"
| Stamp: "lv_links l = xs @ Leaving i # ys \<Longrightarrow>
     live_step (Some i) l (l\<lparr>lv_srv := live_stamp now i (lv_srv l), lv_links := xs @ ys\<rparr>)"
| Task: "srv_tasks (lv_srv l) i = Some st \<Longrightarrow> task_enabled ev st \<Longrightarrow> live_may i ev l \<Longrightarrow> unat (task_seq st) + 2 < 2 ^ 64 \<Longrightarrow>
     live_step (Some i) l (l\<lparr>lv_srv := live_task env ev i st (lv_srv l)\<rparr>)"
| Collect: "live_step None l (l\<lparr>lv_doomed := lv_doomed l @ live_collect now timeout (lv_srv l)\<rparr>)"
| Expire: "lv_doomed l = xs @ (tok, i) # ys \<Longrightarrow>
     live_step (Some i) l (l\<lparr>lv_srv := live_expire (tok, i) (lv_srv l), lv_doomed := xs @ ys\<rparr>)"

inductive_cases live_step_elim: "live_step a l l'"

lemmas live_step_cases = live_step_elim [consumes 1, case_names Accept Count Clear Flush StdinAck Select AgentEnd Uncount Stamp Task
    Collect Expire]

abbreviation live_steps :: "Live \<Rightarrow> Live \<Rightarrow> bool" where
  "live_steps \<equiv> (\<lambda>l l'. \<exists>a. live_step a l l')\<^sup>*\<^sup>*"

text \<open>A daemon starts with the sessions its predecessor left.  Their records hold a consistent log, and every one is
  given a new session.\<close>

definition record_ok :: "SessionRecord \<Rightarrow> bool" where
  "record_ok rec \<longleftrightarrow> (\<exists>H t. log_holds (log_restore (rec_trimmed rec) (rec_buffer rec)) H t)"

definition handed_down :: "sid \<Rightarrow> (string \<times> sid \<times> SessionRecord) list \<Rightarrow> bool" where
  "handed_down n recs \<longleftrightarrow>
     distinct (map (\<lambda>(_, i, _). i) recs) \<and> (\<forall>(_, i, rec) \<in> set recs. i < n \<and> record_ok rec)
     \<and> (\<forall>i < n. i \<in> (\<lambda>(_, i, _). i) ` set recs)"

inductive live_reach :: "Live \<Rightarrow> bool" where
  Start: "restore_loop re fds recs (no_sessions unused) = (Inr (), srv) \<Longrightarrow> handed_down n recs \<Longrightarrow>
     live_reach \<lparr>lv_srv = srv, lv_links = [], lv_next = n, lv_doomed = []\<rparr>"
| Step: "live_reach l \<Longrightarrow> live_step a l l' \<Longrightarrow> live_reach l'"

section \<open>Well-formed states\<close>

text \<open>The guards of a session that are counted.\<close>

fun holds_guard :: "ConnLink \<Rightarrow> bool" where
  "holds_guard (Entering _) = False"
| "holds_guard (Leaving _) = False"
| "holds_guard _ = True"

definition guards :: "sid \<Rightarrow> ConnLink list \<Rightarrow> nat" where
  "guards i ls = length (filter (\<lambda>ln. holds_guard ln \<and> link_sid ln = i) ls)"

text \<open>One session: it has a task exactly while its channel has a receiver, its counter is the number of its guards, when
  that number is zero it has a detach time or is about to get one, and log, task and applied input agree on
  the history.\<close>

definition shared_wf :: "Session \<Rightarrow> TaskState option \<Rightarrow> bool" where
  "shared_wf s task \<longleftrightarrow>
     (\<exists>H t. log_holds (sh_log (ses_shared s)) H t \<and> (case task of Some st \<Rightarrow> task_ok H t st (ses_shared s) | None \<Rightarrow> True))"

definition guard_wf :: "sid \<Rightarrow> Session \<Rightarrow> ConnLink list \<Rightarrow> bool" where
  "guard_wf i s ls \<longleftrightarrow>
     ses_attached s = guards i ls \<and> (guards i ls = 0 \<longrightarrow> ses_detached_at s \<noteq> None \<or> Leaving i \<in> set ls)"

definition session_wf :: "sid \<Rightarrow> Live \<Rightarrow> bool" where
  "session_wf i l \<longleftrightarrow>
     (let s = srv_store (lv_srv l) i; task = srv_tasks (lv_srv l) i
      in (task \<noteq> None \<longleftrightarrow> ses_task_alive s) \<and> guard_wf i s (lv_links l) \<and> shared_wf s task)"

text \<open>A token never comes to name another session.\<close>

definition names :: "Live \<Rightarrow> string \<Rightarrow> sid \<Rightarrow> bool" where
  "names l tok i \<longleftrightarrow> i < lv_next l \<and> (case registry_get tok (srv_registry (lv_srv l)) of Some j \<Rightarrow> j = i | None \<Rightarrow> True)"

fun link_wf :: "Live \<Rightarrow> ConnLink \<Rightarrow> bool" where
  "link_wf l (Attached tok i st) = names l tok i"
| "link_wf l (AgentAttached i) = (i < lv_next l \<and> ses_agent (srv_store (lv_srv l) i))"
| "link_wf l (Ending i) = (i < lv_next l)"
| "link_wf l (Leaving i) = (i < lv_next l)"
| "link_wf l (Entering ln) = ((\<exists>tok i st. ln = Attached tok i st \<or> ln = AgentAttached i) \<and> link_wf l ln)"
| "link_wf l (Counted ln) = ((\<exists>tok i st. ln = Attached tok i st \<or> ln = AgentAttached i) \<and> link_wf l ln)"

definition registry_wf :: "sid \<Rightarrow> SessionRegistry \<Rightarrow> bool" where
  "registry_wf n r \<longleftrightarrow> distinct (map fst r) \<and> distinct (map snd r) \<and> (\<forall>(_, i) \<in> set r. i < n)"

definition live_wf :: "Live \<Rightarrow> bool" where
  "live_wf l \<longleftrightarrow>
     registry_wf (lv_next l) (srv_registry (lv_srv l)) \<and> (\<forall>ln \<in> set (lv_links l). link_wf l ln)
     \<and> (\<forall>(tok, i) \<in> set (lv_doomed l). names l tok i)
     \<and> (\<forall>i. lv_next l \<le> i \<longrightarrow> srv_tasks (lv_srv l) i = None) \<and> (\<forall>i < lv_next l. session_wf i l)"


section \<open>Laws\<close>

lemma registry_wf_remove: "registry_wf n r \<Longrightarrow> registry_wf n (registry_remove tok r)"
proof -
  assume "registry_wf n r"
  moreover have "distinct (map snd (filter P r))" if "distinct (map snd r)" for P
    using that by (rule distinct_map_filter)
  ultimately show ?thesis
    by (auto simp: registry_wf_def registry_remove_def AList.delete_eq distinct_delete distinct_map_filter)
qed

lemma registry_wf_insert:
  assumes "registry_wf n r" "registry_get tok r = None" "n \<le> i"
  shows "registry_wf (Suc i) (registry_insert tok i r)"
proof -
  have "tok \<notin> fst ` set r" using assms(2) by (simp add: registry_get_def map_of_eq_None_iff)
  then have "registry_insert tok i r = r @ [(tok, i)]"
    unfolding registry_insert_def by (induction r) auto
  then show ?thesis using assms \<open>tok \<notin> fst ` set r\<close> by (fastforce simp: registry_wf_def)
qed

lemma registry_remove_get: "registry_get k (registry_remove tok r) = Some j \<Longrightarrow> registry_get k r = Some j"
  by (simp split: if_splits)

lemma guards_simps [simp]:
  "guards i [] = 0" "guards i (ln # ls) = (if holds_guard ln \<and> link_sid ln = i then Suc (guards i ls) else guards i ls)"
  "guards i (xs @ ys) = guards i xs + guards i ys"
  by (simp_all add: guards_def)

lemma link_wf_sid: "link_wf l ln \<Longrightarrow> link_sid ln < lv_next l"
  by (induction ln) (auto simp: names_def)

text \<open>A step for one session: its value, task, connections and registry entry may change, nothing else does.\<close>

lemma names_mono:
  assumes "names l tok i" "lv_next l \<le> lv_next l'"
    and "\<And>j. registry_get tok (srv_registry (lv_srv l')) = Some j \<Longrightarrow> registry_get tok (srv_registry (lv_srv l)) = Some j"
  shows "names l' tok i"
  using assms by (auto simp: names_def split: option.splits)

lemma link_wf_mono:
  assumes "link_wf l ln" "lv_next l \<le> lv_next l'"
    and "\<And>tok j. link_token ln = Some tok \<Longrightarrow> registry_get tok (srv_registry (lv_srv l')) = Some j \<Longrightarrow>
      registry_get tok (srv_registry (lv_srv l)) = Some j"
    and "ses_agent (srv_store (lv_srv l) (link_sid ln)) \<Longrightarrow> ses_agent (srv_store (lv_srv l') (link_sid ln))"
  shows "link_wf l' ln"
  using assms by (induction ln) (auto intro: names_mono)

lemma live_wf_session:
  assumes "live_wf l" "registry_wf (lv_next l) r"
    and "\<And>tok j. registry_get tok r = Some j \<Longrightarrow> registry_get tok (srv_registry (lv_srv l)) = Some j"
    and "\<And>ln. ln \<in> set ls \<Longrightarrow> ln \<in> set (lv_links l) \<or> link_wf l ln"
    and "\<And>j. j \<noteq> i \<Longrightarrow> guards j ls = guards j (lv_links l) \<and> (Leaving j \<in> set (lv_links l) \<longrightarrow> Leaving j \<in> set ls)"
    and "i < lv_next l" "ses_agent s = ses_agent (srv_store (lv_srv l) i)"
    and "(T \<noteq> None) = ses_task_alive s" "guard_wf i s ls" "shared_wf s T"
    and "srv = \<lparr>srv_registry = r, srv_store = (srv_store (lv_srv l))(i := s), srv_tasks = (srv_tasks (lv_srv l))(i := T)\<rparr>"
  shows "live_wf (l\<lparr>lv_srv := srv, lv_links := ls\<rparr>)"
proof -
  let ?l = "l\<lparr>lv_srv := srv, lv_links := ls\<rparr>"
  have "link_wf ?l ln" if "ln \<in> set ls" for ln
  proof (rule link_wf_mono)
    show "link_wf l ln" using assms(1,4) that by (auto simp: live_wf_def)
  qed (use assms(3,7,11) in auto)
  moreover have "names ?l tok j" if "(tok, j) \<in> set (lv_doomed l)" for tok j
    by (rule names_mono [of l]) (use assms(1,3,11) that in \<open>auto simp: live_wf_def\<close>)
  moreover have "session_wf j ?l" if "j < lv_next l" for j
  proof (cases "j = i")
    case True
    with assms(8-11) show ?thesis by (simp add: session_wf_def)
  next
    case False
    moreover have "session_wf j l" using assms(1) that by (simp add: live_wf_def)
    ultimately show ?thesis using assms(5) [OF False] assms(11) by (auto simp: session_wf_def guard_wf_def Let_def)
  qed
  moreover have "srv_tasks srv j = None" if "lv_next l \<le> j" for j
    using assms(1,6,11) that by (simp add: live_wf_def)
  ultimately show ?thesis using assms(2,11) by (auto simp: live_wf_def)
qed

lemma live_wfD:
  assumes "live_wf l" "i < lv_next l"
  shows "(srv_tasks (lv_srv l) i \<noteq> None) = ses_task_alive (srv_store (lv_srv l) i)"
    "guard_wf i (srv_store (lv_srv l) i) (lv_links l)" "shared_wf (srv_store (lv_srv l) i) (srv_tasks (lv_srv l) i)"
    "registry_wf (lv_next l) (srv_registry (lv_srv l))"
  using assms by (simp_all add: live_wf_def session_wf_def Let_def)

lemma live_wf_link: "live_wf l \<Longrightarrow> ln \<in> set (lv_links l) \<Longrightarrow> link_wf l ln"
  by (simp add: live_wf_def)

lemma shared_wf_trim: "shared_wf s T \<Longrightarrow> shared_wf (session_trim a s) T"
proof -
  assume "shared_wf s T"
  then obtain H t where "log_holds (sh_log (ses_shared s)) H t" "case T of Some st \<Rightarrow> task_ok H t st (ses_shared s) | None \<Rightarrow> True"
    by (auto simp: shared_wf_def)
  with log_holds_trim_gen [of "sh_log (ses_shared s)" H t a] show ?thesis
    unfolding shared_wf_def by (intro exI [of _ H] exI [of _ "max t (min (unat a) (length H))"])
      (auto simp: task_ok_def split: option.splits)
qed

lemma shared_wf_frame: "ses_shared s' = ses_shared s \<Longrightarrow> shared_wf s' T = shared_wf s T"
  by (cases T) (simp_all add: shared_wf_def)


text \<open>What an iteration of the attach loop may do to the registry and to its session.\<close>

definition attach_effect :: "string \<Rightarrow> SessionRegistry \<Rightarrow> Session \<Rightarrow> SessionRegistry \<Rightarrow> Session \<Rightarrow> bool" where
  "attach_effect tok r s r' s' \<longleftrightarrow>
     (r' = r \<or> r' = registry_remove tok r) \<and> ses_agent s' = ses_agent s \<and> ses_attached s' = ses_attached s
     \<and> ses_detached_at s' = ses_detached_at s \<and> ses_task_alive s' = ses_task_alive s \<and> ses_resumable s' = ses_resumable s
     \<and> (\<forall>T. shared_wf s T \<longrightarrow> shared_wf s' T)"

lemma attach_effect_refl [simp]: "attach_effect tok r s r s" "attach_effect tok r s (registry_remove tok r) s"
  by (simp_all add: attach_effect_def)

lemma attach_effect_send [simp]:
  "attach_effect tok r s r (inbound_send_ok x s)" "attach_effect tok r s (registry_remove tok r) (inbound_send_ok x s)"
  using shared_wf_frame [of "inbound_send_ok x s" s] by (simp_all add: attach_effect_def)

lemma attach_effect_trim [simp]:
  "attach_effect tok r s r (session_trim a s)" "attach_effect tok r s (registry_remove tok r) (session_trim a s)"
  using shared_wf_trim [of s] by (simp_all add: attach_effect_def) (simp_all add: session_trim_def)

lemma attach_select_effect: "attach_select dec tok ev st r s = (out, r', s') \<Longrightarrow> attach_effect tok r s r' s'"
proof (induction dec tok ev st r s rule: attach_select.induct)
  case (3 dec tok now ev st r s)
  then show ?case
    by (auto simp: Let_def abandon_def attach_message_cases split: Event.splits sum.splits if_splits ChannelMessage.splits)
qed (auto simp: abandon_def split: if_splits option.splits)

text \<open>A connection takes its session through such an effect and goes on as something else.\<close>

lemma link_step_wf:
  assumes "live_wf l" "lv_links l = xs @ ln # ys" "link_sid ln = i"
    and "\<And>ln'. ln' \<in> set ls \<Longrightarrow> link_sid ln' = i \<and> link_wf l ln'"
    and "registry_wf (lv_next l) r" "\<And>tok j. registry_get tok r = Some j \<Longrightarrow> registry_get tok (srv_registry (lv_srv l)) = Some j"
    and "ses_agent s = ses_agent (srv_store (lv_srv l) i)" "ses_task_alive s = ses_task_alive (srv_store (lv_srv l) i)"
    and "shared_wf s (srv_tasks (lv_srv l) i)" "guard_wf i s (xs @ ls @ ys)"
    and "srv = set_session i s ((lv_srv l)\<lparr>srv_registry := r\<rparr>)"
  shows "live_wf (l\<lparr>lv_srv := srv, lv_links := xs @ ls @ ys\<rparr>)"
proof -
  have i: "i < lv_next l" using link_wf_sid [OF live_wf_link [OF assms(1), of ln]] assms(2,3) by simp
  have other: "guards j ls = 0" "Leaving j \<notin> set ls" if "j \<noteq> i" for j
    using that assms(4) assms(4) [of "Leaving j"] by (auto simp: guards_def filter_empty_conv)
  show ?thesis
  proof (rule live_wf_session [OF assms(1,5,6) _ _ i assms(7), where T = "srv_tasks (lv_srv l) i"])
    fix j assume "j \<noteq> i"
    then show "guards j (xs @ ls @ ys) = guards j (lv_links l) \<and> (Leaving j \<in> set (lv_links l) \<longrightarrow> Leaving j \<in> set (xs @ ls @ ys))"
      using other [of j] assms(2,3) by auto
  qed (use assms live_wfD(1) [OF assms(1) i] in \<open>auto simp: set_session_def\<close>)
qed

lemma live_wf_registry: "live_wf l \<Longrightarrow> registry_wf (lv_next l) (srv_registry (lv_srv l))"
  by (simp add: live_wf_def)

lemma link_outcome_wf:
  assumes "live_wf l" "lv_links l = xs @ Attached tok i st # ys"
    and "attach_effect tok (srv_registry (lv_srv l)) (srv_store (lv_srv l) i) r s"
    and "link_outcome tok i (out, r, s) (lv_srv l) = (ls, srv)"
  shows "live_wf (l\<lparr>lv_srv := srv, lv_links := xs @ ls @ ys\<rparr>)"
proof -
  have link: "link_wf l (Attached tok i st)" by (rule live_wf_link [OF assms(1)]) (simp add: assms(2))
  then have i: "i < lv_next l" by (simp add: names_def)
  note wf = live_wfD [OF assms(1) i]
  have r: "registry_wf (lv_next l) r" "registry_get k r = Some j \<Longrightarrow> registry_get k (srv_registry (lv_srv l)) = Some j" for k j
  proof -
    have "r = srv_registry (lv_srv l) \<or> r = registry_remove tok (srv_registry (lv_srv l))"
      using assms(3) by (simp add: attach_effect_def)
    then show "registry_wf (lv_next l) r" "registry_get k r = Some j \<Longrightarrow> registry_get k (srv_registry (lv_srv l)) = Some j"
      using registry_wf_remove [OF wf(4)] wf(4) registry_remove_get by metis+
  qed
  obtain x where x: "ls = [x]" "link_sid x = i" "holds_guard x" "link_wf l x" "srv = set_session i s ((lv_srv l)\<lparr>srv_registry := r\<rparr>)"
    using assms(4) link i by (cases out) auto
  have "guard_wf i s (xs @ [x] @ ys)"
    using assms(2,3) wf(2) x(2,3) by (auto simp: attach_effect_def guard_wf_def)
  then show ?thesis unfolding x(1)
    by (intro link_step_wf [OF assms(1,2), where s = s and r = r])
      (use r x assms(3) wf(3) in \<open>auto simp: attach_effect_def\<close>)
qed

text \<open>The actions of a guard.\<close>

lemma guard_actions_frame [simp]:
  "ses_shared (guard_new_count s) = ses_shared s" "ses_shared (guard_new_clear s) = ses_shared s"
  "ses_shared (guard_drop_stamp now p s) = ses_shared s" "ses_shared (snd (guard_drop_count s)) = ses_shared s"
  "ses_agent (guard_new_count s) = ses_agent s" "ses_agent (guard_new_clear s) = ses_agent s"
  "ses_agent (guard_drop_stamp now p s) = ses_agent s" "ses_agent (snd (guard_drop_count s)) = ses_agent s"
  "ses_task_alive (guard_new_count s) = ses_task_alive s" "ses_task_alive (guard_new_clear s) = ses_task_alive s"
  "ses_task_alive (guard_drop_stamp now p s) = ses_task_alive s" "ses_task_alive (snd (guard_drop_count s)) = ses_task_alive s"
  "ses_resumable (guard_new_count s) = ses_resumable s" "ses_resumable (guard_new_clear s) = ses_resumable s"
  "ses_resumable (guard_drop_stamp now p s) = ses_resumable s" "ses_resumable (snd (guard_drop_count s)) = ses_resumable s"
  by (simp_all add: guard_new_count_def guard_new_clear_def guard_drop_stamp_def guard_drop_count_def)

lemma guard_action_wf:
  assumes "live_wf l" "lv_links l = xs @ ln # ys" "link_sid ln = i"
    and "\<And>ln'. ln' \<in> set ls \<Longrightarrow> link_sid ln' = i \<and> link_wf l ln'"
    and "ses_shared s = ses_shared (srv_store (lv_srv l) i)" "ses_agent s = ses_agent (srv_store (lv_srv l) i)"
    and "ses_task_alive s = ses_task_alive (srv_store (lv_srv l) i)" "guard_wf i s (xs @ ls @ ys)"
    and "srv = set_session i s (lv_srv l)"
  shows "live_wf (l\<lparr>lv_srv := srv, lv_links := xs @ ls @ ys\<rparr>)"
proof (rule link_step_wf [OF assms(1-4) live_wf_registry [OF assms(1)] _ assms(6,7)])
  have "i < lv_next l" using link_wf_sid [OF live_wf_link [OF assms(1), of ln]] assms(2,3) by simp
  then show "shared_wf s (srv_tasks (lv_srv l) i)" using live_wfD(3) [OF assms(1)] shared_wf_frame [OF assms(5)] by simp
qed (use assms(8,9) in \<open>simp_all add: set_session_def\<close>)

lemma count_wf:
  assumes "live_wf l" "lv_links l = xs @ Entering ln # ys" "i = link_sid ln"
  shows "live_wf (l\<lparr>lv_srv := live_count i (lv_srv l), lv_links := xs @ Counted ln # ys\<rparr>)"
proof -
  have w: "link_wf l (Entering ln)" by (rule live_wf_link [OF assms(1)]) (simp add: assms(2))
  then have i: "i < lv_next l" using link_wf_sid [OF w] assms(3) by simp
  have g: "guard_wf i (guard_new_count (srv_store (lv_srv l) i)) (xs @ [Counted ln] @ ys)"
    using live_wfD(2) [OF assms(1) i] assms(2,3) by (simp add: guard_wf_def guard_new_count_def)
  have "live_wf (l\<lparr>lv_srv := live_count i (lv_srv l), lv_links := xs @ [Counted ln] @ ys\<rparr>)"
    by (rule guard_action_wf [OF assms(1,2), where s = "guard_new_count (srv_store (lv_srv l) i)" and i = i])
      (use w g assms(3) in \<open>simp_all add: live_count_def\<close>)
  then show ?thesis by simp
qed

lemma clear_wf:
  assumes "live_wf l" "lv_links l = xs @ Counted ln # ys" "i = link_sid ln"
  shows "live_wf (l\<lparr>lv_srv := live_clear i (lv_srv l), lv_links := xs @ ln # ys\<rparr>)"
proof -
  have w: "link_wf l (Counted ln)" by (rule live_wf_link [OF assms(1)]) (simp add: assms(2))
  then have i: "i < lv_next l" and h: "holds_guard ln" using link_wf_sid [OF w] assms(3) by auto
  have g: "guard_wf i (guard_new_clear (srv_store (lv_srv l) i)) (xs @ [ln] @ ys)"
    using live_wfD(2) [OF assms(1) i] h assms(2,3) by (simp add: guard_wf_def guard_new_clear_def)
  have "live_wf (l\<lparr>lv_srv := live_clear i (lv_srv l), lv_links := xs @ [ln] @ ys\<rparr>)"
    by (rule guard_action_wf [OF assms(1,2), where s = "guard_new_clear (srv_store (lv_srv l) i)" and i = i])
      (use w g assms(3) in \<open>simp_all add: live_clear_def\<close>)
  then show ?thesis by simp
qed

lemma uncount_wf:
  assumes "live_wf l" "lv_links l = xs @ Ending i # ys" "live_uncount i (lv_srv l) = (ls, srv)"
  shows "live_wf (l\<lparr>lv_srv := srv, lv_links := xs @ ls @ ys\<rparr>)"
proof -
  let ?s = "srv_store (lv_srv l) i"
  have w: "link_wf l (Ending i)" by (rule live_wf_link [OF assms(1)]) (simp add: assms(2))
  then have i: "i < lv_next l" by simp
  have n: "ses_attached ?s = Suc (guards i (xs @ ys))" using live_wfD(2) [OF assms(1) i] assms(2) by (simp add: guard_wf_def)
  have srv: "srv = set_session i (snd (guard_drop_count ?s)) (lv_srv l)" "ls = (if ses_attached ?s = 1 then [Leaving i] else [])"
    using assms(3) by (auto simp: live_uncount_def guard_drop_count_def)
  show ?thesis unfolding srv(1)
    by (rule guard_action_wf [OF assms(1,2), where s = "snd (guard_drop_count ?s)"])
      (use n i in \<open>auto simp: srv(2) guard_wf_def guard_drop_count_def\<close>)
qed

lemma stamp_wf:
  assumes "live_wf l" "lv_links l = xs @ Leaving i # ys"
  shows "live_wf (l\<lparr>lv_srv := live_stamp now i (lv_srv l), lv_links := xs @ ys\<rparr>)"
proof -
  have w: "link_wf l (Leaving i)" by (rule live_wf_link [OF assms(1)]) (simp add: assms(2))
  then have i: "i < lv_next l" by simp
  have g: "guard_wf i (guard_drop_stamp now 1 (srv_store (lv_srv l) i)) (xs @ [] @ ys)"
    using live_wfD(2) [OF assms(1) i] assms(2) by (simp add: guard_wf_def guard_drop_stamp_def)
  have "live_wf (l\<lparr>lv_srv := live_stamp now i (lv_srv l), lv_links := xs @ [] @ ys\<rparr>)"
    by (rule guard_action_wf [OF assms(1,2), where s = "guard_drop_stamp now 1 (srv_store (lv_srv l) i)" and i = i])
      (use g in \<open>simp_all add: live_stamp_def\<close>)
  then show ?thesis by simp
qed

lemma agent_end_wf:
  assumes "live_wf l" "lv_links l = xs @ AgentAttached i # ys"
  shows "live_wf (l\<lparr>lv_links := xs @ Ending i # ys\<rparr>)"
proof -
  have w: "link_wf l (AgentAttached i)" by (rule live_wf_link [OF assms(1)]) (simp add: assms(2))
  then have i: "i < lv_next l" by simp
  have "live_wf (l\<lparr>lv_srv := lv_srv l, lv_links := xs @ [Ending i] @ ys\<rparr>)"
    by (rule guard_action_wf [OF assms(1,2), where s = "srv_store (lv_srv l) i"])
      (use live_wfD(2) [OF assms(1) i] i assms(2) in \<open>auto simp: guard_wf_def set_session_def\<close>)
  then show ?thesis by simp
qed

lemma task_step_wf:
  assumes "live_wf l" "srv_tasks (lv_srv l) i = Some st" "task_enabled ev st" "unat (task_seq st) + 2 < 2 ^ 64"
  shows "live_wf (l\<lparr>lv_srv := live_task env ev i st (lv_srv l)\<rparr>)"
proof -
  let ?s = "srv_store (lv_srv l) i"
  have i: "i < lv_next l" using assms(1,2) by (fastforce simp: live_wf_def not_less [symmetric])
  note wf = live_wfD [OF assms(1) i]
  obtain H t where ok: "task_ok H t st (ses_shared ?s)" using wf(3) assms(2) by (auto simp: shared_wf_def)
  then have "length H + 1 < 2 ^ 64" by (auto simp: task_ok_def log_holds_def numbered_def)
  with ok assms(4) have H: "length H + 2 < 2 ^ 64" by (simp add: task_ok_def unat_u64_of_nat)
  obtain out sh' eff where step: "session_task_step env ev st (ses_shared ?s) = (out, sh', eff)" by (metis prod_cases3)
  define T where "T = (case out of TaskRunning st' \<Rightarrow> Some st' | _ \<Rightarrow> None)"
  define s' where "s' = ?s\<lparr>ses_inbound := (case ev of Inbound (Some _) \<Rightarrow> tl (ses_inbound ?s) | _ \<Rightarrow> ses_inbound ?s), ses_shared := sh',
    ses_task_alive := (case out of TaskRunning _ \<Rightarrow> True | _ \<Rightarrow> False)\<rparr>"
  from session_task_step_log [OF ok H assms(3) step] obtain H' where
    "log_holds (sh_log sh') (H @ H') t" "\<And>st'. out = TaskRunning st' \<Longrightarrow> task_ok (H @ H') t st' sh'" by blast
  then have sh: "shared_wf s' T" unfolding shared_wf_def s'_def T_def
    by (intro exI [of _ "H @ H'"] exI [of _ t]) (auto split: TaskOutcome.splits)
  have eq: "live_task env ev i st (lv_srv l) = \<lparr>srv_registry = srv_registry (lv_srv l), srv_store = (srv_store (lv_srv l))(i := s'),
      srv_tasks = (srv_tasks (lv_srv l))(i := T)\<rparr>"
    by (simp add: live_task_def Let_def step set_session_def s'_def T_def)
  have "live_wf (l\<lparr>lv_srv := live_task env ev i st (lv_srv l), lv_links := lv_links l\<rparr>)"
    by (rule live_wf_session [OF assms(1), where i = i and s = s' and T = T])
      (use wf i sh in \<open>auto simp: eq s'_def T_def guard_wf_def split: TaskOutcome.splits\<close>)
  then show ?thesis by simp
qed

text \<open>The sweep collects what the registry holds, and sends \<open>Abort\<close> to a session whose entry it removes.\<close>

lemma registry_get_mem: "distinct (map fst r) \<Longrightarrow> (tok, j) \<in> set r \<longleftrightarrow> registry_get tok r = Some j"
  by (simp add: registry_get_def)

lemma collect_wf:
  assumes "live_wf l"
  shows "live_wf (l\<lparr>lv_doomed := lv_doomed l @ live_collect now timeout (lv_srv l)\<rparr>)"
proof -
  let ?l = "l\<lparr>lv_doomed := lv_doomed l @ live_collect now timeout (lv_srv l)\<rparr>"
  have r: "registry_wf (lv_next l) (srv_registry (lv_srv l))" using assms by (rule live_wf_registry)
  have "names l tok i" if "(tok, i) \<in> set (live_collect now timeout (lv_srv l))" for tok i
    using that r by (auto simp: live_collect_def registry_expired_def names_def registry_wf_def registry_get_mem)
  moreover have "names ?l tok i = names l tok i" for tok i by (simp add: names_def)
  moreover have "link_wf ?l ln = link_wf l ln" for ln by (induction ln) (auto simp: names_def)
  moreover have "session_wf i ?l = session_wf i l" for i by (simp add: session_wf_def)
  ultimately show ?thesis using assms by (auto simp: live_wf_def)
qed

lemma live_expire_eq:
  "live_expire (tok, i) srv = set_session i (inbound_send_ok Abort (srv_store srv i)) (srv\<lparr>srv_registry := registry_remove tok (srv_registry srv)\<rparr>)"
  by (simp add: live_expire_def expire_one_def set_session_def)

lemma live_wf_doomed: "live_wf l \<Longrightarrow> set es \<subseteq> set (lv_doomed l) \<Longrightarrow> live_wf (l\<lparr>lv_doomed := es\<rparr>)"
proof -
  have "names (l\<lparr>lv_doomed := es\<rparr>) tok i = names l tok i" for tok i by (simp add: names_def)
  moreover have "link_wf (l\<lparr>lv_doomed := es\<rparr>) ln = link_wf l ln" for ln by (induction ln) (auto simp: names_def)
  moreover have "session_wf i (l\<lparr>lv_doomed := es\<rparr>) = session_wf i l" for i by (simp add: session_wf_def)
  ultimately show "live_wf l \<Longrightarrow> set es \<subseteq> set (lv_doomed l) \<Longrightarrow> ?thesis" by (fastforce simp: live_wf_def)
qed

lemma expire_wf:
  assumes "live_wf l" "lv_doomed l = xs @ (tok, i) # ys"
  shows "live_wf (l\<lparr>lv_srv := live_expire (tok, i) (lv_srv l), lv_doomed := xs @ ys\<rparr>)"
proof -
  have "names l tok i" using assms by (simp add: live_wf_def)
  then have i: "i < lv_next l" by (simp add: names_def)
  note wf = live_wfD [OF assms(1) i]
  have "live_wf (l\<lparr>lv_srv := live_expire (tok, i) (lv_srv l), lv_links := lv_links l\<rparr>)"
    by (rule live_wf_session [OF assms(1) registry_wf_remove [OF wf(4), of tok], where i = i and T = "srv_tasks (lv_srv l) i"
          and s = "inbound_send_ok Abort (srv_store (lv_srv l) i)"])
      (use wf(1-3) i shared_wf_frame [of "inbound_send_ok Abort (srv_store (lv_srv l) i)" "srv_store (lv_srv l) i"] registry_remove_get
        in \<open>auto simp: live_expire_eq set_session_def guard_wf_def\<close>)
  from live_wf_doomed [OF this, of "xs @ ys"] assms(2) show ?thesis by auto
qed

lemma exec_session_fresh:
  assumes "exec_session hub spawn vars user now shell senv command resumable agent = Inr sp"
  shows "\<exists>a io. sp_session sp = fresh_session now resumable a \<and> sp_task sp = session_task_start io (ses_shared (sp_session sp))"
  using assms by (auto simp: exec_session_def start_session_def Let_def split: if_splits)

lemma shared_wf_fresh: "shared_wf (fresh_session now resumable a) (Some (session_task_start io (ses_shared (fresh_session now resumable a))))"
proof -
  have "log_holds (sh_log (ses_shared (fresh_session now resumable a))) [] 0" by (simp add: fresh_session_def)
  with task_ok_start [OF this, of io] show ?thesis unfolding shared_wf_def by (intro exI [of _ "[]"] exI [of _ 0]) simp
qed

lemma registered_below: "live_wf l \<Longrightarrow> registry_get tok (srv_registry (lv_srv l)) = Some i \<Longrightarrow> i < lv_next l"
  by (auto simp: live_wf_def registry_wf_def registry_get_def dest!: map_of_SomeD)

text \<open>One more connection for a session that is registered.\<close>

lemma join_wf:
  assumes "live_wf l" "link_wf l (Entering ln)"
  shows "live_wf (l\<lparr>lv_links := lv_links l @ [Entering ln]\<rparr>)"
proof -
  let ?i = "link_sid ln"
  have i: "?i < lv_next l" using link_wf_sid [OF assms(2)] by simp
  note wf = live_wfD [OF assms(1) i]
  have "live_wf (l\<lparr>lv_srv := lv_srv l, lv_links := lv_links l @ [Entering ln]\<rparr>)"
    by (rule live_wf_session [OF assms(1) wf(4), where i = ?i and s = "srv_store (lv_srv l) ?i" and T = "srv_tasks (lv_srv l) ?i"])
      (use wf(1-3) i assms(2) in \<open>auto simp: guard_wf_def\<close>)
  then show ?thesis by simp
qed

lemma spawn_wf:
  assumes "live_wf l" "fresh_token token l" "n = lv_next l"
    and "sp_session sp = fresh_session now resumable a" "sp_task sp = session_task_start io (ses_shared (sp_session sp))"
    and "srv = (lv_srv l)\<lparr>srv_registry := registry_insert token n (srv_registry (lv_srv l)),
                srv_store := (srv_store (lv_srv l))(n := sp_session sp), srv_tasks := (srv_tasks (lv_srv l))(n := Some (sp_task sp))\<rparr>"
  shows "live_wf (l\<lparr>lv_srv := srv, lv_links := lv_links l @ [Entering (Attached token n st)], lv_next := Suc n\<rparr>)"
proof -
  let ?l = "l\<lparr>lv_srv := srv, lv_links := lv_links l @ [Entering (Attached token n st)], lv_next := Suc n\<rparr>"
  have reg: "registry_wf (Suc n) (srv_registry srv)"
    using registry_wf_insert [of "lv_next l" "srv_registry (lv_srv l)" token n] assms(1-3,6) by (simp add: live_wf_def fresh_token_def)
  have sid: "link_sid ln < n" if "ln \<in> set (lv_links l)" for ln
    using link_wf_sid [OF live_wf_link [OF assms(1) that]] assms(3) by simp
  have old: "link_wf ?l ln" if "ln \<in> set (lv_links l)" for ln
  proof (rule link_wf_mono [OF live_wf_link [OF assms(1) that]])
    show "ses_agent (srv_store (lv_srv ?l) (link_sid ln))" if "ses_agent (srv_store (lv_srv l) (link_sid ln))"
      using that sid [OF \<open>ln \<in> set (lv_links l)\<close>] assms(6) by simp
    show "registry_get tok (srv_registry (lv_srv l)) = Some j"
      if "link_token ln = Some tok" "registry_get tok (srv_registry (lv_srv ?l)) = Some j" for tok j
      using that \<open>ln \<in> set (lv_links l)\<close> assms(2,6) by (force simp: fresh_token_def split: if_splits)
  qed (use assms(3) in simp)
  have doomed: "names ?l tok i" if "(tok, i) \<in> set (lv_doomed l)" for tok i
  proof (rule names_mono [of l])
    show "names l tok i" using assms(1) that by (auto simp: live_wf_def)
    show "registry_get tok (srv_registry (lv_srv l)) = Some j" if "registry_get tok (srv_registry (lv_srv ?l)) = Some j" for j
      using that \<open>(tok, i) \<in> set (lv_doomed l)\<close> assms(2,6) by (force simp: fresh_token_def split: if_splits)
  qed (use assms(3) in simp)
  have "guards n (lv_links l) = 0" using sid by (auto simp: guards_def filter_empty_conv)
  then have new: "session_wf n ?l"
    using shared_wf_fresh [of now resumable a io] assms(4-6)
    by (simp add: session_wf_def guard_wf_def) (simp add: fresh_session_def)
  have "session_wf i ?l" if "i < n" for i
    using live_wfD [OF assms(1)] that assms(3,6) by (simp add: session_wf_def guard_wf_def Let_def)
  with new have "session_wf i ?l" if "i < Suc n" for i using that by (cases "i = n") simp_all
  moreover have "srv_tasks srv i = None" if "Suc n \<le> i" for i using assms(1,3,6) that by (simp add: live_wf_def)
  moreover have "link_wf ?l (Entering (Attached token n st))" using assms(6) by (auto simp: names_def)
  ultimately show ?thesis using reg old doomed assms(6) unfolding live_wf_def by auto
qed

lemma accept_wf:
  assumes "live_wf l" "fresh_token token l"
    and "live_accept (exec_session hub spawn vars user now shell senv) token now req l = (a, l')"
  shows "live_wf l'"
proof (cases req)
  case (Exec command resumable agent)
  show ?thesis
  proof (cases "exec_session hub spawn vars user now shell senv command resumable agent")
    case (Inr sp)
    obtain b io where sp: "sp_session sp = fresh_session now resumable b" "sp_task sp = session_task_start io (ses_shared (sp_session sp))"
      using exec_session_fresh [OF Inr] by blast
    from spawn_wf [OF assms(1,2) refl sp refl, of "attach_init now 0"] assms(3) Exec Inr show ?thesis
      by (auto simp: live_accept_def handle_request_def)
  qed (use assms(1,3) Exec in \<open>auto simp: live_accept_def handle_request_def\<close>)
next
  case (Resume tok seen)
  show ?thesis
  proof (cases "registry_get tok (srv_registry (lv_srv l))")
    case (Some i)
    note i = registered_below [OF assms(1) Some]
    have "link_wf l (Entering (Attached tok i (attach_init now seen)))" using i Some by (simp add: names_def)
    moreover have "l' = l\<lparr>lv_links := lv_links l @ [Entering (Attached tok i (attach_init now seen))]\<rparr>"
      using assms(3) Resume Some i by (auto simp: live_accept_def handle_request_def max_absorb1 Suc_leI)
    ultimately show ?thesis using join_wf [OF assms(1)] by simp
  qed (use assms(1,3) Resume in \<open>auto simp: live_accept_def handle_request_def\<close>)
next
  case (AgentChannel tok)
  show ?thesis
  proof (cases "registry_get tok (srv_registry (lv_srv l))")
    case (Some i)
    note i = registered_below [OF assms(1) Some]
    from join_wf [OF assms(1), of "AgentAttached i"] assms(1,3) AgentChannel Some i show ?thesis
      by (auto simp: live_accept_def handle_request_def split: if_splits)
  qed (use assms(1,3) AgentChannel in \<open>auto simp: live_accept_def handle_request_def\<close>)
qed

lemma live_step_wf:
  assumes "live_step a l l'" "live_wf l"
  shows "live_wf l'"
  using assms
proof (cases rule: live_step_cases)
  case (Accept hub spawn vars user now shell session_env token req)
  with assms(2) show ?thesis by (blast intro: accept_wf)
next
  case (Flush xs tok i st ys fails ls srv)
  then show ?thesis
    using link_outcome_wf [OF assms(2) Flush(3), of "srv_registry (lv_srv l)" "srv_store (lv_srv l) i"] by (simp add: live_flush_def)
next
  case (StdinAck xs tok i st ys fail ls srv)
  then show ?thesis
    using link_outcome_wf [OF assms(2) StdinAck(3), of "srv_registry (lv_srv l)" "srv_store (lv_srv l) i"] by (simp add: live_ack_def)
next
  case (Select xs tok i st ys tr ev dec ls srv)
  obtain out r s where sel: "attach_select dec tok ev st (srv_registry (lv_srv l)) (srv_store (lv_srv l) i) = (out, r, s)"
    by (metis prod_cases3)
  from link_outcome_wf [OF assms(2) Select(3) attach_select_effect [OF sel]] Select sel show ?thesis by (simp add: live_select_def)
next
  case (Count xs ln ys)
  with count_wf [OF assms(2) _ refl] show ?thesis by simp
next
  case (Clear xs ln ys)
  with clear_wf [OF assms(2) _ refl] show ?thesis by simp
next
  case (AgentEnd xs i ys)
  with agent_end_wf [OF assms(2)] show ?thesis by simp
next
  case (Uncount xs i ys ls srv)
  with uncount_wf [OF assms(2)] show ?thesis by simp
next
  case (Stamp xs i ys now)
  with stamp_wf [OF assms(2)] show ?thesis by simp
next
  case (Task i st ev env)
  with task_step_wf [OF assms(2)] show ?thesis by simp
next
  case (Collect now timeout)
  with collect_wf [OF assms(2)] show ?thesis by simp
next
  case (Expire xs tok i ys)
  with expire_wf [OF assms(2)] show ?thesis by simp
qed


text \<open>A new daemon.\<close>

lemma registry_insert_sids: "snd ` set (registry_insert token i r) \<subseteq> insert i (snd ` set r)"
  unfolding registry_insert_def by (induction r) auto

lemma registry_wf_overwrite:
  assumes "registry_wf n r" "i < n" "i \<notin> snd ` set r"
  shows "registry_wf n (registry_insert token i r)"
proof -
  have "distinct (map snd (registry_insert token i r))"
    using assms(1,3) registry_insert_sids [of token i] by (induction r) (auto simp: registry_wf_def registry_insert_def)
  moreover have "snd ` set r \<subseteq> {..<n}" using assms(1) by (auto simp: registry_wf_def)
  with registry_insert_sids [of token i r] assms(2) have "snd ` set (registry_insert token i r) \<subseteq> {..<n}" by blast
  then have "\<forall>(_, j) \<in> set (registry_insert token i r). j < n" by force
  ultimately show ?thesis using assms(1) by (simp add: registry_wf_def registry_distinct)
qed

lemma restore_loop_wf:
  assumes "restore_loop re fds recs srv = (Inr (), srv')"
    and "distinct (map (\<lambda>(_, i, _). i) recs)" "\<forall>(_, i, rec) \<in> set recs. i < n \<and> record_ok rec"
    and "registry_wf n (srv_registry srv)" "snd ` set (srv_registry srv) \<inter> (\<lambda>(_, i, _). i) ` set recs = {}"
    and "\<forall>i. srv_tasks srv i \<noteq> None \<longrightarrow> i < n \<and> session_wf i \<lparr>lv_srv = srv, lv_links = [], lv_next = n, lv_doomed = []\<rparr>"
  shows "registry_wf n (srv_registry srv')
    \<and> (\<forall>i. srv_tasks srv' i \<noteq> None \<longrightarrow> i < n \<and> session_wf i \<lparr>lv_srv = srv', lv_links = [], lv_next = n, lv_doomed = []\<rparr>)
    \<and> (\<forall>i \<in> (\<lambda>(_, i, _). i) ` set recs. srv_tasks srv' i \<noteq> None) \<and> (\<forall>i. srv_tasks srv i \<noteq> None \<longrightarrow> srv_tasks srv' i \<noteq> None)"
  using assms
proof (induction recs arbitrary: srv)
  case (Cons e recs)
  obtain token i rec where e: "e = (token, i, rec)" by (metis prod_cases3)
  obtain io where one: "restore_one re fds e srv = (Inr (), srv\<lparr>srv_registry := registry_insert token i (srv_registry srv),
      srv_store := (srv_store srv)(i := restore_session (re_now re) rec), srv_tasks := (srv_tasks srv)(i := Some (restore_task io rec))\<rparr>)"
    using Cons.prems(1) by (auto simp: restore_one_def e split: sum.splits option.splits)
  let ?srv = "srv\<lparr>srv_registry := registry_insert token i (srv_registry srv),
      srv_store := (srv_store srv)(i := restore_session (re_now re) rec), srv_tasks := (srv_tasks srv)(i := Some (restore_task io rec))\<rparr>"
  have loop: "restore_loop re fds recs ?srv = (Inr (), srv')" using Cons.prems(1) one by simp
  obtain H t where "log_holds (log_restore (rec_trimmed rec) (rec_buffer rec)) H t"
    using Cons.prems(3) e by (auto simp: record_ok_def)
  then have "log_holds (sh_log (ses_shared (restore_session now rec))) H t" for now by (simp add: restore_session_def)
  from this task_ok_start [OF this, of io] have "shared_wf (restore_session (re_now re) rec) (Some (restore_task io rec))"
    unfolding shared_wf_def restore_task_def by (intro exI [of _ H] exI [of _ t]) (simp add: restore_session_def)
  then have new: "session_wf i \<lparr>lv_srv = ?srv, lv_links = [], lv_next = n, lv_doomed = []\<rparr>"
    by (simp add: session_wf_def) (simp add: restore_session_def guard_wf_def)
  have i: "i < n" "i \<notin> snd ` set (srv_registry srv)" using Cons.prems(3,5) e by auto
  have reg: "registry_wf n (srv_registry ?srv)" using registry_wf_overwrite [OF Cons.prems(4) i] by simp
  have "i \<notin> (\<lambda>(_, i, _). i) ` set recs" using Cons.prems(2) e by auto
  moreover have "snd ` set (srv_registry srv) \<inter> (\<lambda>(_, i, _). i) ` set recs = {}" using Cons.prems(5) by auto
  ultimately have "snd ` set (srv_registry ?srv) \<inter> (\<lambda>(_, i, _). i) ` set recs = {}"
    using registry_insert_sids [of token i "srv_registry srv"] by (simp, blast)
  moreover have "\<forall>j. srv_tasks ?srv j \<noteq> None \<longrightarrow> j < n \<and> session_wf j \<lparr>lv_srv = ?srv, lv_links = [], lv_next = n, lv_doomed = []\<rparr>"
    using Cons.prems(6) new i(1) by (auto simp: session_wf_def Let_def)
  moreover have "distinct (map (\<lambda>(_, i, _). i) recs)" "\<forall>(_, i, rec) \<in> set recs. i < n \<and> record_ok rec" using Cons.prems(2,3) by auto
  ultimately have "registry_wf n (srv_registry srv')"
    "\<forall>i. srv_tasks srv' i \<noteq> None \<longrightarrow> i < n \<and> session_wf i \<lparr>lv_srv = srv', lv_links = [], lv_next = n, lv_doomed = []\<rparr>"
    "\<forall>i \<in> (\<lambda>(_, i, _). i) ` set recs. srv_tasks srv' i \<noteq> None" "\<And>i. srv_tasks ?srv i \<noteq> None \<Longrightarrow> srv_tasks srv' i \<noteq> None"
    using Cons.IH [OF loop _ _ reg] by blast+
  moreover from this(4) [of i] have "srv_tasks srv' i \<noteq> None" by simp
  moreover have "srv_tasks srv' j \<noteq> None" if "srv_tasks srv j \<noteq> None" for j
    using calculation(4) [of j] that by (cases "j = i") simp_all
  ultimately show ?case by (simp add: e)
qed simp

lemma start_wf:
  assumes "restore_loop re fds recs (no_sessions unused) = (Inr (), srv)" "handed_down n recs"
  shows "live_wf \<lparr>lv_srv = srv, lv_links = [], lv_next = n, lv_doomed = []\<rparr>"
proof -
  have "registry_wf n (srv_registry (no_sessions unused))" "snd ` set (srv_registry (no_sessions unused)) = {}"
    "\<And>i. srv_tasks (no_sessions unused) i = None" by (simp_all add: no_sessions_def registry_wf_def)
  with restore_loop_wf [OF assms(1), of n] assms(2) have
    "registry_wf n (srv_registry srv)" "\<forall>i. srv_tasks srv i \<noteq> None \<longrightarrow> i < n \<and> session_wf i \<lparr>lv_srv = srv, lv_links = [], lv_next = n, lv_doomed = []\<rparr>"
    "\<forall>i < n. srv_tasks srv i \<noteq> None" by (auto simp: handed_down_def)
  then show ?thesis unfolding live_wf_def by (auto simp: not_less [symmetric])
qed


lemma live_reach_wf: "live_reach l \<Longrightarrow> live_wf l"
  by (induction rule: live_reach.induct) (auto intro: start_wf live_step_wf)

section \<open>Properties\<close>

text \<open>
  C7: The state of a running daemon is well formed at every moment, whatever clients do and in whatever order
  connections, the two actions of each guard, session tasks and sweeps take their turns: resume tokens
  name distinct sessions, every session has a task exactly while its channel has a receiver, its counter is
  the number of guards that are counted, it has a detach time when that number is zero, unless the last
  guard is just about to set it, its log, its task and the applied input agree on one history, a token held by
  a connection or by the sweep never names another session, and agent channels hang on sessions with agent
  forwarding only.
\<close>
theorem server_state_wellformed:
  assumes "live_reach l"
  shows "live_wf l"
  using assms by (rule live_reach_wf)

definition demo_live :: Live where
  "demo_live = \<lparr>lv_srv = no_sessions (\<lambda>_. fresh_session 0 True False), lv_links = [], lv_next = 0, lv_doomed = []\<rparr>"

definition demo_exec :: "string \<Rightarrow> Live \<Rightarrow> Live" where
  "demo_exec token l =
     snd (live_accept (exec_session (Inr ''s'') (\<lambda>_ _. Inr demo_io) [] None 0 ''/bin/sh'' []) token 0 (Exec ''cat'' True False) l)"

lemma demo_live_reach: "live_reach demo_live"
  unfolding demo_live_def by (rule live_reach.Start [of undefined "[]" "[]"]) (simp_all add: handed_down_def)

lemma demo_exec_step: "fresh_token token l \<Longrightarrow> live_step (Some (lv_next l)) l (demo_exec token l)"
  unfolding demo_exec_def
  by (rule live_step.Accept [where hub = "Inr ''s''" and spawn = "\<lambda>_ _. Inr demo_io" and vars = "[]" and user = None
        and now = 0 and shell = "''/bin/sh''" and session_env = "[]" and token = token and req = "Exec ''cat'' True False"])
    (simp_all add: live_accept_def handle_request_def exec_session_def start_session_def Let_def)

lemma demo_exec_next [simp]: "lv_next (demo_exec token l) = Suc (lv_next l)"
  by (simp add: demo_exec_def live_accept_def handle_request_def exec_session_def start_session_def Let_def)

lemma demo_first_reach: "live_reach (demo_exec ''t'' demo_live)"
  by (rule live_reach.Step [OF demo_live_reach demo_exec_step])
    (simp add: fresh_token_def demo_live_def no_sessions_def registry_get_def)

lemmas demo_live_eval = demo_live_def demo_exec_def no_sessions_def registry_get_def registry_insert_def live_accept_def handle_request_def
  exec_session_def start_session_def set_session_def fresh_session_def Let_def

lemma demo_second_fresh: "fresh_token ''u'' (demo_exec ''t'' demo_live)"
  by (simp add: fresh_token_def demo_live_eval)

theorem server_state_wellformed_witness:
  "live_wf (demo_exec ''t'' demo_live) \<and> lv_next (demo_exec ''t'' demo_live) = 1"
  using server_state_wellformed [OF demo_first_reach] by (simp add: demo_live_def)

section \<open>The life of a registration\<close>

text \<open>The two ways in which the token of a resumable session comes to be given up: a client acknowledges the \<open>Exit\<close>
  that its connection has sent, or the sweep collects the session because of its detach time.\<close>

definition completed :: "string \<Rightarrow> sid \<Rightarrow> Live \<Rightarrow> Live \<Rightarrow> bool" where
  "completed tok i l l' \<longleftrightarrow>
     (\<exists>st e a. Attached tok i st \<in> set (lv_links l) \<and> exit_seq st = Some e \<and> e \<le> a
        \<and> sh_log (ses_shared (srv_store (lv_srv l') i)) = log_trim (sh_log (ses_shared (srv_store (lv_srv l) i))) a)"

definition found_expired :: "string \<Rightarrow> sid \<Rightarrow> Live \<Rightarrow> Live \<Rightarrow> bool" where
  "found_expired tok i l l' \<longleftrightarrow>
     (\<exists>now timeout. l' = l\<lparr>lv_doomed := lv_doomed l @ live_collect now timeout (lv_srv l)\<rparr>
        \<and> (tok, i) \<in> set (live_collect now timeout (lv_srv l)) \<and> is_expired now timeout (srv_store (lv_srv l) i))"

lemma select_registration:
  assumes "live_wf l" "lv_links l = xs @ Attached k j st # ys" "ev \<noteq> LatestChanged False"
    and "live_select dec ev k j st (lv_srv l) = (ls, srv)"
    and "registry_get tok (srv_registry (lv_srv l)) = Some i" "ses_resumable (srv_store (lv_srv l) i)"
  shows "registry_get tok (srv_registry srv) = Some i \<or> completed tok i l (l\<lparr>lv_srv := srv, lv_links := xs @ ls @ ys\<rparr>)"
proof -
  obtain out r s where sel: "attach_select dec k ev st (srv_registry (lv_srv l)) (srv_store (lv_srv l) j) = (out, r, s)"
    by (metis prod_cases3)
  have srv: "srv_registry srv = r" "ses_shared (srv_store srv j) = ses_shared s"
    using assms(4) sel by (cases out; auto simp: live_select_def set_session_def)+
  show ?thesis
  proof (cases "k = tok")
    case True
    have "link_wf l (Attached k j st)" by (rule live_wf_link [OF assms(1)]) (simp add: assms(2))
    then have j: "j = i" using assms(5) True by (simp add: names_def)
    from resumable_session_survives [OF assms(6) sel [unfolded j]] assms(3) True
    have "r = srv_registry (lv_srv l) \<or>
      (\<exists>now bs a e. ev = ChannelEvent now (Frame bs) \<and> dec bs = Inr (Ack a) \<and> exit_seq st = Some e \<and> e \<le> a)" by auto
    then show ?thesis
    proof
      assume "\<exists>now bs a e. ev = ChannelEvent now (Frame bs) \<and> dec bs = Inr (Ack a) \<and> exit_seq st = Some e \<and> e \<le> a"
      then obtain a e where a: "exit_seq st = Some e" "e \<le> a" "s = session_trim a (srv_store (lv_srv l) j)"
        using sel by auto
      have "Attached tok i st \<in> set (lv_links l)" using assms(2) j True by simp
      with a j srv(2) show ?thesis by (auto simp: completed_def)
    qed (use assms(5) srv(1) in simp)
  next
    case False
    have "r = srv_registry (lv_srv l) \<or> r = registry_remove k (srv_registry (lv_srv l))"
      using attach_select_effect [OF sel] by (simp add: attach_effect_def)
    with False assms(5) srv(1) show ?thesis by auto
  qed
qed

text \<open>One step: the registration is kept, or one of the two.\<close>

lemma registration_step:
  assumes "live_wf l" "live_step a l l'" "registry_get tok (srv_registry (lv_srv l)) = Some i"
    and "ses_resumable (srv_store (lv_srv l) i)" "(tok, i) \<notin> set (lv_doomed l)"
  shows "registry_get tok (srv_registry (lv_srv l')) = Some i \<and> (tok, i) \<notin> set (lv_doomed l')
    \<or> completed tok i l l' \<or> found_expired tok i l l'"
  using assms(2)
proof (cases rule: live_step_cases)
  case (Accept hub spawn vars user now shell session_env token req)
  then have "tok \<noteq> token" using assms(3) by (auto simp: fresh_token_def)
  with Accept assms(3,5) show ?thesis
    by (auto simp: live_accept_def handle_request_def split: ExecRequest.splits sum.splits option.splits if_splits)
next
  case (Flush xs tok' j st ys fails ls srv)
  then show ?thesis using assms(3,5) by (cases "snd (attach_flush fails st (srv_store (lv_srv l) j))")
      (auto simp: live_flush_def set_session_def)
next
  case (StdinAck xs tok' j st ys fail ls srv)
  then show ?thesis using assms(3,5) by (cases "snd (attach_ack fail st (srv_store (lv_srv l) j))")
      (auto simp: live_ack_def set_session_def)
next
  case (Select xs k j st ys tr ev dec ls srv)
  with select_registration [OF assms(1) Select(3,5,6) assms(3,4)] assms(5) show ?thesis by auto
next
  case (Task j st ev env)
  with assms(3,5) show ?thesis by (simp add: live_task_def set_session_def Let_def split_beta)
next
  case (Collect now timeout)
  have "distinct (map fst (srv_registry (lv_srv l)))" using live_wf_registry [OF assms(1)] by (simp add: registry_wf_def)
  with Collect assms(3,5) show ?thesis
    by (cases "is_expired now timeout (srv_store (lv_srv l) i)")
      (auto simp: found_expired_def live_collect_def registry_expired_def registry_get_mem)
next
  case (Expire xs tok' j ys)
  have n: "names l tok' j" using assms(1) Expire(3) by (simp add: live_wf_def)
  have "tok' \<noteq> tok"
  proof
    assume "tok' = tok"
    with n assms(3) have "j = i" by (simp add: names_def)
    with Expire(3) assms(5) \<open>tok' = tok\<close> show False by simp
  qed
  with Expire assms(3,5) show ?thesis by (auto simp: live_expire_eq set_session_def)
qed (use assms(3,5) in \<open>auto simp: live_count_def live_clear_def live_uncount_def live_stamp_def guard_drop_count_def set_session_def\<close>)

lemma resumable_step:
  assumes "live_step a l l'" "live_wf l" "i < lv_next l"
  shows "ses_resumable (srv_store (lv_srv l') i) = ses_resumable (srv_store (lv_srv l) i)"
  using assms(1)
proof (cases rule: live_step_cases)
  case (Accept hub spawn vars user now shell session_env token req)
  with assms(3) show ?thesis
    by (auto simp: live_accept_def handle_request_def split: ExecRequest.splits sum.splits option.splits if_splits)
next
  case (Flush xs tok' j st ys fails ls srv)
  then show ?thesis by (cases "snd (attach_flush fails st (srv_store (lv_srv l) j))") (auto simp: live_flush_def set_session_def)
next
  case (StdinAck xs tok' j st ys fail ls srv)
  then show ?thesis by (cases "snd (attach_ack fail st (srv_store (lv_srv l) j))") (auto simp: live_ack_def set_session_def)
next
  case (Select xs k j st ys tr ev dec ls srv)
  obtain out r s where sel: "attach_select dec k ev st (srv_registry (lv_srv l)) (srv_store (lv_srv l) j) = (out, r, s)"
    by (metis prod_cases3)
  have "srv_store srv = (srv_store (lv_srv l))(j := s)" "ses_resumable s = ses_resumable (srv_store (lv_srv l) j)"
    using Select(6) sel attach_select_effect [OF sel] by (cases out; simp add: live_select_def set_session_def attach_effect_def; auto)+
  with Select(2) show ?thesis by simp
next
  case (Task j st ev env)
  then show ?thesis by (simp add: live_task_def set_session_def Let_def split_beta)
next
  case (Uncount xs j ys ls srv)
  then show ?thesis by (auto simp: live_uncount_def guard_drop_count_def set_session_def split: if_splits)
next
  case (Expire xs tok' j ys)
  then show ?thesis by (simp add: live_expire_eq set_session_def)
qed (simp_all add: live_count_def live_clear_def live_stamp_def set_session_def)



end
