(* ===== verification/Isolation.thy ===== *)
theory Isolation
  imports ServerLive
begin

text \<open>
  Sessions of one daemon do not influence each other.  The argument is the classical one by unwinding, stated
  once as the locale \<open>unwinding\<close> for any step relation and interpreted on the running daemon of
  ServerLive: steps for other sessions leave what belongs to a session unchanged, and what its own steps
  and the sweep do to it depends on nothing else.
\<close>

section \<open>Runs and what a session sees of them\<close>

text \<open>A run is the list of its steps with the states they lead to.\<close>

inductive run :: "('a \<Rightarrow> 's \<Rightarrow> 's \<Rightarrow> bool) \<Rightarrow> 's \<Rightarrow> ('a \<times> 's) list \<Rightarrow> bool" for step where
  Nil: "run step s []"
| Cons: "step a s s' \<Longrightarrow> run step s' tr \<Longrightarrow> run step s ((a, s') # tr)"

text \<open>All that belongs to one session: its value, its task, its registry entries, its connections, and whether the sweep
  has collected it.\<close>

definition session_view ::
  "sid \<Rightarrow> Live \<Rightarrow> Session \<times> TaskState option \<times> (string \<times> sid) list \<times> ConnLink list \<times> (string \<times> sid) list" where
  "session_view i l =
     (srv_store (lv_srv l) i, srv_tasks (lv_srv l) i, filter (\<lambda>(_, j). j = i) (srv_registry (lv_srv l)),
      filter (\<lambda>ln. link_sid ln = i) (lv_links l), filter (\<lambda>(_, j). j = i) (lv_doomed l))"

text \<open>The steps that may concern a session, its own and those of the daemon, and its history in a run: these steps
  with all that belongs to the session after each.\<close>

definition concerns :: "sid \<Rightarrow> sid option \<Rightarrow> bool" where
  "concerns i a \<longleftrightarrow> a = None \<or> a = Some i"

definition history :: "('a \<Rightarrow> bool) \<Rightarrow> ('s \<Rightarrow> 'v) \<Rightarrow> ('a \<times> 's) list \<Rightarrow> ('a \<times> 'v) list" where
  "history own view tr = map (\<lambda>(a, s). (a, view s)) (filter (\<lambda>(a, _). own a) tr)"

definition final :: "'s \<Rightarrow> ('a \<times> 's) list \<Rightarrow> 's" where
  "final s tr = last (s # map snd tr)"

lemma final_simps [simp]: "final s [] = s" "final s ((a, s') # tr) = final s' tr"
  by (simp_all add: final_def)

section \<open>Unwinding\<close>

locale unwinding =
  fixes step :: "'a \<Rightarrow> 's \<Rightarrow> 's \<Rightarrow> bool" and inv :: "'s \<Rightarrow> bool" and own :: "'a \<Rightarrow> bool" and view :: "'s \<Rightarrow> 'v"
  assumes inv_step: "inv s \<Longrightarrow> step a s s' \<Longrightarrow> inv s'"
    and respect: "inv s \<Longrightarrow> step a s s' \<Longrightarrow> \<not> own a \<Longrightarrow> view s' = view s"
    and consistent: "inv s \<Longrightarrow> inv t \<Longrightarrow> view t = view s \<Longrightarrow> step a s s' \<Longrightarrow> own a \<Longrightarrow> \<exists>t'. step a t t' \<and> view t' = view s'"
begin

text \<open>A run can be replayed without the steps of the others, from any state that looks the same.\<close>

lemma purge:
  "run step s tr \<Longrightarrow> inv s \<Longrightarrow> inv t \<Longrightarrow> view t = view s \<Longrightarrow>
   \<exists>tr'. run step t tr' \<and> (\<forall>(a, _) \<in> set tr'. own a) \<and> history own view tr' = history own view tr
     \<and> view (final t tr') = view (final s tr)"
proof (induction arbitrary: t rule: run.induct)
  case (Nil s)
  then show ?case by (intro exI [of _ "[]"]) (simp add: run.Nil)
next
  case (Cons a s s1 tr)
  have i: "inv s1" using Cons.prems(1) Cons.hyps(1) by (rule inv_step)
  show ?case
  proof (cases "own a")
    case True
    obtain t1 where t1: "step a t t1" "view t1 = view s1" using consistent [OF Cons.prems(1-3) Cons.hyps(1) True] by blast
    from Cons.IH [OF i inv_step [OF Cons.prems(2) t1(1)] t1(2)] obtain tr' where
      tr': "run step t1 tr'" "\<forall>(a, _) \<in> set tr'. own a" "history own view tr' = history own view tr"
      "view (final t1 tr') = view (final s1 tr)" by blast
    with run.Cons [of step, OF t1(1) tr'(1)] t1(2) True show ?thesis
      by (intro exI [of _ "(a, t1) # tr'"]) (simp add: history_def)
  next
    case False
    from respect [OF Cons.prems(1) Cons.hyps(1) this] Cons.IH [OF i Cons.prems(2)] Cons.prems(3) False show ?thesis
      by (simp add: history_def)
  qed
qed

end

section \<open>Steps for other sessions\<close>

lemma filter_remove_other:
  assumes "\<forall>j. (tok, j) \<in> set r \<longrightarrow> j \<noteq> i"
  shows "filter (\<lambda>(_, j). j = i) (registry_remove tok r) = filter (\<lambda>(_, j). j = i) r"
  using assms unfolding registry_remove_def by (induction r) auto

lemma link_outcome_view:
  assumes "live_wf l" "lv_links l = xs @ Attached tok j st # ys" "i \<noteq> j"
    and "attach_effect tok (srv_registry (lv_srv l)) (srv_store (lv_srv l) j) r s"
    and "link_outcome tok j (out, r, s) (lv_srv l) = (ls, srv)"
  shows "session_view i (l\<lparr>lv_srv := srv, lv_links := xs @ ls @ ys\<rparr>) = session_view i l"
proof -
  have "link_wf l (Attached tok j st)" by (rule live_wf_link [OF assms(1)]) (simp add: assms(2))
  moreover have "distinct (map fst (srv_registry (lv_srv l)))" using assms(1) by (simp add: live_wf_def registry_wf_def)
  ultimately have "\<forall>k. (tok, k) \<in> set (srv_registry (lv_srv l)) \<longrightarrow> k \<noteq> i"
    using assms(3) by (auto simp: registry_get_mem names_def split: option.splits)
  from filter_remove_other [OF this] assms(4)
  have reg: "filter (\<lambda>(_, j). j = i) r = filter (\<lambda>(_, j). j = i) (srv_registry (lv_srv l))" by (auto simp: attach_effect_def)
  show ?thesis using assms(2,3,5) reg by (cases out) (auto simp: session_view_def set_session_def)
qed

lemma accept_view:
  assumes "live_wf l" "fresh_token token l" "live_accept start token now req l = (a, l')" "i < lv_next l" "a \<noteq> Some i"
  shows "session_view i l' = session_view i l"
proof -
  have ins: "filter (\<lambda>(_, j). j = i) (registry_insert token (lv_next l) r) = filter (\<lambda>(_, j). j = i) r"
    if "registry_get token r = None" for r
    using that assms(4) unfolding registry_get_def registry_insert_def by (induction r) (auto split: if_splits)
  show ?thesis using assms(2-5) ins
    by (auto simp: live_accept_def handle_request_def session_view_def set_session_def fresh_token_def
        split: ExecRequest.splits sum.splits option.splits if_splits)
qed

lemma expire_view:
  assumes "live_wf l" "lv_doomed l = xs @ (tok, j) # ys" "j \<noteq> i"
  shows "session_view i (l\<lparr>lv_srv := live_expire (tok, j) (lv_srv l), lv_doomed := xs @ ys\<rparr>) = session_view i l"
proof -
  have "names l tok j" using assms(1,2) by (simp add: live_wf_def)
  moreover have "distinct (map fst (srv_registry (lv_srv l)))" using assms(1) by (simp add: live_wf_def registry_wf_def)
  ultimately have "\<forall>k. (tok, k) \<in> set (srv_registry (lv_srv l)) \<longrightarrow> k \<noteq> i"
    using assms(3) by (auto simp: registry_get_mem names_def split: option.splits)
  from filter_remove_other [OF this] assms(2,3) show ?thesis by (simp add: session_view_def live_expire_eq set_session_def)
qed

lemma live_respect:
  assumes "live_wf l" "live_step a l l'" "i < lv_next l" "a = Some j" "j \<noteq> i"
  shows "session_view i l' = session_view i l"
  using assms(2)
proof (cases rule: live_step_cases)
  case (Accept hub spawn vars user now shell session_env token req)
  with assms show ?thesis by (auto intro: accept_view)
next
  case (Flush xs tok k st ys fails ls srv)
  then show ?thesis using assms link_outcome_view [OF assms(1) Flush(3), of i "srv_registry (lv_srv l)" "srv_store (lv_srv l) k"]
    by (simp add: live_flush_def)
next
  case (StdinAck xs tok k st ys fail ls srv)
  then show ?thesis using assms link_outcome_view [OF assms(1) StdinAck(3), of i "srv_registry (lv_srv l)" "srv_store (lv_srv l) k"]
    by (simp add: live_ack_def)
next
  case (Select xs tok k st ys tr ev dec ls srv)
  obtain out r s where sel: "attach_select dec tok ev st (srv_registry (lv_srv l)) (srv_store (lv_srv l) k) = (out, r, s)"
    by (metis prod_cases3)
  from link_outcome_view [OF assms(1) Select(3) _ attach_select_effect [OF sel]] Select sel assms(4,5) show ?thesis
    by (simp add: live_select_def)
next
  case (Uncount xs k ys ls srv)
  with assms(4,5) show ?thesis by (auto simp: session_view_def live_uncount_def guard_drop_count_def set_session_def)
next
  case (Task k st ev env)
  with assms(4,5) show ?thesis by (simp add: session_view_def live_task_def set_session_def Let_def split_beta)
next
  case (Expire xs tok k ys)
  with expire_view [OF assms(1) Expire(3)] assms(4,5) show ?thesis by simp
qed (use assms(4,5) in \<open>auto simp: session_view_def live_count_def live_clear_def live_stamp_def set_session_def\<close>)

section \<open>Steps for the session\<close>

lemma session_viewD:
  assumes "session_view i t = session_view i l"
  shows "srv_store (lv_srv t) i = srv_store (lv_srv l) i" "srv_tasks (lv_srv t) i = srv_tasks (lv_srv l) i"
    "filter (\<lambda>(_, j). j = i) (srv_registry (lv_srv t)) = filter (\<lambda>(_, j). j = i) (srv_registry (lv_srv l))"
    "filter (\<lambda>ln. link_sid ln = i) (lv_links t) = filter (\<lambda>ln. link_sid ln = i) (lv_links l)"
    "filter (\<lambda>(_, j). j = i) (lv_doomed t) = filter (\<lambda>(_, j). j = i) (lv_doomed l)"
  using assms by (simp_all add: session_view_def)

lemma filter_same_mem: "filter P xs = filter P ys \<Longrightarrow> P x \<Longrightarrow> x \<in> set xs \<longleftrightarrow> x \<in> set ys"
proof -
  assume "filter P xs = filter P ys" "P x"
  then have "x \<in> set (filter P xs) \<longleftrightarrow> x \<in> set (filter P ys)" by simp
  with \<open>P x\<close> show ?thesis by simp
qed

lemma filter_append_split: "filter P l = us @ vs \<Longrightarrow> \<exists>a b. l = a @ b \<and> filter P a = us \<and> filter P b = vs"
proof (induction l arbitrary: us)
  case (Cons x l)
  show ?case
  proof (cases "P x \<and> us \<noteq> []")
    case True
    with Cons.prems obtain us' where us: "us = x # us'" "filter P l = us' @ vs" by (cases us) auto
    obtain a b where "l = a @ b" "filter P a = us'" "filter P b = vs" using Cons.IH [OF us(2)] by blast
    with us True show ?thesis by (intro exI [of _ "x # a"] exI [of _ b]) simp
  next
    case False
    show ?thesis
    proof (cases "us = []")
      case True
      with Cons.prems show ?thesis by (intro exI [of _ "[]"] exI [of _ "x # l"]) simp
    next
      case nonempty: False
      with False Cons.prems have "filter P l = us @ vs" "\<not> P x" by simp_all
      with Cons.IH obtain a b where "l = a @ b" "filter P a = us" "filter P b = vs" by blast
      with \<open>\<not> P x\<close> show ?thesis by (intro exI [of _ "x # a"] exI [of _ b]) simp
    qed
  qed
qed simp

text \<open>The same connection, found at its place in the other state.\<close>

lemma filter_split:
  assumes "filter P l2 = filter P (xs @ x # ys)" "P x"
  shows "\<exists>xs2 ys2. l2 = xs2 @ x # ys2 \<and> filter P xs2 = filter P xs \<and> filter P ys2 = filter P ys"
proof -
  from assms have "filter P l2 = filter P xs @ (x # filter P ys)" by simp
  from filter_append_split [OF this] obtain us vs where uv: "l2 = us @ vs" "filter P us = filter P xs" "filter P vs = x # filter P ys"
    by blast
  from uv(3) obtain as bs where ab: "vs = as @ x # bs" "\<forall>a\<in>set as. \<not> P a" "filter P bs = filter P ys"
    by (auto simp: filter_eq_Cons_iff)
  with uv show ?thesis by (intro exI [of _ "us @ as"] exI [of _ bs]) (simp add: filter_empty_conv)
qed

lemma session_registry_get:
  assumes "live_wf l" "live_wf t" "session_view i t = session_view i l" "registry_get tok (srv_registry (lv_srv l)) = Some i"
  shows "registry_get tok (srv_registry (lv_srv t)) = Some i"
proof -
  have d: "distinct (map fst (srv_registry (lv_srv l)))" "distinct (map fst (srv_registry (lv_srv t)))"
    using assms(1,2) by (simp_all add: live_wf_def registry_wf_def)
  have "(tok, i) \<in> set (srv_registry (lv_srv l))" using assms(4) d(1) by (simp add: registry_get_mem)
  then have "(tok, i) \<in> set (srv_registry (lv_srv t))"
    using filter_same_mem [OF session_viewD(3) [OF assms(3)], of "(tok, i)"] by simp
  with d(2) show ?thesis by (simp add: registry_get_mem)
qed

text \<open>A registry always has room for another token.\<close>

lemma fresh_token_exists: "\<exists>token. fresh_token token l"
proof -
  let ?used = "fst ` set (srv_registry (lv_srv l)) \<union> {tok. Some tok \<in> link_token ` set (lv_links l)} \<union> fst ` set (lv_doomed l)"
  have "{tok. Some tok \<in> link_token ` set (lv_links l)} \<subseteq> the ` link_token ` set (lv_links l)"
    by (rule subsetI, rule image_eqI [of _ the "Some _"]) simp_all
  then have "finite ?used" by (simp add: finite_subset)
  moreover have "infinite (UNIV :: string set)" by (rule infinite_UNIV_listI)
  ultimately obtain token where "token \<notin> ?used" by (meson ex_new_if_finite)
  then show ?thesis by (auto simp: fresh_token_def registry_get_def map_of_eq_None_iff intro!: exI [of _ token])
qed


text \<open>What an iteration of the attach loop does to the own part of the state.\<close>

lemma filter_remove_own:
  "filter (\<lambda>(_, j). j = i) (registry_remove tok r) = registry_remove tok (filter (\<lambda>(_, j). j = i) r)"
  unfolding registry_remove_def by (induction r) auto

lemma attach_message_registry:
  "attach_message tok m st r s = (out, r', s') \<Longrightarrow>
   \<exists>q'. attach_message tok m st q s = (out, q', s') \<and> (r' = r \<and> q' = q \<or> r' = registry_remove tok r \<and> q' = registry_remove tok q)"
  by (auto simp: attach_message_cases split: ChannelMessage.splits if_splits)

lemma attach_select_registry:
  "attach_select dec tok ev st r s = (out, r', s') \<Longrightarrow>
   \<exists>q'. attach_select dec tok ev st q s = (out, q', s') \<and> (r' = r \<and> q' = q \<or> r' = registry_remove tok r \<and> q' = registry_remove tok q)"
proof (induction dec tok ev st r s rule: attach_select.induct)
  case (3 dec tok now ev st r s)
  show ?case
  proof (cases "\<exists>bs m. ev = Frame bs \<and> dec bs = Inr m")
    case True
    then obtain bs m where "ev = Frame bs" "dec bs = Inr m" by blast
    with 3 attach_message_registry [of tok m "st\<lparr>last_activity := now\<rparr>" r s out r' s' q] show ?thesis by (simp add: Let_def)
  next
    case False
    with 3 show ?thesis by (auto simp: Let_def abandon_def split: Event.splits sum.splits if_splits)
  qed
qed (auto simp: abandon_def split: if_splits option.splits)

lemma link_outcome_local:
  assumes "session_view i t = session_view i l" "lv_links l = xs @ Attached tok i st # ys"
    and "link_outcome tok i (out, r, s) (lv_srv l) = (ls, srv)"
    and "r = srv_registry (lv_srv l) \<and> q = srv_registry (lv_srv t) \<or>
         r = registry_remove tok (srv_registry (lv_srv l)) \<and> q = registry_remove tok (srv_registry (lv_srv t))"
  shows "\<exists>xs2 ys2 srv2. lv_links t = xs2 @ Attached tok i st # ys2 \<and> link_outcome tok i (out, q, s) (lv_srv t) = (ls, srv2)
    \<and> session_view i (t\<lparr>lv_srv := srv2, lv_links := xs2 @ ls @ ys2\<rparr>) = session_view i (l\<lparr>lv_srv := srv, lv_links := xs @ ls @ ys\<rparr>)"
proof -
  note v = session_viewD [OF assms(1)]
  obtain xs2 ys2 where links: "lv_links t = xs2 @ Attached tok i st # ys2"
    "filter (\<lambda>ln. link_sid ln = i) xs2 = filter (\<lambda>ln. link_sid ln = i) xs"
    "filter (\<lambda>ln. link_sid ln = i) ys2 = filter (\<lambda>ln. link_sid ln = i) ys"
    using filter_split [OF v(4) [unfolded assms(2)]] by auto
  have q: "filter (\<lambda>(_, j). j = i) q = filter (\<lambda>(_, j). j = i) r"
    using assms(4) v(3) by (auto simp: filter_remove_own)
  have "\<exists>srv2. link_outcome tok i (out, q, s) (lv_srv t) = (ls, srv2) \<and> srv_store srv2 i = srv_store srv i
      \<and> srv_tasks srv2 i = srv_tasks srv i \<and> filter (\<lambda>(_, j). j = i) (srv_registry srv2) = filter (\<lambda>(_, j). j = i) (srv_registry srv)"
    using assms(3) q v(2) by (cases out) (auto simp: set_session_def)
  then obtain srv2 where "link_outcome tok i (out, q, s) (lv_srv t) = (ls, srv2)" "srv_store srv2 i = srv_store srv i"
    "srv_tasks srv2 i = srv_tasks srv i" "filter (\<lambda>(_, j). j = i) (srv_registry srv2) = filter (\<lambda>(_, j). j = i) (srv_registry srv)"
    by blast
  with links v(5) show ?thesis by (intro exI [of _ xs2] exI [of _ ys2] exI [of _ srv2]) (simp add: session_view_def)
qed


lemma accept_local:
  assumes "live_wf l" "live_wf t" "session_view i t = session_view i l" "i < lv_next l" "i < lv_next t"
    and "live_accept start token now req l = (Some i, l')"
  shows "\<exists>t'. live_accept start token' now req t = (Some i, t') \<and> session_view i t' = session_view i l'"
proof -
  note v = session_viewD [OF assms(3)]
  have "\<exists>tok. (\<exists>seen. req = Resume tok seen) \<and> registry_get tok (srv_registry (lv_srv l)) = Some i
     \<or> req = AgentChannel tok \<and> registry_get tok (srv_registry (lv_srv l)) = Some i \<and> ses_agent (srv_store (lv_srv l) i)"
    using assms(4,6) by (auto simp: live_accept_def handle_request_def split: ExecRequest.splits sum.splits option.splits if_splits)
  then obtain tok where tok: "(\<exists>seen. req = Resume tok seen) \<or> req = AgentChannel tok \<and> ses_agent (srv_store (lv_srv l) i)"
    and get: "registry_get tok (srv_registry (lv_srv l)) = Some i" by blast
  from session_registry_get [OF assms(1-3) get] tok get assms(6) v show ?thesis
    by (auto simp: live_accept_def handle_request_def session_view_def set_session_def)
qed

lemma task_local:
  assumes "session_view i t = session_view i l" "srv_tasks (lv_srv l) i = Some st" "live_may i ev l"
  shows "srv_tasks (lv_srv t) i = Some st \<and> live_may i ev t
    \<and> session_view i (t\<lparr>lv_srv := live_task env ev i st (lv_srv t)\<rparr>) = session_view i (l\<lparr>lv_srv := live_task env ev i st (lv_srv l)\<rparr>)"
proof -
  note v = session_viewD [OF assms(1)]
  have "i \<in> snd ` set r \<longleftrightarrow> filter (\<lambda>(_, j). j = i) r \<noteq> []" for r :: "(string \<times> sid) list" by (force simp: filter_empty_conv)
  moreover have "i \<in> link_sid ` set ls \<longleftrightarrow> filter (\<lambda>ln. link_sid ln = i) ls \<noteq> []" for ls by (force simp: filter_empty_conv)
  ultimately have "live_may i ev t = live_may i ev l" using v by (induction i ev l rule: live_may.induct) simp_all
  then show ?thesis using assms(2,3) v by (simp add: session_view_def live_task_def Let_def set_session_def split_beta)
qed

text \<open>The sweep on one session.\<close>

lemma collect_local:
  assumes "session_view i t = session_view i l"
  shows "session_view i (t\<lparr>lv_doomed := lv_doomed t @ live_collect now timeout (lv_srv t)\<rparr>)
    = session_view i (l\<lparr>lv_doomed := lv_doomed l @ live_collect now timeout (lv_srv l)\<rparr>)"
proof -
  have own: "filter (\<lambda>(_, j). j = i) (registry_expired now timeout st r) =
      (if is_expired now timeout (st i) then filter (\<lambda>(_, j). j = i) r else [])" for st r
    by (induction r) (auto simp: registry_expired_def)
  show ?thesis using session_viewD [OF assms] by (simp add: session_view_def live_collect_def own)
qed

text \<open>A connection of the session is found at its place in the other state, and goes on there in the same way.\<close>

lemma link_local:
  assumes "session_view i t = session_view i l" "lv_links l = xs @ ln # ys" "link_sid ln = i"
  obtains xs2 ys2 where "lv_links t = xs2 @ ln # ys2" "filter (\<lambda>ln. link_sid ln = i) xs2 = filter (\<lambda>ln. link_sid ln = i) xs"
    "filter (\<lambda>ln. link_sid ln = i) ys2 = filter (\<lambda>ln. link_sid ln = i) ys"
  using filter_split [OF session_viewD(4) [OF assms(1), unfolded assms(2)]] assms(3) by auto

lemma expire_local:
  assumes "session_view i t = session_view i l" "lv_doomed l = xs @ (tok, i) # ys"
  shows "\<exists>xs2 ys2. lv_doomed t = xs2 @ (tok, i) # ys2
    \<and> session_view i (t\<lparr>lv_srv := live_expire (tok, i) (lv_srv t), lv_doomed := xs2 @ ys2\<rparr>)
      = session_view i (l\<lparr>lv_srv := live_expire (tok, i) (lv_srv l), lv_doomed := xs @ ys\<rparr>)"
proof -
  note v = session_viewD [OF assms(1)]
  obtain xs2 ys2 where "lv_doomed t = xs2 @ (tok, i) # ys2"
    "filter (\<lambda>(_, j). j = i) xs2 = filter (\<lambda>(_, j). j = i) xs" "filter (\<lambda>(_, j). j = i) ys2 = filter (\<lambda>(_, j). j = i) ys"
    using filter_split [OF v(5) [unfolded assms(2)]] by auto
  with v show ?thesis
    by (intro exI [of _ xs2] exI [of _ ys2]) (simp add: session_view_def live_expire_eq set_session_def filter_remove_own)
qed


lemma live_consistent:
  assumes "live_wf l" "live_wf t" "i < lv_next l" "i < lv_next t" "session_view i t = session_view i l"
    and "live_step a l l'" "concerns i a"
  shows "\<exists>t'. live_step a t t' \<and> session_view i t' = session_view i l'"
  using assms(6)
proof (cases rule: live_step_cases)
  case (Accept hub spawn vars user now shell session_env token req)
  obtain token' where f: "fresh_token token' t" using fresh_token_exists by blast
  show ?thesis
  proof (cases a)
    case None
    have "session_view i l' = session_view i l" by (rule accept_view [OF assms(1) Accept(2,1)]) (simp_all add: None assms(3))
    moreover have "live_step None t t"
      by (rule live_step.Accept [where req = "Resume token' 0" and token = token', OF _ f])
        (use f in \<open>simp add: live_accept_def handle_request_def fresh_token_def\<close>)
    ultimately show ?thesis using None assms(5) by auto
  next
    case (Some j)
    with assms(7) have "a = Some i" by (simp add: concerns_def)
    from accept_local [OF assms(1,2,5,3,4) Accept(1) [unfolded this], of token'] obtain t' where
      "live_accept (exec_session hub spawn vars user now shell session_env) token' now req t = (Some i, t')"
      "session_view i t' = session_view i l'" by blast
    with live_step.Accept [OF this(1) f] \<open>a = Some i\<close> show ?thesis by blast
  qed
next
  case (Flush xs tok k st ys fails ls srv)
  then have k: "k = i" using assms(7) by (simp add: concerns_def)
  note v = session_viewD [OF assms(5)]
  have "link_outcome tok i (snd (attach_flush fails st (srv_store (lv_srv l) i)), srv_registry (lv_srv l), srv_store (lv_srv l) i) (lv_srv l) = (ls, srv)"
    using Flush(4) k by (simp add: live_flush_def)
  from link_outcome_local [OF assms(5) Flush(3) [unfolded k] this, of "srv_registry (lv_srv t)"] v(1) Flush(2)
  obtain xs2 ys2 srv2 where "lv_links t = xs2 @ Attached tok i st # ys2" "live_flush fails tok i st (lv_srv t) = (ls, srv2)"
    "session_view i (t\<lparr>lv_srv := srv2, lv_links := xs2 @ ls @ ys2\<rparr>) = session_view i l'"
    by (auto simp: live_flush_def)
  with live_step.Flush [OF this(1,2)] Flush(1) k show ?thesis by blast
next
  case (StdinAck xs tok k st ys fail ls srv)
  then have k: "k = i" using assms(7) by (simp add: concerns_def)
  note v = session_viewD [OF assms(5)]
  have "link_outcome tok i (snd (attach_ack fail st (srv_store (lv_srv l) i)), srv_registry (lv_srv l), srv_store (lv_srv l) i) (lv_srv l) = (ls, srv)"
    using StdinAck(4) k by (simp add: live_ack_def)
  from link_outcome_local [OF assms(5) StdinAck(3) [unfolded k] this, of "srv_registry (lv_srv t)"] v(1) StdinAck(2)
  obtain xs2 ys2 srv2 where "lv_links t = xs2 @ Attached tok i st # ys2" "live_ack fail tok i st (lv_srv t) = (ls, srv2)"
    "session_view i (t\<lparr>lv_srv := srv2, lv_links := xs2 @ ls @ ys2\<rparr>) = session_view i l'"
    by (auto simp: live_ack_def)
  with live_step.StdinAck [OF this(1,2)] StdinAck(1) k show ?thesis by blast
next
  case (Select xs tok k st ys tr ev dec ls srv)
  then have k: "k = i" using assms(7) by (simp add: concerns_def)
  note v = session_viewD [OF assms(5)]
  obtain out r s where sel: "attach_select dec tok ev st (srv_registry (lv_srv l)) (srv_store (lv_srv l) i) = (out, r, s)"
    by (metis prod_cases3)
  from attach_select_registry [OF sel, of "srv_registry (lv_srv t)"] obtain q where
    q: "attach_select dec tok ev st (srv_registry (lv_srv t)) (srv_store (lv_srv l) i) = (out, q, s)"
      "r = srv_registry (lv_srv l) \<and> q = srv_registry (lv_srv t) \<or>
       r = registry_remove tok (srv_registry (lv_srv l)) \<and> q = registry_remove tok (srv_registry (lv_srv t))" by blast
  have "link_outcome tok i (out, r, s) (lv_srv l) = (ls, srv)" using Select(6) sel k by (simp add: live_select_def)
  from link_outcome_local [OF assms(5) Select(3) [unfolded k] this q(2)] q(1) v(1) Select(2)
  obtain xs2 ys2 srv2 where "lv_links t = xs2 @ Attached tok i st # ys2" "live_select dec ev tok i st (lv_srv t) = (ls, srv2)"
    "session_view i (t\<lparr>lv_srv := srv2, lv_links := xs2 @ ls @ ys2\<rparr>) = session_view i l'"
    by (auto simp: live_select_def)
  with live_step.Select [OF this(1) Select(4,5) this(2)] Select(1) k show ?thesis by blast
next
  case (Count xs ln ys)
  then have k: "link_sid ln = i" using assms(7) by (simp add: concerns_def)
  note v = session_viewD [OF assms(5)]
  obtain xs2 ys2 where t: "lv_links t = xs2 @ Entering ln # ys2" "filter (\<lambda>ln. link_sid ln = i) xs2 = filter (\<lambda>ln. link_sid ln = i) xs"
    "filter (\<lambda>ln. link_sid ln = i) ys2 = filter (\<lambda>ln. link_sid ln = i) ys" using link_local [OF assms(5) Count(3)] k by auto
  then have "session_view i (t\<lparr>lv_srv := live_count i (lv_srv t), lv_links := xs2 @ Counted ln # ys2\<rparr>) = session_view i l'"
    using v Count(2) k by (simp add: session_view_def live_count_def set_session_def)
  with live_step.Count [OF t(1)] Count(1) k show ?thesis by auto
next
  case (Clear xs ln ys)
  then have k: "link_sid ln = i" using assms(7) by (simp add: concerns_def)
  note v = session_viewD [OF assms(5)]
  obtain xs2 ys2 where t: "lv_links t = xs2 @ Counted ln # ys2" "filter (\<lambda>ln. link_sid ln = i) xs2 = filter (\<lambda>ln. link_sid ln = i) xs"
    "filter (\<lambda>ln. link_sid ln = i) ys2 = filter (\<lambda>ln. link_sid ln = i) ys" using link_local [OF assms(5) Clear(3)] k by auto
  then have "session_view i (t\<lparr>lv_srv := live_clear i (lv_srv t), lv_links := xs2 @ ln # ys2\<rparr>) = session_view i l'"
    using v Clear(2) k by (simp add: session_view_def live_clear_def set_session_def)
  with live_step.Clear [OF t(1)] Clear(1) k show ?thesis by auto
next
  case (AgentEnd xs k ys)
  then have k: "k = i" using assms(7) by (simp add: concerns_def)
  note v = session_viewD [OF assms(5)]
  obtain xs2 ys2 where t: "lv_links t = xs2 @ AgentAttached i # ys2" "filter (\<lambda>ln. link_sid ln = i) xs2 = filter (\<lambda>ln. link_sid ln = i) xs"
    "filter (\<lambda>ln. link_sid ln = i) ys2 = filter (\<lambda>ln. link_sid ln = i) ys" using link_local [OF assms(5) AgentEnd(3)] k by auto
  then have "session_view i (t\<lparr>lv_links := xs2 @ Ending i # ys2\<rparr>) = session_view i l'"
    using v AgentEnd(2) k by (simp add: session_view_def)
  with live_step.AgentEnd [OF t(1)] AgentEnd(1) k show ?thesis by auto
next
  case (Uncount xs k ys ls srv)
  then have k: "k = i" using assms(7) by (simp add: concerns_def)
  note v = session_viewD [OF assms(5)]
  obtain xs2 ys2 where t: "lv_links t = xs2 @ Ending i # ys2" "filter (\<lambda>ln. link_sid ln = i) xs2 = filter (\<lambda>ln. link_sid ln = i) xs"
    "filter (\<lambda>ln. link_sid ln = i) ys2 = filter (\<lambda>ln. link_sid ln = i) ys" using link_local [OF assms(5) Uncount(3)] k by auto
  obtain srv2 where u: "live_uncount i (lv_srv t) = (ls, srv2)" using Uncount(4) k v(1) by (auto simp: live_uncount_def split: prod.splits)
  have "session_view i (t\<lparr>lv_srv := srv2, lv_links := xs2 @ ls @ ys2\<rparr>) = session_view i l'"
    using v t Uncount(2,4) u k by (auto simp: session_view_def live_uncount_def set_session_def split: prod.splits)
  with live_step.Uncount [OF t(1) u] Uncount(1) k show ?thesis by auto
next
  case (Stamp xs k ys now)
  then have k: "k = i" using assms(7) by (simp add: concerns_def)
  note v = session_viewD [OF assms(5)]
  obtain xs2 ys2 where t: "lv_links t = xs2 @ Leaving i # ys2" "filter (\<lambda>ln. link_sid ln = i) xs2 = filter (\<lambda>ln. link_sid ln = i) xs"
    "filter (\<lambda>ln. link_sid ln = i) ys2 = filter (\<lambda>ln. link_sid ln = i) ys" using link_local [OF assms(5) Stamp(3)] k by auto
  then have "session_view i (t\<lparr>lv_srv := live_stamp now i (lv_srv t), lv_links := xs2 @ ys2\<rparr>) = session_view i l'"
    using v Stamp(2) k by (simp add: session_view_def live_stamp_def set_session_def)
  with live_step.Stamp [OF t(1)] Stamp(1) k show ?thesis by auto
next
  case (Task k st ev env)
  then have k: "k = i" using assms(7) by (simp add: concerns_def)
  have tl: "srv_tasks (lv_srv t) i = Some st" "live_may i ev t"
    "session_view i (t\<lparr>lv_srv := live_task env ev i st (lv_srv t)\<rparr>) = session_view i l'"
    using task_local [OF assms(5) Task(3) [unfolded k], of ev env] Task(2,5) k by auto
  have "unat (task_seq st) + 2 < 2 ^ 64" using Task(6) by simp
  from live_step.Task [OF tl(1) Task(4) tl(2) this, of env] tl(3) Task(1) k show ?thesis by blast
next
  case (Collect now timeout)
  from collect_local [OF assms(5), of now timeout] Collect(2) live_step.Collect [of t now timeout] Collect(1) show ?thesis by auto
next
  case (Expire xs tok k ys)
  then have k: "k = i" using assms(7) by (simp add: concerns_def)
  from expire_local [OF assms(5) Expire(3) [unfolded k]] Expire(2) k obtain xs2 ys2 where "lv_doomed t = xs2 @ (tok, i) # ys2"
    "session_view i (t\<lparr>lv_srv := live_expire (tok, i) (lv_srv t), lv_doomed := xs2 @ ys2\<rparr>) = session_view i l'" by auto
  with live_step.Expire [OF this(1)] Expire(1) k show ?thesis by blast
qed

lemma live_step_next: "live_step a l l' \<Longrightarrow> lv_next l \<le> lv_next l'"
  by (cases rule: live_step_cases)
    (auto simp: live_accept_def split: prod.splits Handshake.splits)

interpretation session_ni: unwinding live_step "\<lambda>l. live_wf l \<and> i < lv_next l" "concerns i" "session_view i" for i
proof unfold_locales
  fix l a l'
  assume w: "live_wf l \<and> i < lv_next l" and s: "live_step a l l'"
  then show "live_wf l' \<and> i < lv_next l'" using live_step_wf live_step_next by (metis order_less_le_trans)
  assume "\<not> concerns i a"
  with w s show "session_view i l' = session_view i l" using live_respect by (cases a) (auto simp: concerns_def)
next
  fix l t a l'
  assume "live_wf l \<and> i < lv_next l" "live_wf t \<and> i < lv_next t" "session_view i t = session_view i l" "live_step a l l'" "concerns i a"
  then show "\<exists>t'. live_step a t t' \<and> session_view i t' = session_view i l'" by (blast intro: live_consistent)
qed

section \<open>Property\<close>

definition demo_swept :: "Live \<Rightarrow> Live" where
  "demo_swept l = l\<lparr>lv_doomed := lv_doomed l @ live_collect 10 5 (lv_srv l)\<rparr>"

text \<open>
  C8: Sessions do not interfere.  Take any run of a daemon and a session that exists at its start.  There is a
  run from the same state in which no other session is served, no client starts one, resumes one or gives
  one up, and the session has the same history in it: the same steps and after each the same value with
  log, queue and attach count, the same task, registry entry, connections and mark of the sweep, and the
  same at the end.  So nothing the
  clients, tasks and connections of other sessions do can be noticed in a session.
\<close>
theorem sessions_noninterference:
  assumes "live_reach l" "i < lv_next l" "run live_step l tr"
  shows "\<exists>tr'. run live_step l tr' \<and> (\<forall>(a, _) \<in> set tr'. concerns i a)
    \<and> history (concerns i) (session_view i) tr' = history (concerns i) (session_view i) tr
    \<and> session_view i (final l tr') = session_view i (final l tr)"
  using live_reach_wf [OF assms(1)] assms(2) by (intro session_ni.purge [OF assms(3)]) simp_all

theorem sessions_noninterference_witness:
  "\<exists>tr'. run live_step (demo_exec ''t'' demo_live) tr' \<and> (\<forall>(a, _) \<in> set tr'. concerns 0 a)
    \<and> history (concerns 0) (session_view 0) tr' =
        history (concerns 0) (session_view 0)
          [(Some 1, demo_exec ''u'' (demo_exec ''t'' demo_live)), (None, demo_swept (demo_exec ''u'' (demo_exec ''t'' demo_live)))]
    \<and> session_view 0 (final (demo_exec ''t'' demo_live) tr') = session_view 0 (demo_swept (demo_exec ''u'' (demo_exec ''t'' demo_live)))"
proof -
  have "live_step (Some 1) (demo_exec ''t'' demo_live) (demo_exec ''u'' (demo_exec ''t'' demo_live))"
    using demo_exec_step [OF demo_second_fresh] by (simp add: demo_live_def)
  then have "run live_step (demo_exec ''t'' demo_live)
    [(Some 1, demo_exec ''u'' (demo_exec ''t'' demo_live)), (None, demo_swept (demo_exec ''u'' (demo_exec ''t'' demo_live)))]"
    unfolding demo_swept_def by (intro run.intros live_step.Collect)
  from sessions_noninterference [OF demo_first_reach _ this, of 0] show ?thesis by (simp add: demo_live_def)
qed

end
