(* ===== verification/Fleet.thy ===== *)
theory Fleet
  imports SystemSpec SystemToken Isolation
begin

text \<open>
  A daemon that serves many clients at once, end to end.  System follows one session with its client; here any
  number of them share one daemon, that is one registry, one sweep and one restart, and the operations
  that go through the registry work on all of it.  Every session behaves as if it had the daemon for
  itself: its part of the state is at every moment a reachable state of System, so that all that is shown
  there holds for each of them.
\<close>

section \<open>State\<close>

text \<open>Sessions are numbered as they come.  The server part of the daemon is the one of Attach; of the \<open>System\<close> of a
  session only the part of the client, its connections and the ghost fields are used.\<close>

record Fleet =
  fl_srv :: Server
  fl_user :: "sid \<Rightarrow> System"
  fl_token :: "sid \<Rightarrow> string"
  fl_target :: "sid \<Rightarrow> Target"
  fl_command :: "sid \<Rightarrow> string"
  fl_next :: sid

text \<open>What the tasks and connections of a session work on: its own client and session, and the registry of all.\<close>

definition own :: "sid \<Rightarrow> Fleet \<Rightarrow> System" where
  "own i f =
     (fl_user f i)\<lparr>sy_task := srv_tasks (fl_srv f) i, sy_session := srv_store (fl_srv f) i, sy_registry := srv_registry (fl_srv f)\<rparr>"

definition put :: "sid \<Rightarrow> System \<Rightarrow> Fleet \<Rightarrow> Fleet" where
  "put i s f =
     f\<lparr>fl_srv := \<lparr>srv_registry = sy_registry s, srv_store = (srv_store (fl_srv f))(i := sy_session s),
                  srv_tasks = (srv_tasks (fl_srv f))(i := sy_task s)\<rparr>,
       fl_user := (fl_user f)(i := s)\<rparr>"

text \<open>The registry as far as it concerns one token.\<close>

definition narrow :: "string \<Rightarrow> System \<Rightarrow> System" where
  "narrow tok s = s\<lparr>sy_registry := (if registry_get tok (sy_registry s) = None then [] else [(tok, 0)])\<rparr>"

abbreviation session_of :: "sid \<Rightarrow> Fleet \<Rightarrow> System" where
  "session_of i f \<equiv> narrow (fl_token f i) (own i f)"

section \<open>Steps\<close>

text \<open>The steps of a session and its client that are taken without the other sessions.\<close>

inductive session_step :: "string \<Rightarrow> Target \<Rightarrow> string \<Rightarrow> System \<Rightarrow> System \<Rightarrow> bool" for tok tgt command where
  Task: "sy_task s = Some st \<Longrightarrow> task_enabled ev st \<Longrightarrow> task_may tok ev s \<Longrightarrow> session_step tok tgt command s (task_act env ev st s)"
| Flush: "cn_att (sy_conns s c) = Some a \<Longrightarrow> session_step tok tgt command s (flush_act fails now c a s)"
| StdinAck: "cn_att (sy_conns s c) = Some a \<Longrightarrow> session_step tok tgt command s (ack_act fails' now c a s)"
| ServerEvent: "cn_att (sy_conns s c) = Some a \<Longrightarrow> server_may dec ev' (sy_conns s c) \<Longrightarrow>
    session_step tok tgt command s (server_act tok dec ev' now c a s)"
| ClientEvent: "sy_phase s = On c \<Longrightarrow> client_may cdec cev (sy_conns s c) \<Longrightarrow>
    session_step tok tgt command s (client_act tgt cdec cev sent c s)"
| ClientStdin: "sy_phase s = On c \<Longrightarrow> cl_stdin_open (sy_client s) \<Longrightarrow> session_step tok tgt command s (stdin_act tgt r ok leak c s)"
| Connect: "sy_phase s = Away \<Longrightarrow> session_step tok tgt command s (connect_act tgt command s)"
| Answer: "sy_phase s = Waiting c \<Longrightarrow> cn_down (sy_conns s c) = m # rest \<Longrightarrow>
    session_step tok tgt command s (connected_act tgt (start_reply m) n c (pop_down c s))"
| ConnectFails: "sy_phase s = Waiting c \<Longrightarrow> \<not> is_final e \<Longrightarrow> session_step tok tgt command s (connected_act tgt (Inl e) n c s)"

text \<open>A request on a connection of client \<open>i\<close> is served by the whole daemon.\<close>

definition fleet_accept ::
  "(string \<Rightarrow> bool \<Rightarrow> bool \<Rightarrow> ServerError + Spawned) \<Rightarrow> string \<Rightarrow> millis \<Rightarrow> sid \<Rightarrow> nat \<Rightarrow> ExecRequest \<Rightarrow> Fleet \<Rightarrow> Fleet" where
  "fleet_accept start token now i c req f =
     (let u = fl_user f i; C = (sy_conns u c)\<lparr>cn_req := None\<rparr>
      in case handle_request start token (fl_next f) req (fl_srv f) of
           (sends, HandshakeAttach tok j k, srv) \<Rightarrow>
             f\<lparr>fl_srv := set_session j (attach_enter (srv_store srv j)) srv,
               fl_user := (fl_user f)(i := set_conn c
                  (C\<lparr>cn_att := Some (attach_init now k),
                     cn_down := cn_down C @ sent_messages sends @ [started_message tok (srv_store srv j)]\<rparr>) u)\<rparr>
         | (sends, _, srv) \<Rightarrow>
             f\<lparr>fl_srv := srv,
               fl_user := (fl_user f)(i := set_conn c (C\<lparr>cn_down := cn_down C @ sent_messages sends\<rparr>) u)\<rparr>)"

text \<open>A new client: its connection is served, and the answer is on its way.\<close>

definition new_user :: "millis \<Rightarrow> ChannelMessage \<Rightarrow> System" where
  "new_user now answer =
     \<lparr>sy_client = client_init, sy_phase = Waiting 0,
      sy_conns = (\<lambda>_. no_conn)(0 := no_conn\<lparr>cn_att := Some (attach_init now 0), cn_down := [answer]\<rparr>), sy_next = 1,
      sy_task = None, sy_session = fresh_session now True False, sy_registry = [],
      gh_hist = [], gh_out = [], gh_err = [], gh_in = [], gh_reads = [], gh_lost = False, gh_epipe = False\<rparr>"

definition fleet_arrive :: "millis \<Rightarrow> Target \<Rightarrow> string \<Rightarrow> string \<Rightarrow> sid \<Rightarrow> Server \<Rightarrow> Fleet \<Rightarrow> Fleet" where
  "fleet_arrive now tgt command tok i srv f =
     f\<lparr>fl_srv := set_session i (attach_enter (srv_store srv i)) srv,
       fl_user := (fl_user f)(i := new_user now (started_message tok (srv_store srv i))),
       fl_token := (fl_token f)(i := tok), fl_target := (fl_target f)(i := tgt), fl_command := (fl_command f)(i := command),
       fl_next := Suc i\<rparr>"

text \<open>A restart under systemd: the running tasks that answer in time (those of the sessions \<open>A\<close>) give back their state, the
  records and pipes of their sessions go to the next daemon, which starts with nothing else.  Its sessions get their old numbers again, which
  are free by then.\<close>

definition running_tasks :: "sid set \<Rightarrow> Server \<Rightarrow> sid \<rightharpoonup> TaskState \<times> Shared" where
  "running_tasks A srv i = (if i \<in> A then map_option (\<lambda>st. (st, ses_shared (srv_store srv i))) (srv_tasks srv i) else None)"

definition same_numbers :: "Server \<Rightarrow> records \<Rightarrow> (string \<times> sid \<times> SessionRecord) list" where
  "same_numbers srv recs = map (\<lambda>(tok, rec). (tok, the (registry_get tok (srv_registry srv)), rec)) recs"

definition left_behind :: "Server \<Rightarrow> Server" where
  "left_behind srv = no_sessions (\<lambda>i. (srv_store srv i)\<lparr>ses_task_alive := False\<rparr>)"

definition detach_users :: "(sid \<Rightarrow> System) \<Rightarrow> sid \<Rightarrow> System" where
  "detach_users us i = (us i)\<lparr>sy_conns := detach_all (sy_conns (us i))\<rparr>"

text \<open>Spawning a child gives the daemon its end of stdin, and no exit code yet.\<close>

definition gives_pipes :: "(string list \<Rightarrow> env \<Rightarrow> ServerError + SessionIo) \<Rightarrow> bool" where
  "gives_pipes spawn \<longleftrightarrow> (\<forall>args e io. spawn args e = Inr io \<longrightarrow> io_stdin io \<noteq> None \<and> io_exit_code io = None)"

text \<open>As in System the sweep may give up any session at any time.\<close>

inductive fleet_step :: "Fleet \<Rightarrow> Fleet \<Rightarrow> bool" where
  Session: "i < fl_next f \<Longrightarrow> session_step (fl_token f i) (fl_target f i) (fl_command f i) (own i f) s' \<Longrightarrow> fleet_step f (put i s' f)"
| Accept: "i < fl_next f \<Longrightarrow> cn_req (sy_conns (fl_user f i) c) = Some req \<Longrightarrow> fleet_step f (fleet_accept start token now i c req f)"
| Arrive: "handle_request (exec_session hub spawn vars user now shell session_env) token (fl_next f) (start_request tgt command client_init)
      (fl_srv f) = (sends, HandshakeAttach tok i k, srv) \<Longrightarrow>
    gives_pipes spawn \<Longrightarrow> token \<notin> fl_token f ` {..<fl_next f} \<Longrightarrow> fleet_step f (fleet_arrive now tgt command tok i srv f)"
| Sweep: "j < fl_next f \<Longrightarrow> fleet_step f (f\<lparr>fl_srv := live_expire (fl_token f j, j) (fl_srv f)\<rparr>)"
| Restart: "restore_env_ok re \<Longrightarrow>
    handover_sessions (answers (running_tasks A (fl_srv f))) None (fl_srv f) = (Inr stored, Some recs, old) \<Longrightarrow>
    restore_sessions re stored (Some (Inr (same_numbers (fl_srv f) recs))) (left_behind (fl_srv f)) = (Inr (), srv) \<Longrightarrow>
    fleet_step f (f\<lparr>fl_srv := srv, fl_user := detach_users (fl_user f)\<rparr>)"

inductive fleet_reach :: "Fleet \<Rightarrow> bool" where
  Start: "fl_srv f = no_sessions unused \<Longrightarrow> fl_next f = 0 \<Longrightarrow> fleet_reach f"
| Step: "fleet_reach f \<Longrightarrow> fleet_step f f' \<Longrightarrow> fleet_reach f'"

section \<open>One session among others\<close>

lemma narrow_simps [simp]:
  "sy_client (narrow tok s) = sy_client s" "sy_phase (narrow tok s) = sy_phase s" "sy_conns (narrow tok s) = sy_conns s"
  "sy_next (narrow tok s) = sy_next s" "sy_task (narrow tok s) = sy_task s" "sy_session (narrow tok s) = sy_session s"
  "registry_get tok (sy_registry (narrow tok s)) = None \<longleftrightarrow> registry_get tok (sy_registry s) = None"
  by (simp_all add: narrow_def registry_get_def)

lemma narrow_task: "task_act env ev st (narrow tok s) = narrow tok (task_act env ev st s)"
  by (simp add: narrow_def task_act_def Let_def split_beta)

lemma narrow_flush: "flush_act fails now c a (narrow tok s) = narrow tok (flush_act fails now c a s)"
  by (simp add: narrow_def flush_act_def set_conn_def split_beta)

lemma narrow_ack: "ack_act fails' now c a (narrow tok s) = narrow tok (ack_act fails' now c a s)"
  by (simp add: narrow_def ack_act_def set_conn_def split_beta)

lemma narrow_client: "client_act tgt cdec cev sent c (narrow tok s) = narrow tok (client_act tgt cdec cev sent c s)"
  by (simp add: narrow_def client_act_def set_conn_def split_beta split: AttachedEvent.splits ConnEvent.splits)

lemma narrow_stdin: "stdin_act tgt r ok leak c (narrow tok s) = narrow tok (stdin_act tgt r ok leak c s)"
  by (simp add: narrow_def stdin_act_def set_conn_def Let_def split_beta split: option.splits)

lemma narrow_connect: "connect_act tgt command (narrow tok s) = narrow tok (connect_act tgt command s)"
  by (simp add: narrow_def connect_act_def set_conn_def)

lemma narrow_pop_down: "pop_down c (narrow tok s) = narrow tok (pop_down c s)"
  by (simp add: narrow_def pop_down_def set_conn_def)

lemma narrow_connected: "connected_act tgt reply n c (narrow tok s) = narrow tok (connected_act tgt reply n c s)"
  by (simp add: narrow_def connected_act_def set_conn_def split_beta split: ConnectOutcome.splits)

lemmas narrow_acts = narrow_task narrow_flush narrow_ack narrow_client narrow_stdin narrow_connect narrow_pop_down narrow_connected

lemma narrow_server_act:
  "server_act tok dec ev now c a (narrow tok s) = narrow tok (server_act tok dec ev now c a s)"
proof -
  obtain out r ses where sel: "attach_select dec tok ev a (sy_registry s) (sy_session s) = (out, r, ses)" by (metis prod_cases3)
  let ?n = "sy_registry (narrow tok s)"
  from attach_select_registry [OF sel, of ?n] obtain q where
    q: "attach_select dec tok ev a ?n (sy_session s) = (out, q, ses)"
      "r = sy_registry s \<and> q = ?n \<or> r = registry_remove tok (sy_registry s) \<and> q = registry_remove tok ?n" by blast
  have "q = (if registry_get tok r = None then [] else [(tok, 0)])"
  proof -
    have "registry_remove tok ?n = []" by (simp add: narrow_def registry_remove_def)
    with q(2) show ?thesis by (elim disjE conjE) (simp_all add: narrow_def)
  qed
  then show ?thesis unfolding server_act_def narrow_simps sel q(1) by (simp add: narrow_def set_conn_def)
qed

text \<open>A step of one session is a step of System, whatever else the registry holds.\<close>

lemma session_step_narrow:
  assumes "session_step tok tgt command s s'"
  shows "step tok tgt command (narrow tok s) (narrow tok s')"
  using assms
proof cases
  case (Task st ev env)
  moreover have "task_may tok ev (narrow tok s) = task_may tok ev s" by (cases "(tok, ev, s)" rule: task_may.cases) simp_all
  ultimately show ?thesis using step.Task [of "narrow tok s" st ev tok] by (simp add: narrow_acts)
next
  case (Flush c a fails now)
  then show ?thesis using step.Flush [of "narrow tok s" c a] by (simp add: narrow_acts)
next
  case (StdinAck c a fails now)
  then show ?thesis using step.StdinAck [of "narrow tok s" c a] by (simp add: narrow_acts)
next
  case (ServerEvent c a dec ev now)
  then show ?thesis using step.ServerEvent [of "narrow tok s" c a dec ev tok] by (simp add: narrow_server_act)
next
  case (ClientEvent c cdec cev sent)
  then show ?thesis using step.ClientEvent [of "narrow tok s" c cdec cev] by (simp add: narrow_acts)
next
  case (ClientStdin c r ok leak)
  then show ?thesis using step.ClientStdin [of "narrow tok s" c] by (simp add: narrow_acts)
next
  case Connect
  then show ?thesis using step.Connect [of "narrow tok s"] by (simp add: narrow_acts)
next
  case (Answer c m rest n)
  then show ?thesis using step.Answer [of "narrow tok s" c m rest] by (simp add: narrow_acts)
next
  case (ConnectFails c e n)
  then show ?thesis using step.ConnectFails [of "narrow tok s" c e] by (simp add: narrow_acts)
qed

lemma session_step_registry:
  assumes "session_step tok tgt command s s'"
  shows "sy_registry s' = sy_registry s \<or> sy_registry s' = registry_remove tok (sy_registry s)"
  using assms
proof cases
  case (ServerEvent c a dec ev now)
  obtain out r ses where sel: "attach_select dec tok ev a (sy_registry s) (sy_session s) = (out, r, ses)" by (metis prod_cases3)
  from attach_select_registry [OF sel, of "sy_registry s"] sel ServerEvent show ?thesis by (auto simp: server_act_def)
qed (auto simp: task_act_def flush_act_def ack_act_def client_act_def stdin_act_def connect_act_def pop_down_def connected_act_def Let_def
    split: prod.splits ConnectOutcome.splits)

section \<open>The daemon\<close>

definition registry_ok :: "Fleet \<Rightarrow> bool" where
  "registry_ok f \<longleftrightarrow>
     distinct (map fst (srv_registry (fl_srv f))) \<and> inj_on (fl_token f) {..<fl_next f}
     \<and> (\<forall>t j. registry_get t (srv_registry (fl_srv f)) = Some j \<longrightarrow> j < fl_next f \<and> t = fl_token f j)"

definition fleet_ok :: "Fleet \<Rightarrow> bool" where
  "fleet_ok f \<longleftrightarrow>
     registry_ok f \<and> (\<forall>i < fl_next f. reachable (fl_token f i) (fl_target f i) (fl_command f i) (session_of i f))"

text \<open>What a step of the daemon is for the sessions: each makes a step of System or stands still.\<close>

definition moves :: "Fleet \<Rightarrow> Fleet \<Rightarrow> bool" where
  "moves f f' \<longleftrightarrow>
     (\<forall>j < fl_next f. fl_token f' j = fl_token f j \<and> fl_target f' j = fl_target f j \<and> fl_command f' j = fl_command f j
        \<and> (session_of j f' = session_of j f \<or>
            step (fl_token f j) (fl_target f j) (fl_command f j) (session_of j f) (session_of j f')))"

lemma own_put [simp]: "own i (put i s f) = s"
  by (simp add: own_def put_def)

lemma put_simps [simp]:
  "fl_token (put i s f) = fl_token f" "fl_target (put i s f) = fl_target f" "fl_command (put i s f) = fl_command f"
  "fl_next (put i s f) = fl_next f" "srv_registry (fl_srv (put i s f)) = sy_registry s"
  by (simp_all add: put_def)

text \<open>What the others see of a change: nothing, if their tokens name what they named before.\<close>

lemma session_of_other:
  assumes "fl_user f' j = fl_user f j" "srv_store (fl_srv f') j = srv_store (fl_srv f) j" "srv_tasks (fl_srv f') j = srv_tasks (fl_srv f) j"
    and "fl_token f' j = fl_token f j"
    and "registry_get (fl_token f j) (srv_registry (fl_srv f')) = registry_get (fl_token f j) (srv_registry (fl_srv f))"
  shows "session_of j f' = session_of j f"
  using assms by (simp add: own_def narrow_def)

lemma own_entry:
  assumes "registry_ok f" "i < fl_next f" "registry_get (fl_token f i) (srv_registry (fl_srv f)) = Some j"
  shows "j = i"
  using assms by (auto simp: registry_ok_def inj_on_def)

lemma registry_ok_shrink:
  assumes "registry_ok f" "distinct (map fst (srv_registry (fl_srv f')))" "fl_token f' = fl_token f" "fl_next f' = fl_next f"
    and "\<And>t j. registry_get t (srv_registry (fl_srv f')) = Some j \<Longrightarrow> registry_get t (srv_registry (fl_srv f)) = Some j"
  shows "registry_ok f'"
  using assms(1,2,5) unfolding registry_ok_def assms(3,4) by blast

lemma session_moves:
  assumes "fleet_ok f" "i < fl_next f" "session_step (fl_token f i) (fl_target f i) (fl_command f i) (own i f) s'"
  shows "registry_ok (put i s' f) \<and> moves f (put i s' f)"
proof -
  have reg: "registry_ok f" using assms(1) by (simp add: fleet_ok_def)
  have r: "sy_registry s' = srv_registry (fl_srv f) \<or> sy_registry s' = registry_remove (fl_token f i) (srv_registry (fl_srv f))"
    using session_step_registry [OF assms(3)] by (simp add: own_def)
  then have "registry_ok (put i s' f)"
    using reg by (auto simp: registry_ok_def registry_distinct split: if_splits)
  moreover have "session_of j (put i s' f) = session_of j f \<or>
      step (fl_token f j) (fl_target f j) (fl_command f j) (session_of j f) (session_of j (put i s' f))" if j: "j < fl_next f" for j
  proof (cases "j = i")
    case True
    with session_step_narrow [OF assms(3)] show ?thesis by simp
  next
    case False
    then have "fl_token f j \<noteq> fl_token f i" using reg j assms(2) by (auto simp: registry_ok_def inj_on_def)
    then have "session_of j (put i s' f) = session_of j f"
      using r False by (intro session_of_other) (auto simp: put_def)
    then show ?thesis by simp
  qed
  ultimately show ?thesis by (simp add: moves_def)
qed

lemma fleet_okD:
  assumes "fleet_ok f" "i < fl_next f"
  shows "reachable (fl_token f i) (fl_target f i) (fl_command f i) (session_of i f)"
    "ses_resumable (srv_store (fl_srv f) i)" "ses_task_alive (srv_store (fl_srv f) i) \<longleftrightarrow> srv_tasks (fl_srv f) i \<noteq> None"
    "cn_req (sy_conns (fl_user f i) c) = Some req \<Longrightarrow> \<exists>n. req = Resume (fl_token f i) n"
proof -
  show r: "reachable (fl_token f i) (fl_target f i) (fl_command f i) (session_of i f)" using assms by (simp add: fleet_ok_def)
  from reachable_sane [OF r] show "ses_resumable (srv_store (fl_srv f) i)"
    "ses_task_alive (srv_store (fl_srv f) i) \<longleftrightarrow> srv_tasks (fl_srv f) i \<noteq> None"
    "cn_req (sy_conns (fl_user f i) c) = Some req \<Longrightarrow> \<exists>n. req = Resume (fl_token f i) n"
    by (auto simp: session_sane_def keeps_token_def own_def)
qed

lemma fleet_ok_moves:
  assumes "fleet_ok f" "registry_ok f'" "fl_next f' = fl_next f" "moves f f'"
  shows "fleet_ok f'"
proof -
  have "reachable (fl_token f' j) (fl_target f' j) (fl_command f' j) (session_of j f')" if j: "j < fl_next f" for j
    using assms(4) j fleet_okD(1) [OF assms(1) j] unfolding moves_def by (metis reachable.Step)
  then show ?thesis using assms(2,3) by (simp add: fleet_ok_def)
qed

lemma accept_moves:
  assumes "fleet_ok f" "i < fl_next f" "cn_req (sy_conns (fl_user f i) c) = Some req"
  shows "registry_ok (fleet_accept start token now i c req f) \<and> fl_next (fleet_accept start token now i c req f) = fl_next f
    \<and> moves f (fleet_accept start token now i c req f)"
proof -
  obtain n where req: "req = Resume (fl_token f i) n" using fleet_okD(4) [OF assms] by blast
  have reg: "registry_ok f" using assms(1) by (simp add: fleet_ok_def)
  let ?f = "fleet_accept start token now i c req f"
  have r: "srv_registry (fl_srv ?f) = srv_registry (fl_srv f)"
    by (simp add: fleet_accept_def req handle_request_def set_session_def Let_def split: option.splits)
  have s: "fl_next ?f = fl_next f" "fl_token ?f = fl_token f" "fl_target ?f = fl_target f" "fl_command ?f = fl_command f"
    by (simp_all add: fleet_accept_def req handle_request_def Let_def split: option.splits)
  have "registry_ok ?f" using reg by (simp add: registry_ok_def r s)
  moreover have "session_of j ?f = session_of j f \<or> step (fl_token f j) (fl_target f j) (fl_command f j) (session_of j f) (session_of j ?f)" for j
  proof (cases "j = i")
    case False
    then show ?thesis using own_entry [OF reg assms(2)]
      by (intro disjI1 session_of_other)
        (auto simp: fleet_accept_def req handle_request_def set_session_def Let_def split: option.splits)
  next
    case True
    have "session_of i ?f = accept_act now c req (session_of i f)"
    proof (cases "registry_get (fl_token f i) (srv_registry (fl_srv f))")
      case None
      then show ?thesis
        by (simp add: fleet_accept_def accept_act_def req handle_request_def own_def narrow_def server_view_def deny_def set_conn_def
            registry_get_def Let_def)
    next
      case (Some k)
      with own_entry [OF reg assms(2)] show ?thesis
        by (simp add: fleet_accept_def accept_act_def req handle_request_def own_def narrow_def server_view_def set_conn_def
            registry_get_def set_session_def Let_def)
    qed
    moreover have "cn_req (sy_conns (session_of i f) c) = Some req" using assms(3) by (simp add: own_def)
    ultimately show ?thesis using step.Accept True by metis
  qed
  ultimately show ?thesis by (simp add: moves_def s)
qed

lemma registry_ok_snd:
  assumes "registry_ok f"
  shows "distinct (map snd (srv_registry (fl_srv f)))"
    "registry_get t (srv_registry (fl_srv f)) = Some j \<longleftrightarrow> (t, j) \<in> set (srv_registry (fl_srv f))"
proof -
  have d: "distinct (map fst (srv_registry (fl_srv f)))" using assms by (simp add: registry_ok_def)
  show mem: "registry_get t (srv_registry (fl_srv f)) = Some j \<longleftrightarrow> (t, j) \<in> set (srv_registry (fl_srv f))" for t j
    using registry_get_mem [OF d] by simp
  have "fst e = fl_token f (snd e)" if "e \<in> set (srv_registry (fl_srv f))" for e
    using assms that mem [of "fst e" "snd e"] by (simp add: registry_ok_def)
  then have "map fst (srv_registry (fl_srv f)) = map (fl_token f) (map snd (srv_registry (fl_srv f)))" by simp
  with d show "distinct (map snd (srv_registry (fl_srv f)))" by (metis distinct_map)
qed

lemma sweep_moves:
  assumes "fleet_ok f" "j < fl_next f"
  shows "registry_ok (f\<lparr>fl_srv := live_expire (fl_token f j, j) (fl_srv f)\<rparr>)
    \<and> moves f (f\<lparr>fl_srv := live_expire (fl_token f j, j) (fl_srv f)\<rparr>)"
proof -
  let ?f = "f\<lparr>fl_srv := live_expire (fl_token f j, j) (fl_srv f)\<rparr>"
  have reg: "registry_ok f" using assms(1) by (simp add: fleet_ok_def)
  have "registry_ok ?f"
    by (rule registry_ok_shrink [OF reg])
      (use reg in \<open>auto simp: registry_ok_def live_expire_eq set_session_def registry_distinct split: if_splits\<close>)
  moreover have "session_of j ?f = expire_act (fl_token f j) (session_of j f)"
    using registry_get_remove [of "fl_token f j" "fl_token f j" "srv_registry (fl_srv f)"]
    by (simp add: own_def narrow_def expire_act_def expire_one_def live_expire_eq set_session_def) (simp add: registry_remove_def)
  moreover have "session_of i ?f = session_of i f" if "i < fl_next f" "i \<noteq> j" for i
  proof -
    have "fl_token f i \<noteq> fl_token f j" using reg that assms(2) by (auto simp: registry_ok_def inj_on_def)
    then show ?thesis using that by (intro session_of_other) (simp_all add: live_expire_eq set_session_def)
  qed
  ultimately have "session_of i ?f = session_of i f \<or> step (fl_token f i) (fl_target f i) (fl_command f i) (session_of i f) (session_of i ?f)"
    if "i < fl_next f" for i
    using that step.Expire by (cases "i = j") simp_all
  with \<open>registry_ok ?f\<close> show ?thesis by (simp add: moves_def)
qed

text \<open>The restart on one session.\<close>

lemma restore_loop_gone:
  assumes "restore_loop re fds recs (left_behind srv0) = (r, srv)"
  shows "tok \<notin> fst ` set recs \<Longrightarrow> registry_get tok (srv_registry srv) = None"
    "i \<notin> (fst \<circ> snd) ` set recs \<Longrightarrow> srv_store srv i = (srv_store srv0 i)\<lparr>ses_task_alive := False\<rparr> \<and> srv_tasks srv i = None"
  using restore_loop_other [OF assms, of tok i] by (simp_all add: left_behind_def no_sessions_def registry_get_def)

lemma same_numbers_eq:
  assumes "registry_ok f" "handover_sessions (answers tasks) None (fl_srv f) = (Inr stored, Some recs, old)"
  shows "same_numbers (fl_srv f) recs =
     map (\<lambda>e. (fst e, snd e, snd (record_of (answers tasks) (srv_store (fl_srv f)) e)))
       (filter (handed_over (answers tasks) (srv_store (fl_srv f))) (srv_registry (fl_srv f)))"
proof -
  have "distinct (map fst (srv_registry (fl_srv f)))" using assms(1) by (simp add: registry_ok_def)
  then have "recs = map (record_of (answers tasks) (srv_store (fl_srv f)))
      (filter (handed_over (answers tasks) (srv_store (fl_srv f))) (srv_registry (fl_srv f)))"
    using handover_sessions_eq(2) assms(2) by blast
  moreover have "registry_get (fst e) (srv_registry (fl_srv f)) = Some (snd e)" if "e \<in> set (srv_registry (fl_srv f))" for e
    using that by (simp add: registry_ok_snd(2) [OF assms(1)])
  ultimately show ?thesis by (auto simp: same_numbers_def record_of_def)
qed

lemma restore_loop_distinct:
  "restore_loop re fds recs srv = (r, srv') \<Longrightarrow> distinct (map fst (srv_registry srv)) \<Longrightarrow> distinct (map fst (srv_registry srv'))"
proof (induction recs arbitrary: srv)
  case (Cons e recs)
  obtain r1 srv1 where one: "restore_one re fds e srv = (r1, srv1)" by force
  then have "distinct (map fst (srv_registry srv1))" using Cons.prems(2)
    by (auto simp: restore_one_def registry_distinct split: prod.splits sum.splits option.splits if_splits)
  with Cons one show ?case by (cases r1) auto
qed simp

lemma fleet_restart_session:
  assumes "fleet_ok f" "restore_env_ok re" "i < fl_next f"
    and "handover_sessions (answers (running_tasks A (fl_srv f))) None (fl_srv f) = (Inr stored, Some recs, old)"
    and "restore_sessions re stored (Some (Inr (same_numbers (fl_srv f) recs))) (left_behind (fl_srv f)) = (Inr (), srv)"
  shows "session_of i (f\<lparr>fl_srv := srv, fl_user := detach_users (fl_user f)\<rparr>) = restart_act (fl_token f i) re (i \<in> A) (session_of i f)"
proof -
  let ?ans = "answers (running_tasks A (fl_srv f))" and ?r = "srv_registry (fl_srv f)" and ?st = "srv_store (fl_srv f)" and ?tok = "fl_token f i"
  let ?ho = "filter (handed_over ?ans ?st) ?r"
  have reg: "registry_ok f" using assms(1) by (simp add: fleet_ok_def)
  have d: "distinct (map fst ?r)" using reg by (simp add: registry_ok_def)
  note all = handover_sessions_eq [OF d assms(4)]
  note json = same_numbers_eq [OF reg assms(4)]
  have loop: "restore_loop re stored (same_numbers (fl_srv f) recs) (left_behind (fl_srv f)) = (Inr (), srv)"
    using assms(5) by (simp add: restore_sessions_def)
  have dj: "distinct (map fst (same_numbers (fl_srv f) recs))" "distinct (map (fst \<circ> snd) (same_numbers (fl_srv f) recs))"
    using d registry_ok_snd(1) [OF reg] by (simp_all add: json comp_def distinct_map_filter)
  have run: "?ans i \<noteq> None \<longleftrightarrow> i \<in> A \<and> srv_tasks (fl_srv f) i \<noteq> None" by (simp add: answers_def running_tasks_def)
  note sane = fleet_okD(2,3) [OF assms(1,3)]
  show ?thesis
  proof (cases "registry_get ?tok ?r \<noteq> None \<and> i \<in> A \<and> srv_tasks (fl_srv f) i \<noteq> None")
    case True
    then obtain st where st: "srv_tasks (fl_srv f) i = Some st" and A: "i \<in> A" by auto
    have get: "registry_get ?tok ?r = Some i" using True own_entry [OF reg assms(3)] by auto
    define ho where "ho = make_handover (\<lambda>_. True) st (ses_shared (?st i))"
    define rec where "rec = (ho_state ho)\<lparr>rec_forward_agent := ses_agent (?st i)\<rparr>"
    have ans: "?ans i = Some ho" by (simp add: answers_def running_tasks_def st A ho_def)
    have mem: "(?tok, i) \<in> set ?ho" using get ans sane st by (simp add: registry_ok_snd(2) [OF reg] handed_over_def)
    then have mj: "(?tok, i, rec) \<in> set (same_numbers (fl_srv f) recs)" unfolding json by (force simp: record_of_def ans rec_def)
    have dots: "\<forall>rf \<in> set (ho_fds (the (?ans (snd e)))). CHR ''.'' \<notin> set (fst rf)" if "e \<in> set ?ho" for e
      using answers_roles that by (auto simp: handed_over_def)
    have "fds_by_token stored ?tok = map_of (rev (ho_fds ho))"
      using fds_by_token_all [OF _ mem, of ?ans] dots d by (simp add: all(1) ans distinct_map_filter)
    moreover have "fds_by_token (map (\<lambda>(role, fd). (fd_name ?tok role, fd)) (ho_fds ho)) ?tok = map_of (rev (ho_fds ho))"
      using fds_by_token_all [of "[(?tok, 0)]" "(?tok, 0)" "\<lambda>_. Some ho"] dots [OF mem] ans by (simp add: fds_of_def)
    moreover obtain io where io: "restore_io re (fds_by_token stored ?tok) rec = Inr io" using restore_io_total [OF assms(2)] by blast
    moreover have "registry_get ?tok (srv_registry srv) = Some i" "srv_store srv i = restore_session (re_now re) rec"
      "srv_tasks srv i = Some (restore_task io rec)"
      using restore_loop_ok [OF assms(2) dj mj io, of "left_behind (fl_srv f)"] loop by simp_all
    ultimately show ?thesis using st get A
      by (simp add: own_def narrow_def restart_act_def detach_users_def registry_get_def Let_def
          ho_def [symmetric] rec_def [symmetric])
  next
    case False
    have no: "(t, i) \<notin> set ?ho" for t
    proof
      assume "(t, i) \<in> set ?ho"
      then have "registry_get t ?r = Some i" "?ans i \<noteq> None" by (simp_all add: registry_ok_snd(2) [OF reg] handed_over_def)
      with False run reg show False by (auto simp: registry_ok_def)
    qed
    have "?tok \<notin> fst ` set (same_numbers (fl_srv f) recs)"
    proof
      assume "?tok \<in> fst ` set (same_numbers (fl_srv f) recs)"
      then obtain j where "(?tok, j) \<in> set ?ho" by (auto simp: json)
      moreover from this have "j = i" using own_entry [OF reg assms(3), of j] by (simp add: registry_ok_snd(2) [OF reg])
      ultimately show False using no by blast
    qed
    moreover have "i \<notin> (fst \<circ> snd) ` set (same_numbers (fl_srv f) recs)" using no by (auto simp: json)
    ultimately show ?thesis using restore_loop_gone(1) [OF loop, of ?tok] restore_loop_gone(2) [OF loop, of i] False
      by (auto simp: own_def narrow_def restart_act_def detach_users_def registry_get_def Let_def)
  qed
qed

lemma restart_moves:
  assumes "fleet_ok f" "restore_env_ok re"
    and "handover_sessions (answers (running_tasks A (fl_srv f))) None (fl_srv f) = (Inr stored, Some recs, old)"
    and "restore_sessions re stored (Some (Inr (same_numbers (fl_srv f) recs))) (left_behind (fl_srv f)) = (Inr (), srv)"
  shows "registry_ok (f\<lparr>fl_srv := srv, fl_user := detach_users (fl_user f)\<rparr>)
    \<and> moves f (f\<lparr>fl_srv := srv, fl_user := detach_users (fl_user f)\<rparr>)"
proof -
  have reg: "registry_ok f" using assms(1) by (simp add: fleet_ok_def)
  let ?json = "same_numbers (fl_srv f) recs"
  have loop: "restore_loop re stored ?json (left_behind (fl_srv f)) = (Inr (), srv)"
    using assms(4) by (simp add: restore_sessions_def)
  note json = same_numbers_eq [OF reg assms(3)]
  have dj: "distinct (map fst ?json)" "distinct (map (fst \<circ> snd) ?json)"
    using reg registry_ok_snd(1) [OF reg] by (simp_all add: json comp_def distinct_map_filter registry_ok_def)
  have old: "registry_get t (srv_registry (fl_srv f)) = Some j" if "registry_get t (srv_registry srv) = Some j" for t j
  proof -
    have "t \<in> fst ` set ?json" using restore_loop_gone(1) [OF loop, of t] that by auto
    then obtain k rec where m: "(t, k, rec) \<in> set ?json" by force
    obtain io where "restore_io re (fds_by_token stored t) rec = Inr io" using restore_io_total [OF assms(2)] by blast
    from restore_loop_ok [OF assms(2) dj m this, of "left_behind (fl_srv f)"] loop that have "k = j" by simp
    with m show ?thesis by (auto simp: json registry_ok_snd(2) [OF reg])
  qed
  have "distinct (map fst (srv_registry srv))"
    by (rule restore_loop_distinct [OF loop]) (simp add: left_behind_def no_sessions_def)
  then have "registry_ok (f\<lparr>fl_srv := srv, fl_user := detach_users (fl_user f)\<rparr>)"
    by (intro registry_ok_shrink [OF reg]) (simp_all add: old)
  moreover have "moves f (f\<lparr>fl_srv := srv, fl_user := detach_users (fl_user f)\<rparr>)"
    unfolding moves_def using fleet_restart_session [OF assms(1,2) _ assms(3,4)] step.Restart [OF assms(2)] by simp
  ultimately show ?thesis by blast
qed

text \<open>A new client finds a new session, and the others do not notice.\<close>

lemma exec_session_Inr:
  assumes "exec_session hub spawn vars user now shell session_env command resumable agent = Inr sp"
    and "gives_pipes spawn"
  shows "\<exists>io. sp_session sp = fresh_session now resumable agent \<and> sp_task sp = session_task_start io (ses_shared (sp_session sp))
    \<and> io_stdin io \<noteq> None \<and> io_exit_code io = None"
  using assms by (auto simp: exec_session_def start_session_def and_then_def gives_pipes_def Let_def split: if_splits sum.splits)

lemma arrive_moves:
  assumes "fleet_ok f" "token \<notin> fl_token f ` {..<fl_next f}"
    and "handle_request (exec_session hub spawn vars user now shell session_env) token (fl_next f) (start_request tgt command client_init)
      (fl_srv f) = (sends, HandshakeAttach tok i k, srv)"
    and "gives_pipes spawn"
  shows "fleet_ok (fleet_arrive now tgt command tok i srv f) \<and> moves f (fleet_arrive now tgt command tok i srv f)"
proof -
  let ?n = "fl_next f" and ?agent = "tgt_agent_socket tgt \<noteq> None" and ?f = "fleet_arrive now tgt command tok i srv f"
  have reg: "registry_ok f" using assms(1) by (simp add: fleet_ok_def)
  have req: "start_request tgt command client_init = Exec command True ?agent" by (simp add: start_request_def client_init_def)
  obtain sp where sp: "exec_session hub spawn vars user now shell session_env command True ?agent = Inr sp" "tok = token" "i = ?n"
    "srv = (fl_srv f)\<lparr>srv_registry := registry_insert token ?n (srv_registry (fl_srv f)),
       srv_store := (srv_store (fl_srv f))(?n := sp_session sp), srv_tasks := (srv_tasks (fl_srv f))(?n := Some (sp_task sp))\<rparr>"
    using assms(3) by (auto simp: req handle_request_def split: sum.splits)
  from exec_session_Inr [OF sp(1) assms(4)] obtain io where io: "sp_session sp = fresh_session now True ?agent"
    "sp_task sp = session_task_start io (ses_shared (sp_session sp))" "io_stdin io \<noteq> None" "io_exit_code io = None" by blast
  have new: "registry_get token (srv_registry (fl_srv f)) = None"
    using assms(2) reg by (cases "registry_get token (srv_registry (fl_srv f))") (auto simp: registry_ok_def)
  have "session_of i ?f = sys_init token io ?agent now"
    using io(1,2) by (simp add: own_def narrow_def fleet_arrive_def new_user_def set_session_def sys_init_def sp started_message_def
        fresh_session_def Let_def)
  then have first: "reachable token tgt command (session_of i ?f)" using reachable.Init [OF io(3,4)] by simp
  have tok: "fl_token ?f j = (if j = ?n then token else fl_token f j)" for j by (simp add: fleet_arrive_def sp(2,3))
  have "registry_ok ?f"
    using reg assms(2) new
    by (auto simp: registry_ok_def fleet_arrive_def set_session_def sp registry_distinct inj_on_def less_Suc_eq)
  moreover have same: "session_of j ?f = session_of j f" if j: "j < ?n" for j
  proof -
    have "fl_token f j \<noteq> token" using assms(2) j by blast
    then show ?thesis using j by (intro session_of_other) (simp_all add: fleet_arrive_def set_session_def sp)
  qed
  moreover have "reachable (fl_token ?f j) (fl_target ?f j) (fl_command ?f j) (session_of j ?f)" if "j < Suc ?n" for j
  proof (cases "j = ?n")
    case True
    with first show ?thesis by (simp add: fleet_arrive_def sp(2,3))
  next
    case False
    with that have j: "j < ?n" by simp
    with same fleet_okD(1) [OF assms(1) j] False show ?thesis by (simp add: fleet_arrive_def sp(3))
  qed
  moreover have "fl_next ?f = Suc ?n" "fl_target ?f j = (if j = ?n then tgt else fl_target f j)"
    "fl_command ?f j = (if j = ?n then command else fl_command f j)" for j by (simp_all add: fleet_arrive_def sp(3))
  ultimately show ?thesis by (simp add: fleet_ok_def moves_def tok)
qed

lemma fleet_step_moves: "fleet_step f f' \<Longrightarrow> fleet_ok f \<Longrightarrow> fleet_ok f' \<and> moves f f'"
proof (induction rule: fleet_step.induct)
  case (Session i f s')
  then show ?case using session_moves fleet_ok_moves put_simps(4) by metis
next
  case (Accept i f c req start token now)
  then show ?case using accept_moves fleet_ok_moves by metis
next
  case (Arrive hub spawn vars user now shell session_env token f tgt command sends tok i k srv)
  then show ?case using arrive_moves by blast
next
  case (Sweep j f)
  then show ?case using sweep_moves [of f j] by (auto intro: fleet_ok_moves)
next
  case (Restart re A f stored recs old srv)
  then show ?case using restart_moves [of f re A stored recs old srv] by (auto intro: fleet_ok_moves)
qed

lemma fleet_reach_ok: "fleet_reach f \<Longrightarrow> fleet_ok f"
proof (induction rule: fleet_reach.induct)
  case (Start f unused)
  then show ?case by (simp add: fleet_ok_def registry_ok_def no_sessions_def registry_get_def)
qed (simp add: fleet_step_moves)

section \<open>Property\<close>

text \<open>
  C4: A daemon that serves many clients gives each of them a pair of reliable pipes.  However the clients, their
  connections, the session tasks, new clients, the sweep and restarts of the whole daemon interleave, what
  every client and its command see is a run of the specification, and a step of anybody is matched by steps
  of that specification for every session: output is shown in order and once, input is given in order and
  once, and the exit code is reported only when all output was shown.  The session must have fewer than
  2^64 - 2 messages in each direction and no failed send of a freshly read chunk.
\<close>
theorem daemon_refines_pipes:
  assumes "fleet_reach f" "fleet_step f f'" "i < fl_next f" "within_bounds (session_of i f')"
  shows "spec_step\<^sup>*\<^sup>* pipes_init (pipes_of (session_of i f)) \<and> spec_step\<^sup>*\<^sup>* (pipes_of (session_of i f)) (pipes_of (session_of i f'))"
proof -
  note ok = fleet_reach_ok [OF assms(1)]
  obtain s0 where s0: "exec_start (fl_token f i) s0" "(step (fl_token f i) (fl_target f i) (fl_command f i))\<^sup>*\<^sup>* s0 (session_of i f)"
    using fleet_okD(1) [OF ok assms(3)] reachable_run by blast
  have "session_of i f' = session_of i f \<or> step (fl_token f i) (fl_target f i) (fl_command f i) (session_of i f) (session_of i f')"
    using fleet_step_moves [OF assms(2) ok] assms(3) by (auto simp: moves_def)
  then show ?thesis
  proof
    assume "session_of i f' = session_of i f"
    with exec.abs_run [OF s0] assms(4) show ?thesis by simp
  next
    assume st: "step (fl_token f i) (fl_target f i) (fl_command f i) (session_of i f) (session_of i f')"
    have "within_bounds (session_of i f)" by (rule exec.within_back [OF st assms(4)])
    with exec.abs_run [OF s0] exec.abs_step [OF s0 st assms(4)] show ?thesis by blast
  qed
qed

definition demo_empty :: Fleet where
  "demo_empty =
     \<lparr>fl_srv = no_sessions (\<lambda>_. fresh_session 0 True False), fl_user = (\<lambda>_. new_user 0 (Started None)), fl_token = (\<lambda>_. []),
      fl_target = (\<lambda>_. demo_tgt), fl_command = (\<lambda>_. []), fl_next = 0\<rparr>"

definition demo_served :: "string \<Rightarrow> Fleet \<Rightarrow> ServerSend list \<times> Handshake \<times> Server" where
  "demo_served token f =
     handle_request (exec_session (Inr ''s'') (\<lambda>_ _. Inr demo_io) [] None 0 ''/bin/sh'' []) token (fl_next f)
       (start_request demo_tgt [] client_init) (fl_srv f)"

definition demo_join :: "string \<Rightarrow> Fleet \<Rightarrow> Fleet" where
  "demo_join token f = fleet_arrive 0 demo_tgt [] token (fl_next f) (snd (snd (demo_served token f))) f"

definition demo_both :: Fleet where
  "demo_both = demo_join ''u'' (demo_join ''t'' demo_empty)"

definition demo_read :: "sid \<Rightarrow> Fleet \<Rightarrow> Fleet" where
  "demo_read i f =
     put i (task_act \<lparr>env_write = WriteOk, env_fd_ok = (\<lambda>_. True)\<rparr> (StdoutRead (ReadOk [104])) (the (srv_tasks (fl_srv f) i)) (own i f)) f"

lemma demo_join_step: "token \<notin> fl_token f ` {..<fl_next f} \<Longrightarrow> fleet_step f (demo_join token f)"
  unfolding demo_join_def
  by (rule fleet_step.Arrive [where hub = "Inr ''s''" and spawn = "\<lambda>_ _. Inr demo_io" and vars = "[]" and user = None and now = 0
        and shell = "''/bin/sh''" and session_env = "[]" and token = token and sends = "[]" and k = 0])
    (simp_all add: demo_served_def handle_request_def start_request_def client_init_def demo_tgt_def Target_new_def exec_session_def start_session_def
      gives_pipes_def demo_io_def Let_def)

lemma demo_join_simps [simp]: "fl_next (demo_join token f) = Suc (fl_next f)" "fl_token (demo_join token f) = (fl_token f)(fl_next f := token)"
  by (simp_all add: demo_join_def fleet_arrive_def)

lemma demo_both_reach: "fleet_reach demo_both"
proof -
  have "fleet_reach demo_empty" by (rule fleet_reach.Start) (simp_all add: demo_empty_def)
  then have "fleet_reach (demo_join ''t'' demo_empty)" by (rule fleet_reach.Step) (simp add: demo_join_step demo_empty_def)
  then show ?thesis unfolding demo_both_def
    by (rule fleet_reach.Step) (rule demo_join_step, simp add: demo_empty_def lessThan_Suc)
qed

theorem daemon_refines_pipes_witness:
  "spec_step\<^sup>*\<^sup>* (pipes_of (session_of 0 demo_both)) (pipes_of (session_of 0 (demo_read 0 demo_both)))
   \<and> gh_out (session_of 0 (demo_read 0 demo_both)) = [104] \<and> fl_next demo_both = 2"
proof -
  note eval = demo_both_def demo_join_def demo_empty_def demo_served_def fleet_arrive_def handle_request_def start_request_def client_init_def demo_tgt_def
    Target_new_def exec_session_def start_session_def set_session_def no_sessions_def own_def narrow_def new_user_def Let_def
  have task: "srv_tasks (fl_srv demo_both) 0 = Some (session_task_start demo_io fresh_shared)"
    by (simp add: eval fresh_session_def)
  have n: "fl_next demo_both = 2" by (simp add: demo_both_def) (simp add: demo_empty_def)
  have st: "fleet_step demo_both (demo_read 0 demo_both)" unfolding demo_read_def
    by (rule fleet_step.Session) (simp add: n, rule session_step.Task, simp_all add: task own_def session_task_start_def)
  have own0: "ses_shared (sy_session (own 0 demo_both)) = fresh_shared" "gh_hist (own 0 demo_both) = []" "gh_out (own 0 demo_both) = []"
    "gh_reads (own 0 demo_both) = []" "\<not> gh_lost (own 0 demo_both)"
    by (simp_all add: eval fresh_session_def attach_enter_def AttachGuard_new_def guard_new_clear_def guard_new_count_def)
  let ?s = "session_of 0 (demo_read 0 demo_both)"
  have s: "gh_hist ?s = [Stdout 1 [104]]" "gh_out ?s = [104]" "gh_reads ?s = []" "\<not> gh_lost ?s"
    by (simp_all add: demo_read_def narrow_def task_act_def session_task_step_def task_exit_check_def task_log_def log_push_def task own0
        session_task_start_def demo_io_def OutboundLog_default_def log_subscribe_def Let_def)
  then have "within_bounds ?s" by (simp add: within_bounds_def)
  with daemon_refines_pipes [OF demo_both_reach st, of 0] n s show ?thesis by simp
qed

end
