(* ===== verification/ClientConn.thy ===== *)
theory ClientConn
  imports Client
begin

text \<open>
  The connection of the client (\<open>src/client/src/channel.rs\<close>): sending and receiving on it, and opening
  it, over QUIC if that is configured and works in time, otherwise over a WebSocket.  Receiving events
  is in Channel.

  The TLS configuration, the name lookup, the QUIC handshake and the WebSocket handshake are
  arguments: their errors, and how long an attempt takes.
\<close>

section \<open>Sending and receiving\<close>

text \<open>What a successful \<open>send\<close> puts on the wire; that the transport may refuse it is part of the events of the
  loops that send.\<close>

definition conn_send :: "('pe, 'ze, 't) codec \<Rightarrow> Transport \<Rightarrow> 't \<Rightarrow> ClientError + bytes" where
  "conn_send lib tr msg =
     (case tr of
        Ws \<Rightarrow> map_err (\<lambda>_. ClientProtocol) (encode lib msg)
      | Quic \<Rightarrow> map_err (\<lambda>_. ClientProtocol) (encode_frame lib msg))"

definition conn_send_duplicate :: "('pe, 'ze, ChannelMessage) codec \<Rightarrow> Transport \<Rightarrow> ChannelMessage \<Rightarrow> bytes option" where
  "conn_send_duplicate lib tr msg =
     (if tr = Ws then None
      else if \<not> worth_duplicating msg then None
      else case encode lib msg of Inl _ \<Rightarrow> None | Inr bs \<Rightarrow> Some bs)"

text \<open>\<open>recv\<close>, on the events in order; \<open>None\<close> while it waits.\<close>

fun conn_recv :: "('pe, 'ze, 't) codec \<Rightarrow> ConnEvent list \<Rightarrow> (ClientError + 't) option \<times> ConnEvent list" where
  "conn_recv lib [] = (None, [])"
| "conn_recv lib (ConnFrame bs # evs) = (Some (map_err (\<lambda>_. ClientProtocol) (decode lib bs)), evs)"
| "conn_recv lib (ConnDatagram _ # evs) = conn_recv lib evs"
| "conn_recv lib (Disconnected # evs) = (Some (Inl ConnectionClosed), evs)"

definition conn_needs_ping :: "Transport \<Rightarrow> bool" where
  "conn_needs_ping tr \<longleftrightarrow> tr = Ws"

text \<open>Whether \<open>ping\<close> puts something on the wire.\<close>

fun ping_sends :: "Transport \<Rightarrow> bool" where
  "ping_sends Ws = True"
| "ping_sends Quic = False"

section \<open>Dialling over QUIC\<close>

datatype SocketAddr = V4 string | V6 string

record QuicEnv =
  qe_tls :: "string option \<Rightarrow> ClientError option"
  qe_crypto :: "ClientError option"
  qe_idle :: "millis \<Rightarrow> ClientError option"
  qe_lookup :: "string \<Rightarrow> ClientError + SocketAddr list"
  qe_endpoint :: "SocketAddr \<Rightarrow> ClientError option"
  qe_connect :: "SocketAddr \<Rightarrow> string \<Rightarrow> ClientError option"
  qe_open_bi :: "ClientError option"

record QuicConn =
  qc_host :: string
  qc_remote :: SocketAddr
  qc_local :: SocketAddr
  qc_keep_alive :: millis
  qc_idle_timeout :: millis
  qc_decoder :: FrameDecoder

definition check :: "ClientError option \<Rightarrow> ClientError + unit" where
  "check e = (case e of Some err \<Rightarrow> Inl err | None \<Rightarrow> Inr ())"

fun local_addr_for :: "SocketAddr \<Rightarrow> SocketAddr" where
  "local_addr_for (V4 _) = V4 ''0.0.0.0:0''"
| "local_addr_for (V6 _) = V6 ''[::]:0''"

definition first_addr :: "SocketAddr list \<Rightarrow> ClientError + SocketAddr" where
  "first_addr addrs = (case addrs of [] \<Rightarrow> Inl ClientIo | a # _ \<Rightarrow> Inr a)"

definition connect_quic :: "QuicEnv \<Rightarrow> Target \<Rightarrow> string \<Rightarrow> ClientError + QuicConn" where
  "connect_quic env tgt addr =
     (case rsplit_once (CHR '':'') addr of
        None \<Rightarrow> Inl ClientIo
      | Some (host, _) \<Rightarrow>
          and_then (check (qe_tls env (tgt_quic_ca tgt))) (\<lambda>_.
          and_then (check (qe_crypto env)) (\<lambda>_.
          and_then (check (qe_idle env (tgt_keepalive_timeout tgt))) (\<lambda>_.
          and_then (and_then (qe_lookup env addr) first_addr) (\<lambda>remote.
          and_then (check (qe_endpoint env (local_addr_for remote))) (\<lambda>_.
          and_then (check (qe_connect env remote host)) (\<lambda>_.
          and_then (check (qe_open_bi env)) (\<lambda>_.
            Inr \<lparr>qc_host = host, qc_remote = remote, qc_local = local_addr_for remote,
                 qc_keep_alive = tgt_keepalive_interval tgt, qc_idle_timeout = tgt_keepalive_timeout tgt,
                 qc_decoder = FrameDecoder_new\<rparr>))))))))"

section \<open>Choosing the transport\<close>

text \<open>An attempt takes some time and then succeeds or fails.\<close>

type_synonym 'a attempt = "millis \<times> (ClientError + 'a)"

text \<open>\<open>tokio::time::timeout\<close>.\<close>

definition timeout :: "millis \<Rightarrow> 'a attempt \<Rightarrow> 'a attempt" where
  "timeout limit a = (if fst a < limit then a else (limit, Inl ConnectTimeout))"

definition connect_ws :: "QuicEnv \<Rightarrow> unit attempt \<Rightarrow> Transport attempt" where
  "connect_ws env ws =
     (case qe_tls env None of
        Some e \<Rightarrow> (0, Inl e)
      | None \<Rightarrow> (fst ws, and_then (snd ws) (\<lambda>_. Inr Ws)))"

text \<open>\<open>Conn::connect\<close>: the transport in use, and when.  \<open>t\<close> is how long the QUIC attempt takes.\<close>

definition connect :: "QuicEnv \<Rightarrow> Target \<Rightarrow> millis \<Rightarrow> unit attempt \<Rightarrow> Transport attempt" where
  "connect env tgt t ws =
     (case tgt_quic_addr tgt of
        None \<Rightarrow> connect_ws env ws
      | Some addr \<Rightarrow>
          (case timeout (tgt_connect_timeout tgt div 2) (t, connect_quic env tgt addr) of
             (t', Inr _) \<Rightarrow> (t', Inr Quic)
           | (t', Inl _) \<Rightarrow> (t' + fst (connect_ws env ws), snd (connect_ws env ws))))"

section \<open>Laws\<close>

lemma timeout_bound: "fst (timeout limit a) \<le> limit"
  by (auto simp: timeout_def)

text \<open>Both ends put the same bytes on the wire.\<close>

lemma conn_send_eq: "conn_send lib tr m = Inr w \<longleftrightarrow> channel_send lib tr m = Inr w"
  by (cases tr; cases "encode lib m"; cases "encode_frame lib m") (simp_all add: conn_send_def channel_send_def map_err_def)

lemma conn_send_quic: "conn_send lib Quic m = Inr w \<longleftrightarrow> encode_frame lib m = Inr w"
  by (cases "encode_frame lib m") (simp_all add: conn_send_def map_err_def)

text \<open>The handshake returns the first frame, whatever datagrams come before it.\<close>

lemma conn_recv_first:
  assumes "list_all (\<lambda>e. \<exists>b. e = ConnDatagram b) ds" "decode lib bs = Inr m"
  shows "conn_recv lib (ds @ ConnFrame bs # evs) = (Some (Inr m), evs)"
  using assms by (induction ds) (auto simp: map_err_def)

section \<open>Properties\<close>

text \<open>
  C23: Over QUIC the server gets exactly the messages the client sends, if their bodies are below \<open>MAX_FRAME\<close>.  However the stream is cut into
  chunks and whatever datagrams arrive in between, reading the channel until it waits returns frames
  that decode to the messages sent, once and in order, and the datagrams, and leaves nothing behind.
\<close>
theorem quic_messages_exact:
  assumes "list_all2 (\<lambda>m b. codec_ok lib m \<and> to_stdvec lib m = Inr b \<and> length b < MAX_FRAME) msgs bodies"
    and "list_all2 (\<lambda>m w. conn_send lib Quic m = Inr w) msgs wires"
    and "list_all is_data items" "concat (map item_chunk items) = concat wires"
    and "length msgs + length (item_datagrams items) < n"
  shows "\<exists>evs. next_loop n FrameDecoder_new items = (evs, FrameDecoder_new, [])
      \<and> map (decode lib) (event_frames evs) = map Inr msgs \<and> event_datagrams evs = item_datagrams items"
proof -
  have "list_all2 (\<lambda>m w. encode_frame lib m = Inr w) msgs wires" using assms(2) by (simp add: conn_send_quic)
  then obtain frames where f: "wires = map frame_of frames" "\<forall>f\<in>set frames. length f \<le> MAX_FRAME" "map (decode lib) frames = map Inr msgs"
    using wires_frames [OF assms(1)] by blast
  have "length frames = length msgs" using arg_cong [OF f(3), of length] by simp
  with quic_channel_exact [OF assms(3) _ f(2), of n] assms(4,5) f(1,3) show ?thesis by auto
qed

theorem quic_messages_exact_witness:
  "\<exists>evs. next_loop 4 FrameDecoder_new [QChunk [0, 0, 0], QDatagram [9], QChunk [2, 0, 5, 0, 0, 0, 1, 0]] = (evs, FrameDecoder_new, [])
     \<and> map (decode run_codec) (event_frames evs) = map Inr [[5], []]"
proof -
  let ?items = "[QChunk [0, 0, 0], QDatagram [9], QChunk [2, 0, 5, 0, 0, 0, 1, 0]]"
  have "list_all2 (\<lambda>m b. codec_ok run_codec m \<and> to_stdvec run_codec m = Inr b \<and> length b < MAX_FRAME) [[5], []] [[5], []]"
    by (simp add: run_codec_ok) (simp add: run_codec_def MAX_FRAME_def)
  moreover have "list_all2 (\<lambda>m w. conn_send run_codec Quic m = Inr w) [[5], []] [[0, 0, 0, 2, 0, 5], [0, 0, 0, 1, 0]]"
    by (simp add: conn_send_quic encode_frame_def encode_def encode_payload_def run_codec_def frame_of_def to_be_bytes_def
        COMPRESS_MIN_def ENC_RAW_def map_err_def)
  ultimately show ?thesis using quic_messages_exact [of run_codec "[[5], []]" "[[5], []]" _ ?items 4] by fastforce
qed

text \<open>
  C33: A blocked QUIC path does not prevent a connection.  Whatever the QUIC attempt does and however
  long it takes, if the WebSocket can be opened in half of the connect timeout, then the client
  has a connection before the timeout of the whole attempt.
\<close>
theorem quic_fallback_in_budget:
  assumes "qe_tls env None = None" "snd ws = Inr ()" "fst ws \<le> tgt_connect_timeout tgt div 2"
  shows "fst (connect env tgt t ws) \<le> tgt_connect_timeout tgt \<and> (\<exists>tr. snd (connect env tgt t ws) = Inr tr)"
proof (cases "tgt_quic_addr tgt")
  case None
  with assms show ?thesis by (simp add: connect_def connect_ws_def)
next
  case (Some addr)
  let ?q = "timeout (tgt_connect_timeout tgt div 2) (t, connect_quic env tgt addr)"
  have "fst ?q \<le> tgt_connect_timeout tgt div 2" by (rule timeout_bound)
  with assms Some show ?thesis by (cases ?q; cases "snd ?q") (auto simp: connect_def connect_ws_def)
qed

theorem quic_fallback_in_budget_witness:
  "\<exists>env t. snd (connect env ((Target_new ''u'' (StaticToken ''x''))\<lparr>tgt_quic_addr := Some ''h:1''\<rparr>) t (100, Inr ())) \<noteq> Inl ConnectTimeout
   \<and> fst (connect env ((Target_new ''u'' (StaticToken ''x''))\<lparr>tgt_quic_addr := Some ''h:1''\<rparr>) t (100, Inr ())) \<le> 10000 \<and> t = 9000"
proof -
  let ?t = "(Target_new ''u'' (StaticToken ''x''))\<lparr>tgt_quic_addr := Some ''h:1''\<rparr>"
  let ?e = "\<lparr>qe_tls = \<lambda>_. None, qe_crypto = None, qe_idle = \<lambda>_. None, qe_lookup = \<lambda>_. Inr [V4 ''1.2.3.4:1''], qe_endpoint = \<lambda>_. None,
     qe_connect = \<lambda>_ _. None, qe_open_bi = None\<rparr>"
  have "snd (100 :: millis, Inr () :: ClientError + unit) = Inr ()"
    "fst (100 :: millis, Inr () :: ClientError + unit) \<le> tgt_connect_timeout ?t div 2" "qe_tls ?e None = None"
    "tgt_connect_timeout ?t = 10000"
    by (simp_all add: Target_new_def)
  from quic_fallback_in_budget [OF this(3,1,2), of 9000] this(4) show ?thesis
    by (intro exI [of _ ?e] exI [of _ 9000]) auto
qed

end
