(* ===== verification/TlsQuic.thy ===== *)
theory TlsQuic
  imports ServerRun ClientConn
begin

text \<open>
  How both ends set up TLS and QUIC (\<open>src/client/src/tls.rs\<close>, \<open>src/server/src/quic.rs\<close>), and the rest of
  building a \<open>Server\<close> and of accepting QUIC connections (\<open>src/server/src/lib.rs\<close>).

  The certificate stores, PEM parsers, \<open>rustls\<close> and \<open>quinn\<close> are parameters: what they return is the field
  of a record.  Certificates are their bytes.
\<close>

section \<open>Trust anchors of the client\<close>

record 'store TlsEnv =
  tls_var_set :: "string \<Rightarrow> bool" \<comment> \<open>whether an environment variable is set\<close>
  tls_probed_file :: "string option"
  tls_load_file :: "string \<Rightarrow> bytes list"
  tls_load_native :: "bytes list"
  tls_empty :: 'store
  tls_add :: "bytes \<Rightarrow> 'store \<Rightarrow> 'store option"
  tls_pem :: "string \<Rightarrow> (bytes option) list option" \<comment> \<open>the entries of a PEM file, each may be broken\<close>

definition native_certs :: "'store TlsEnv \<Rightarrow> bytes list" where
  "native_certs env =
     (let explicit = list_ex (tls_var_set env) [''SSL_CERT_FILE'', ''SSL_CERT_DIR'']
      in case tls_probed_file env of
           Some path \<Rightarrow> if \<not> explicit then tls_load_file env path else tls_load_native env
         | None \<Rightarrow> tls_load_native env)"

text \<open>The loop over the certificates: each one once, one that the store refuses is skipped.\<close>

fun add_roots :: "'store TlsEnv \<Rightarrow> bytes list \<Rightarrow> bytes set \<Rightarrow> 'store \<Rightarrow> 'store" where
  "add_roots env [] seen roots = roots"
| "add_roots env (cert # certs) seen roots =
     (if cert \<in> seen then add_roots env certs seen roots
      else add_roots env certs (insert cert seen)
             (case tls_add env cert roots of Some roots' \<Rightarrow> roots' | None \<Rightarrow> roots))"

text \<open>\<open>OnceLock\<close>: the first call fills it.\<close>

definition native_roots :: "'store TlsEnv \<Rightarrow> 'store option \<Rightarrow> 'store \<times> 'store option" where
  "native_roots env once =
     (case once of
        Some roots \<Rightarrow> (roots, once)
      | None \<Rightarrow> (let roots = add_roots env (native_certs env) {} (tls_empty env) in (roots, Some roots)))"

text \<open>The certificates of the extra CA file: here a broken entry or a refused certificate is an error.\<close>

fun add_extra :: "'store TlsEnv \<Rightarrow> (bytes option) list \<Rightarrow> 'store \<Rightarrow> ClientError + 'store" where
  "add_extra env [] roots = Inr roots"
| "add_extra env (None # certs) roots = Inl ClientIo"
| "add_extra env (Some cert # certs) roots =
     (case tls_add env cert roots of None \<Rightarrow> Inl ClientIo | Some roots' \<Rightarrow> add_extra env certs roots')"

definition client_config ::
  "'store TlsEnv \<Rightarrow> string option \<Rightarrow> 'store option \<Rightarrow> (ClientError + 'store) \<times> 'store option" where
  "client_config env extra_ca once =
     (case native_roots env once of
        (roots, once') \<Rightarrow>
          (case extra_ca of
             None \<Rightarrow> (Inr roots, once')
           | Some path \<Rightarrow>
               (case tls_pem env path of
                  None \<Rightarrow> (Inl ClientIo, once')
                | Some certs \<Rightarrow> (add_extra env certs roots, once'))))"

definition http_client :: "'store TlsEnv \<Rightarrow> bool \<Rightarrow> 'store option \<Rightarrow> (ClientError + 'store) \<times> 'store option" where
  "http_client env builds once =
     (case client_config env None once of
        (r, once') \<Rightarrow> (and_then r (\<lambda>roots. if builds then Inr roots else Inl ClientIo), once'))"

section \<open>The QUIC listener of the server\<close>

text \<open>Which inherited socket is the one for QUIC: \<open>getsockopt(SO_TYPE)\<close> says so, and a descriptor without an answer is not.\<close>

datatype SockType = StreamSocket | DatagramSocket | OtherSocket

definition is_datagram :: "(fd \<Rightarrow> ServerError + SockType) \<Rightarrow> fd \<Rightarrow> bool" where
  "is_datagram getsockopt fd = (case getsockopt fd of Inr kind \<Rightarrow> kind = DatagramSocket | Inl _ \<Rightarrow> False)"

definition KEEP_ALIVE_INTERVAL :: millis where "KEEP_ALIVE_INTERVAL = 15 * 1000"
definition IDLE_TIMEOUT :: millis where "IDLE_TIMEOUT = 45 * 1000"
definition INITIAL_RTT :: millis where "INITIAL_RTT = 100"

record QuicSettings =
  qs_alpn :: "string list"
  qs_keep_alive :: millis
  qs_initial_rtt :: millis
  qs_idle_timeout :: millis

record QuicListenEnv =
  ql_certs :: "string \<Rightarrow> (bytes option) list option"
  ql_key :: "string \<Rightarrow> bytes option"
  ql_single_cert :: "bytes list \<Rightarrow> bytes \<Rightarrow> bool"
  ql_crypto :: bool
  ql_server :: "string \<Rightarrow> ServerError option"
  ql_nonblocking :: "ServerError option"
  ql_runtime :: bool
  ql_inherited :: "ServerError option"

text \<open>\<open>collect::<Result<Vec<_>, _>>()\<close>: all or nothing.\<close>

definition collect_certs :: "(bytes option) list option \<Rightarrow> ServerError + bytes list" where
  "collect_certs certs =
     (case certs of
        None \<Rightarrow> Inl Io
      | Some cs \<Rightarrow> if None \<in> set cs then Inl Io else Inr (map the cs))"

text \<open>The idle timeout fits into a QUIC integer of 62 bits.\<close>

definition quic_settings :: "ServerError + QuicSettings" where
  "quic_settings =
     (if IDLE_TIMEOUT < 2 ^ 62
      then Inr \<lparr>qs_alpn = [PROTOCOL], qs_keep_alive = KEEP_ALIVE_INTERVAL, qs_initial_rtt = INITIAL_RTT, qs_idle_timeout = IDLE_TIMEOUT\<rparr>
      else Inl Io)"

definition open_endpoint :: "QuicListenEnv \<Rightarrow> ListenOn \<Rightarrow> ServerError option" where
  "open_endpoint env socket =
     (case socket of
        BindTo addr \<Rightarrow> ql_server env addr
      | Inherited _ \<Rightarrow>
          (case ql_nonblocking env of
             Some e \<Rightarrow> Some e
           | None \<Rightarrow> if ql_runtime env then ql_inherited env else Some Io))"

definition listen :: "QuicListenEnv \<Rightarrow> ListenOn \<Rightarrow> string \<Rightarrow> string \<Rightarrow> ServerError + QuicSettings" where
  "listen env socket cert_pem key_pem =
     and_then (collect_certs (ql_certs env cert_pem)) (\<lambda>certs.
     and_then (case ql_key env key_pem of Some k \<Rightarrow> Inr k | None \<Rightarrow> Inl Io) (\<lambda>key.
     and_then (if ql_single_cert env certs key \<and> ql_crypto env then Inr () else Inl Io) (\<lambda>_.
     and_then quic_settings (\<lambda>settings.
       case open_endpoint env socket of Some e \<Rightarrow> Inl e | None \<Rightarrow> Inr settings))))"

section \<open>Building a server\<close>

text \<open>\<open>Server::bind\<close> and \<open>Server::from_std_listener\<close>, on the results of opening and of converting the socket.\<close>

definition bind ::
  "store \<Rightarrow> (string \<Rightarrow> ServerError option) \<Rightarrow> ServerError option \<Rightarrow> string \<Rightarrow> Auth \<Rightarrow> string \<Rightarrow> ServerError + Daemon" where
  "bind unused tcp local_addr addr auth shell =
     (case tcp addr of Some e \<Rightarrow> Inl e | None \<Rightarrow> with_listener unused local_addr (BindTo addr) auth shell)"

definition from_std_listener ::
  "store \<Rightarrow> ServerError option \<Rightarrow> ServerError option \<Rightarrow> ServerError option \<Rightarrow> fd \<Rightarrow> Auth \<Rightarrow> string \<Rightarrow> ServerError + Daemon" where
  "from_std_listener unused nonblocking from_std local_addr fd auth shell =
     (case nonblocking of
        Some e \<Rightarrow> Inl e
      | None \<Rightarrow>
          (case from_std of
             Some e \<Rightarrow> Inl e
           | None \<Rightarrow> with_listener unused local_addr (Inherited fd) auth shell))"

definition set_session_env :: "env \<Rightarrow> Daemon \<Rightarrow> Daemon" where
  "set_session_env vars d = d\<lparr>d_session_env := vars\<rparr>"

text \<open>\<open>listen\<close> and asking the endpoint for its address, as \<open>enable_quic_endpoint\<close> does.\<close>

definition quic_listen_error :: "QuicListenEnv \<Rightarrow> ServerError option \<Rightarrow> ListenOn \<Rightarrow> string \<times> string \<Rightarrow> ServerError option" where
  "quic_listen_error env local_addr socket files =
     (case listen env socket (fst files) (snd files) of Inl e \<Rightarrow> Some e | Inr _ \<Rightarrow> local_addr)"

definition enable_quic ::
  "QuicListenEnv \<Rightarrow> ServerError option \<Rightarrow> string \<Rightarrow> string \<times> string \<Rightarrow> Daemon \<Rightarrow> ServerError + Daemon" where
  "enable_quic env local_addr addr files d =
     enable_quic_endpoint (quic_listen_error env local_addr (BindTo addr) files) (BindTo addr) d"

definition enable_quic_from_socket ::
  "QuicListenEnv \<Rightarrow> ServerError option \<Rightarrow> fd \<Rightarrow> string \<times> string \<Rightarrow> Daemon \<Rightarrow> ServerError + Daemon" where
  "enable_quic_from_socket env local_addr fd files d =
     enable_quic_endpoint (quic_listen_error env local_addr (Inherited fd) files) (Inherited fd) d"

definition quic_addr :: "(ListenOn \<Rightarrow> ServerError + string) \<Rightarrow> Daemon \<Rightarrow> string option" where
  "quic_addr local_addr d =
     (case d_quic d of None \<Rightarrow> None | Some socket \<Rightarrow> (case local_addr socket of Inr a \<Rightarrow> Some a | Inl _ \<Rightarrow> None))"

definition local_addr :: "(ListenOn \<Rightarrow> ServerError + string) \<Rightarrow> Daemon \<Rightarrow> ServerError + string" where
  "local_addr addr_of d = addr_of (d_listener d)"

section \<open>Connections over QUIC\<close>

text \<open>An incoming connection ends its handshake and opens its stream, or not.  \<open>IncomingEnd\<close> is the end of the
  endpoint.\<close>

datatype Incoming = Incoming bool bool | IncomingEnd

text \<open>\<open>serve_quic\<close>: how many channels are handed to \<open>handle_channel\<close>, and whether the loop ended.\<close>

fun serve_quic :: "Incoming list \<Rightarrow> nat \<times> bool" where
  "serve_quic [] = (0, False)"
| "serve_quic (Incoming handshake accept_bi # rest) =
     (case serve_quic rest of (n, ended) \<Rightarrow> (if handshake \<and> accept_bi then Suc n else n, ended))"
| "serve_quic (IncomingEnd # rest) = (0, True)"

text \<open>\<open>handle_channel\<close>: a connection of either transport runs with the configuration of the server.  \<open>start\<close> starts a
  session with a shell and extra variables, \<open>check\<close> is the verification of a token.\<close>

definition handle_channel ::
  "(Auth \<Rightarrow> string \<Rightarrow> AuthError + unit) \<Rightarrow> Welcome \<Rightarrow>
   (string option \<Rightarrow> string \<Rightarrow> env \<Rightarrow> string \<Rightarrow> bool \<Rightarrow> bool \<Rightarrow> ServerError + Spawned) \<Rightarrow> string \<Rightarrow> sid \<Rightarrow>
   ServerError + Hello \<Rightarrow> ServerError option \<Rightarrow> ServerError + ExecRequest \<Rightarrow> Daemon \<Rightarrow> ServerSend list \<times> Handshake \<times> Daemon" where
  "handle_channel verify_token welcome start token new_sid hello send_fails request d =
     (case handle_connection (verify_token (d_auth d)) welcome (start (d_agent_dir d) (d_shell d) (d_session_env d)) token new_sid
             hello send_fails request (d_server d) of
        (sends, handshake, srv) \<Rightarrow> (sends, handshake, d\<lparr>d_server := srv\<rparr>))"

text \<open>The end of a channel: a WebSocket says goodbye, a stream is finished; errors are ignored.\<close>

datatype ChannelClose = WsCloseFrame | QuicFinish

fun channel_close :: "Transport \<Rightarrow> ChannelClose" where
  "channel_close Ws = WsCloseFrame"
| "channel_close Quic = QuicFinish"

definition channel_ping :: "Transport \<Rightarrow> ServerError option \<Rightarrow> bool \<times> (ServerError + unit)" where
  "channel_ping tr fails =
     (case tr of
        Ws \<Rightarrow> (case fails of Some e \<Rightarrow> (False, Inl e) | None \<Rightarrow> (True, Inr ()))
      | Quic \<Rightarrow> (False, Inr ()))"


section \<open>Laws\<close>

text \<open>What the certificate store promises: it accepts the certificates it can parse, whatever it holds, and then
  trusts them.\<close>

definition store_laws :: "'store TlsEnv \<Rightarrow> ('store \<Rightarrow> bytes set) \<Rightarrow> (bytes \<Rightarrow> bool) \<Rightarrow> bool" where
  "store_laws env trusted parses \<longleftrightarrow>
     trusted (tls_empty env) = {}
   \<and> (\<forall>c roots. case tls_add env c roots of
        Some roots' \<Rightarrow> parses c \<and> trusted roots' = insert c (trusted roots)
      | None \<Rightarrow> \<not> parses c)"

lemma store_lawsD:
  assumes "store_laws env trusted parses"
  shows "parses c \<Longrightarrow> \<exists>roots'. tls_add env c roots = Some roots' \<and> trusted roots' = insert c (trusted roots)"
    and "\<not> parses c \<Longrightarrow> tls_add env c roots = None"
proof -
  have "case tls_add env c roots of Some r \<Rightarrow> parses c \<and> trusted r = insert c (trusted roots) | None \<Rightarrow> \<not> parses c"
    using assms by (simp add: store_laws_def)
  then show "parses c \<Longrightarrow> \<exists>roots'. tls_add env c roots = Some roots' \<and> trusted roots' = insert c (trusted roots)"
    "\<not> parses c \<Longrightarrow> tls_add env c roots = None" by (auto split: option.splits)
qed

lemma add_roots_trusted:
  assumes "store_laws env trusted parses" "\<forall>c \<in> seen. parses c \<longrightarrow> c \<in> trusted roots"
  shows "trusted (add_roots env certs seen roots) = trusted roots \<union> {c \<in> set certs. parses c}"
  using assms(2)
proof (induction certs arbitrary: seen roots)
  case (Cons c certs)
  show ?case
  proof (cases "c \<in> seen")
    case True
    with Cons show ?thesis by auto
  next
    case False
    show ?thesis
    proof (cases "parses c")
      case True
      then obtain r' where "tls_add env c roots = Some r'" "trusted r' = insert c (trusted roots)"
        using store_lawsD(1) [OF assms(1)] by blast
      with False True Cons.IH [of "insert c seen" r'] Cons.prems show ?thesis by auto
    next
      case False
      with Cons.IH [of "insert c seen" roots] Cons.prems store_lawsD(2) [OF assms(1)] \<open>c \<notin> seen\<close> show ?thesis by auto
    qed
  qed
qed simp

lemma add_extra_trusted:
  assumes "store_laws env trusted parses"
  shows "if \<forall>c \<in> set certs. \<exists>b. c = Some b \<and> parses b
     then \<exists>roots'. add_extra env certs roots = Inr roots' \<and> trusted roots' = trusted roots \<union> {b. Some b \<in> set certs}
     else add_extra env certs roots = Inl ClientIo"
proof (induction certs arbitrary: roots)
  case (Cons c certs)
  show ?case
  proof (cases "\<exists>b. c = Some b \<and> parses b")
    case True
    then obtain b where b: "c = Some b" "parses b" by blast
    then obtain r' where r': "tls_add env b roots = Some r'" "trusted r' = insert b (trusted roots)"
      using store_lawsD(1) [OF assms] by blast
    show ?thesis using Cons.IH [of r'] b r' by (auto split: if_splits)
  next
    case False
    then show ?thesis using store_lawsD(2) [OF assms] by (cases c) auto
  qed
qed simp

text \<open>Starting with \<open>--quic-cert\<close> is \<open>enable_quic\<close> on the address or on the inherited socket.\<close>

lemma boot_quic_enable:
  assumes "be_quic env = quic_listen_error qenv la"
  shows "sc_quic cfg = Some (Inherited fd, files) \<Longrightarrow> boot_quic env cfg d = enable_quic_from_socket qenv la fd files d"
    and "sc_quic cfg = Some (BindTo addr, files) \<Longrightarrow>
      boot_quic env cfg d = (if be_parse_addr env addr then enable_quic qenv la addr files d else Inl Io)"
  using assms by (simp_all add: boot_quic_def enable_quic_def enable_quic_from_socket_def)

lemma boot_listener_open:
  "sc_listen cfg = BindTo addr \<Longrightarrow>
     boot_listener env cfg shell = bind (be_unused env) (\<lambda>a. be_open env (BindTo a)) (be_local_addr env) addr (sc_auth cfg) shell"
  "sc_listen cfg = Inherited fd \<Longrightarrow>
     boot_listener env cfg shell = from_std_listener (be_unused env) None (be_open env (Inherited fd)) (be_local_addr env) fd (sc_auth cfg) shell"
  by (simp_all add: boot_listener_def bind_def from_std_listener_def split: option.split)

text \<open>A failing handshake is that connection's affair: the loop serves the others.\<close>

lemma serve_quic_goes_on:
  "serve_quic (map (\<lambda>(h, b). Incoming h b) xs @ rest) =
     (length (filter (\<lambda>(h, b). h \<and> b) xs) + fst (serve_quic rest), snd (serve_quic rest))"
  by (induction xs) (auto split: prod.splits)

text \<open>QUIC takes the smaller idle timeout of both ends; with the defaults of the client a connection that carries
  no traffic is kept by the keep-alives of either end, and both ends speak the same protocol.\<close>

lemma quic_idle_connection_kept:
  assumes "listen env socket cert key = Inr s" "connect_quic cenv tgt addr = Inr c" "IDLE_TIMEOUT div 3 < tgt_keepalive_timeout tgt"
  shows "qs_keep_alive s < min (qs_idle_timeout s) (qc_idle_timeout c) \<and> qs_alpn s = [PROTOCOL]"
proof -
  have "s = \<lparr>qs_alpn = [PROTOCOL], qs_keep_alive = KEEP_ALIVE_INTERVAL, qs_initial_rtt = INITIAL_RTT, qs_idle_timeout = IDLE_TIMEOUT\<rparr>"
    using assms(1) by (auto simp: listen_def quic_settings_def split: option.splits if_splits)
  moreover have "qc_idle_timeout c = tgt_keepalive_timeout tgt"
    using assms(2) by (auto simp: connect_quic_def split: option.splits)
  ultimately show ?thesis using assms(3) by (simp add: KEEP_ALIVE_INTERVAL_def IDLE_TIMEOUT_def)
qed

section \<open>Properties\<close>

text \<open>
  The client trusts the certificates it should and no others.  Without an extra CA it trusts the
  system roots that parse, and a broken one is skipped; with an extra CA file it trusts the certificates of
  that file besides, and any fault in that file, be it unreadable, malformed or refused, is an error
  instead of a connection with less trust than configured.
\<close>
theorem client_trust_exact:
  assumes "store_laws env trusted parses" "native = {c \<in> set (native_certs env). parses c}"
  shows "case extra_ca of
       None \<Rightarrow> \<exists>roots. client_config env None None = (Inr roots, Some roots) \<and> trusted roots = native
     | Some path \<Rightarrow>
         (case tls_pem env path of
            None \<Rightarrow> fst (client_config env extra_ca None) = Inl ClientIo
          | Some certs \<Rightarrow>
              if \<forall>c \<in> set certs. \<exists>b. c = Some b \<and> parses b
              then \<exists>roots. fst (client_config env extra_ca None) = Inr roots \<and> trusted roots = native \<union> {b. Some b \<in> set certs}
              else fst (client_config env extra_ca None) = Inl ClientIo)"
proof -
  let ?roots = "add_roots env (native_certs env) {} (tls_empty env)"
  have t: "trusted ?roots = native"
    using add_roots_trusted [OF assms(1), of "{}" "tls_empty env" "native_certs env"] assms by (simp add: store_laws_def)
  show ?thesis
  proof (cases extra_ca)
    case None
    with t show ?thesis by (simp add: client_config_def native_roots_def Let_def)
  next
    case (Some path)
    show ?thesis
    proof (cases "tls_pem env path")
      case None
      with Some show ?thesis by (simp add: client_config_def split_beta)
    next
      case (Some certs)
      with \<open>extra_ca = Some path\<close> add_extra_trusted [OF assms(1), of certs ?roots] t show ?thesis
        by (simp add: client_config_def native_roots_def Let_def split: if_splits)
    qed
  qed
qed

definition demo_tls :: "bytes set TlsEnv" where
  "demo_tls = \<lparr>tls_var_set = (\<lambda>_. False), tls_probed_file = Some ''/etc/ssl/ca.pem'', tls_load_file = (\<lambda>_. [[1], [], [1], [2]]),
     tls_load_native = [], tls_empty = {}, tls_add = (\<lambda>c s. if c = [] then None else Some (insert c s)),
     tls_pem = (\<lambda>path. if path = ''good'' then Some [Some [9]] else Some [Some [9], None])\<rparr>"

theorem client_trust_exact_witness:
  "(\<exists>roots. fst (client_config demo_tls (Some ''good'') None) = Inr roots \<and> roots = {[1], [2], [9]})
   \<and> fst (client_config demo_tls (Some ''bad'') None) = Inl ClientIo"
proof -
  have laws: "store_laws demo_tls (\<lambda>s. s) (\<lambda>c. c \<noteq> [])" by (simp add: store_laws_def demo_tls_def)
  have n: "{[1], [2]} = {c \<in> set (native_certs demo_tls). c \<noteq> []}" by (auto simp: native_certs_def demo_tls_def)
  have p: "tls_pem demo_tls ''good'' = Some [Some [9]]" "tls_pem demo_tls ''bad'' = Some [Some [9], None]"
    by (simp_all add: demo_tls_def)
  from client_trust_exact [OF laws n, of "Some ''good''"] client_trust_exact [OF laws n, of "Some ''bad''"] show ?thesis
    by (auto simp: p)
qed

end
