(* ===== verification/Latency.thy ===== *)
theory Latency
  imports TlsQuic SystemOutput "HOL-Library.Multiset"
begin

text \<open>
  The latency benchmark (\<open>src/client/examples/latency.rs\<close>): it starts a server in its own process, or runs a
  given \<open>ssh\<close> command, and measures connecting, the round trip of a keystroke, and bulk output.

  The example stops at the first problem: a failed \<open>unwrap\<close>, \<open>expect\<close>, \<open>assert_eq\<close> or index is a panic, the left
  of the result here.  Arithmetic is checked, as in the development profile the example is built with.
  Durations are nanoseconds.  The text that is printed is left out, the numbers in it are modelled.
\<close>

section \<open>Panics\<close>

datatype Panic = UnwrapFailed | AssertionFailed | IndexOutOfBounds | ArithmeticOverflow | UnknownTransport string

definition unwrap :: "'e + 'a \<Rightarrow> Panic + 'a" where
  "unwrap r = (case r of Inl _ \<Rightarrow> Inl UnwrapFailed | Inr x \<Rightarrow> Inr x)"

definition unwrap_some :: "'a option \<Rightarrow> Panic + 'a" where
  "unwrap_some r = (case r of None \<Rightarrow> Inl UnwrapFailed | Some x \<Rightarrow> Inr x)"

section \<open>Backends\<close>

datatype Backend = Eternal Target | Ssh "string list"

text \<open>What a spawned command did: whether copying its output succeeded, and its status, \<open>None\<close> when waiting
  failed, with no code when a signal ended it.\<close>

record Child =
  child_copied :: bool
  child_status :: "int option option"

definition ssh_exec :: "(string \<Rightarrow> string list \<Rightarrow> Child option) \<Rightarrow> string list \<Rightarrow> string \<Rightarrow> Panic + int" where
  "ssh_exec spawn argv cmd =
     (case argv of
        [] \<Rightarrow> Inl IndexOutOfBounds
      | prog # args \<Rightarrow>
          and_then (unwrap_some (spawn prog (args @ [cmd]))) (\<lambda>child.
          and_then (if child_copied child then Inr () else Inl UnwrapFailed) (\<lambda>_.
          and_then (unwrap_some (child_status child)) (\<lambda>status.
            Inr (case status of Some code \<Rightarrow> code | None \<Rightarrow> -1)))))"

definition Backend_exec ::
  "(Target \<Rightarrow> string \<Rightarrow> ClientError + int) \<Rightarrow> (string \<Rightarrow> string list \<Rightarrow> Child option) \<Rightarrow> Backend \<Rightarrow> string \<Rightarrow> Panic + int" where
  "Backend_exec run_exec spawn backend cmd =
     (case backend of Eternal target \<Rightarrow> unwrap (run_exec target cmd) | Ssh argv \<Rightarrow> ssh_exec spawn argv cmd)"

text \<open>The task that feeds the command byte by byte: what the reads give (\<open>None\<close> for an error) and which writes
  succeed.\<close>

fun ssh_input :: "bytes option list \<Rightarrow> bool list \<Rightarrow> bytes" where
  "ssh_input (Some [b] # reads) (True # writes) = b # ssh_input reads writes"
| "ssh_input _ _ = []"

section \<open>Statistics\<close>

definition pct :: "nat list \<Rightarrow> nat \<Rightarrow> Panic + nat" where
  "pct samples p =
     (if samples = [] then Inl ArithmeticOverflow
      else if 2 ^ 64 \<le> (length samples - 1) * p then Inl ArithmeticOverflow
      else let k = (length samples - 1) * p div 100
           in if k < length samples then Inr (samples ! k) else Inl IndexOutOfBounds)"

record Report =
  rp_n :: nat
  rp_p50 :: nat
  rp_p90 :: nat
  rp_p99 :: nat

definition report :: "nat list \<Rightarrow> Panic + Report" where
  "report samples =
     (let sorted = sort samples
      in and_then (pct sorted 50) (\<lambda>p50. and_then (pct sorted 90) (\<lambda>p90. and_then (pct sorted 99) (\<lambda>p99.
           Inr \<lparr>rp_n = length sorted, rp_p50 = p50, rp_p90 = p90, rp_p99 = p99\<rparr>))))"

section \<open>Measurements\<close>

text \<open>\<open>n\<close> runs of \<open>true\<close>, run \<open>k\<close> with its result and the time it took.\<close>

fun connect_samples :: "(nat \<Rightarrow> (Panic + int) \<times> nat) \<Rightarrow> nat \<Rightarrow> Panic + nat list" where
  "connect_samples runs 0 = Inr []"
| "connect_samples runs (Suc n) =
     and_then (connect_samples runs n) (\<lambda>samples.
     and_then (fst (runs n)) (\<lambda>code.
       if code = 0 then Inr (samples @ [snd (runs n)]) else Inl AssertionFailed))"

definition connect_bench :: "(nat \<Rightarrow> (Panic + int) \<times> nat) \<Rightarrow> nat \<Rightarrow> Panic + Report" where
  "connect_bench runs n = and_then (connect_samples runs n) report"

text \<open>A keystroke: written, read back, in that time.\<close>

record Keystroke =
  key_written :: bool
  key_read :: bool
  key_time :: nat

definition round_trip :: "Keystroke \<Rightarrow> Panic + nat" where
  "round_trip k = (if key_written k \<and> key_read k then Inr (key_time k) else Inl UnwrapFailed)"

fun echo_samples :: "(nat \<Rightarrow> Keystroke) \<Rightarrow> nat \<Rightarrow> Panic + nat list" where
  "echo_samples keys 0 = Inr []"
| "echo_samples keys (Suc n) =
     and_then (echo_samples keys n) (\<lambda>samples. and_then (round_trip (keys n)) (\<lambda>t. Inr (samples @ [t])))"

text \<open>The first keystroke is a warm-up.  At the end stdin is closed and the task that runs the command is awaited; it may have
  panicked.\<close>

definition echo_bench :: "(nat \<Rightarrow> Keystroke) \<Rightarrow> Panic + int \<Rightarrow> nat \<Rightarrow> Panic + Report" where
  "echo_bench keys exec n =
     and_then (round_trip (keys 0)) (\<lambda>_.
     and_then (echo_samples (\<lambda>k. keys (Suc k)) n) (\<lambda>samples.
     and_then (report samples) (\<lambda>r. and_then (unwrap exec) (\<lambda>_. Inr r))))"

text \<open>The loop that reads the bulk output: the sizes of the reads, \<open>None\<close> for a failed one.  The outer \<open>None\<close> is a loop
  that still reads.\<close>

fun bulk_loop :: "nat option list \<Rightarrow> nat \<Rightarrow> (Panic + nat) option" where
  "bulk_loop [] read = None"
| "bulk_loop (r # reads) read =
     (case r of
        None \<Rightarrow> Some (Inl UnwrapFailed)
      | Some n \<Rightarrow> if n = 0 then Some (Inr read) else bulk_loop reads (read + n))"

definition bulk_bench :: "nat option list \<Rightarrow> Panic + int \<Rightarrow> (Panic + nat) option" where
  "bulk_bench reads exec =
     map_option (\<lambda>r. and_then r (\<lambda>n. and_then (unwrap exec) (\<lambda>_. Inr n))) (bulk_loop reads 0)"

section \<open>The program\<close>

definition latency_args :: "string list \<Rightarrow> Panic + string \<times> nat \<times> string list" where
  "latency_args args =
     (let transport = (case args of t # _ \<Rightarrow> t | [] \<Rightarrow> ''quic'')
      in and_then (case tl args of n # _ \<Rightarrow> map_sum id unat (unwrap_some (parse_u64 n)) | [] \<Rightarrow> Inr 50) (\<lambda>n.
           Inr (transport, n, drop 2 args)))"

text \<open>Setting up the server: the directory with certificate and key, the sockets, the addresses.\<close>

record SetupEnv =
  su_dir :: "string option"
  su_files :: bool
  su_unused :: store
  su_tcp :: "string \<Rightarrow> ServerError option"
  su_tcp_addr :: "ServerError option"
  su_quic :: QuicListenEnv
  su_quic_addr :: "ServerError option"
  su_addr_of :: "ListenOn \<Rightarrow> ServerError + string"

definition setup_server :: "SetupEnv \<Rightarrow> Panic + string \<times> string \<times> string" where
  "setup_server env =
     and_then (unwrap_some (su_dir env)) (\<lambda>dir.
     and_then (if su_files env then Inr () else Inl UnwrapFailed) (\<lambda>_.
     let cert = path_join dir ''cert.pem''; key = path_join dir ''key.pem'' in
     and_then (unwrap (bind (su_unused env) (su_tcp env) (su_tcp_addr env) ''127.0.0.1:0''
         \<lparr>static_token = Some ''secret'', oidc = None\<rparr> ''/bin/sh'')) (\<lambda>server.
     and_then (unwrap (enable_quic (su_quic env) (su_quic_addr env) ''127.0.0.1:0'' (cert, key) server)) (\<lambda>server.
     and_then (unwrap (local_addr (su_addr_of env) server)) (\<lambda>ws.
     and_then (unwrap_some (quic_addr (su_addr_of env) server)) (\<lambda>quic. Inr (ws, quic, cert)))))))"

definition bench_target :: "string \<Rightarrow> string \<times> string \<times> string \<Rightarrow> Panic + Target" where
  "bench_target transport addrs =
     (case addrs of (ws, quic, cert) \<Rightarrow>
        (let target = Target_new (''ws://'' @ ws) (StaticToken ''secret'')
         in if transport = ''ws'' then Inr target
            else if transport = ''quic'' then Inr (target\<lparr>tgt_quic_addr := Some quic, tgt_quic_ca := Some cert\<rparr>)
            else Inl (UnknownTransport transport)))"

definition choose_backend :: "SetupEnv \<Rightarrow> string list \<Rightarrow> Panic + Backend \<times> nat" where
  "choose_backend env args =
     and_then (latency_args args) (\<lambda>(transport, n, rest).
       if transport = ''ssh'' then Inr (Ssh rest, n)
       else and_then (setup_server env) (\<lambda>addrs. and_then (bench_target transport addrs) (\<lambda>target. Inr (Eternal target, n))))"

text \<open>What the measurements meet: the results of the commands in the order they are run, the times, the keystrokes and
  the reads of the bulk output.\<close>

record BenchEnv =
  bn_run :: "nat \<Rightarrow> Target \<Rightarrow> string \<Rightarrow> ClientError + int"
  bn_spawn :: "nat \<Rightarrow> string \<Rightarrow> string list \<Rightarrow> Child option"
  bn_time :: "nat \<Rightarrow> nat"
  bn_keys :: "nat \<Rightarrow> Keystroke"
  bn_reads :: "nat option list"

definition bench_exec :: "BenchEnv \<Rightarrow> Backend \<Rightarrow> nat \<Rightarrow> string \<Rightarrow> Panic + int" where
  "bench_exec env backend k cmd = Backend_exec (bn_run env k) (bn_spawn env k) backend cmd"

definition run_benchmarks :: "BenchEnv \<Rightarrow> Backend \<Rightarrow> nat \<Rightarrow> (Panic + Report \<times> Report \<times> nat) option" where
  "run_benchmarks env backend n =
     (case connect_bench (\<lambda>k. (bench_exec env backend k ''true'', bn_time env k)) n of
        Inl p \<Rightarrow> Some (Inl p)
      | Inr c \<Rightarrow>
          (case echo_bench (bn_keys env) (bench_exec env backend n ''cat'') n of
             Inl p \<Rightarrow> Some (Inl p)
           | Inr e \<Rightarrow>
               map_option (map_sum id (\<lambda>bytes. (c, e, bytes)))
                 (bulk_bench (bn_reads env) (bench_exec env backend (Suc n) ''seq 2000000''))))"

definition latency_main :: "SetupEnv \<Rightarrow> BenchEnv \<Rightarrow> string list \<Rightarrow> (Panic + Report \<times> Report \<times> nat) option" where
  "latency_main setup env args =
     (case choose_backend setup args of
        Inl p \<Rightarrow> Some (Inl p)
      | Inr (backend, n) \<Rightarrow> run_benchmarks env backend n)"

section \<open>Laws\<close>

lemma sorted_rank:
  assumes "sorted xs" "k < length xs"
  shows "k < length (filter (\<lambda>x. x \<le> xs ! k) xs)" "length (filter (\<lambda>x. x < xs ! k) xs) \<le> k"
proof -
  have le: "x \<le> xs ! k" if "x \<in> set (take (Suc k) xs)" for x
    using that assms by (auto simp: in_set_conv_nth sorted_iff_nth_mono)
  have ge: "xs ! k \<le> x" if "x \<in> set (drop k xs)" for x
    using that assms by (auto simp: in_set_conv_nth sorted_iff_nth_mono)
  have "length (filter (\<lambda>x. x \<le> xs ! k) xs)
      = length (filter (\<lambda>x. x \<le> xs ! k) (take (Suc k) xs)) + length (filter (\<lambda>x. x \<le> xs ! k) (drop (Suc k) xs))"
    by (metis append_take_drop_id filter_append length_append)
  moreover have "filter (\<lambda>x. x \<le> xs ! k) (take (Suc k) xs) = take (Suc k) xs" using le by simp
  ultimately show "k < length (filter (\<lambda>x. x \<le> xs ! k) xs)" using assms(2) by simp
  have "length (filter (\<lambda>x. x < xs ! k) xs)
      = length (filter (\<lambda>x. x < xs ! k) (take k xs)) + length (filter (\<lambda>x. x < xs ! k) (drop k xs))"
    by (metis append_take_drop_id filter_append length_append)
  moreover have "filter (\<lambda>x. x < xs ! k) (drop k xs) = []" using ge by (auto simp: filter_empty_conv not_less)
  ultimately show "length (filter (\<lambda>x. x < xs ! k) xs) \<le> k"
    using le_trans [OF length_filter_le, of "take k xs" k "\<lambda>x. x < xs ! k"] by simp
qed

lemma length_filter_sort [simp]: "length (filter P (sort xs)) = length (filter P xs)"
  by (metis mset_filter mset_sort size_mset)

abbreviation rank :: "nat list \<Rightarrow> nat \<Rightarrow> nat" where
  "rank samples p \<equiv> (length samples - 1) * p div 100"

lemma rank_less: "samples \<noteq> [] \<Longrightarrow> p \<le> 100 \<Longrightarrow> rank samples p < length samples"
proof -
  assume "samples \<noteq> []" "p \<le> 100"
  then have "(length samples - 1) * p div 100 \<le> (length samples - 1) * 100 div 100" by (intro div_le_mono mult_le_mono2)
  with \<open>samples \<noteq> []\<close> show ?thesis by (cases samples) auto
qed

lemma pct_ok:
  assumes "samples \<noteq> []" "length samples * 99 < 2 ^ 64" "p \<le> 99"
  shows "pct samples p = Inr (samples ! rank samples p)"
proof -
  have "(length samples - 1) * p \<le> length samples * 99" using assms(3) by (intro mult_le_mono) simp_all
  then show ?thesis using assms rank_less [of samples p] by (simp add: pct_def Let_def)
qed

section \<open>Properties\<close>

text \<open>
  C34: The benchmark reports percentiles.  For a sample that is not empty each of the three numbers is one of the measured
  times, they are ordered, and each has its rank: with \<open>k\<close> the percentage of the number of samples less one, rounded
  down, more than \<open>k\<close> measurements are not above it and at most \<open>k\<close> are below it.
\<close>
theorem report_percentiles:
  assumes "samples \<noteq> []" "length samples * 99 < 2 ^ 64"
  shows "\<exists>r. report samples = Inr r \<and> rp_n r = length samples \<and> {rp_p50 r, rp_p90 r, rp_p99 r} \<subseteq> set samples
    \<and> rp_p50 r \<le> rp_p90 r \<and> rp_p90 r \<le> rp_p99 r
    \<and> (\<forall>(p, v) \<in> {(50, rp_p50 r), (90, rp_p90 r), (99, rp_p99 r)}.
         rank samples p < length (filter (\<lambda>x. x \<le> v) samples) \<and> length (filter (\<lambda>x. x < v) samples) \<le> rank samples p)"
proof -
  let ?s = "sort samples" and ?v = "\<lambda>p. sort samples ! rank samples p"
  have ne: "?s \<noteq> []" using assms(1) by (metis length_0_conv length_sort)
  have pc: "pct ?s p = Inr (?v p)" if "p \<le> 99" for p using pct_ok [OF ne _ that] assms(2) by simp
  have lt: "rank samples p < length ?s" if "p \<le> 99" for p using rank_less [OF assms(1), of p] that by simp
  have mem: "?v p \<in> set samples" if "p \<le> 99" for p using nth_mem [OF lt [OF that]] by simp
  have mono: "?v p \<le> ?v q" if "p \<le> q" "q \<le> 99" for p q
    by (rule sorted_nth_mono) (use lt [of q] that in \<open>auto intro: div_le_mono\<close>)
  have rk: "rank samples p < length (filter (\<lambda>x. x \<le> ?v p) samples) \<and> length (filter (\<lambda>x. x < ?v p) samples) \<le> rank samples p"
    if "p \<le> 99" for p
    using sorted_rank [OF sorted_sort lt [OF that]] by simp
  have "report samples = Inr \<lparr>rp_n = length samples, rp_p50 = ?v 50, rp_p90 = ?v 90, rp_p99 = ?v 99\<rparr>"
    by (simp add: report_def pc Let_def)
  then show ?thesis using mem [of 50] mem [of 90] mem [of 99] mono [of 50 90] mono [of 90 99] rk [of 50] rk [of 90] rk [of 99] by simp
qed

theorem report_percentiles_witness: "\<exists>r. report [30, 10, 20] = Inr r \<and> rp_p50 r = 20 \<and> rp_p50 r \<le> rp_p90 r"
proof -
  have "\<exists>r. report [30, 10, 20 :: nat] = Inr r \<and> rp_p50 r \<le> rp_p90 r" using report_percentiles [of "[30, 10, 20]"] by auto
  moreover have "report [30, 10, 20] = Inr \<lparr>rp_n = 3, rp_p50 = 20, rp_p90 = 20, rp_p99 = 20\<rparr>"
    by (simp add: report_def pct_def Let_def)
  ultimately show ?thesis by auto
qed

lemma bulk_loop_chunks: "\<forall>c \<in> set chunks. c \<noteq> [] \<Longrightarrow> bulk_loop (map (\<lambda>c. Some (length c)) chunks @ [Some 0]) n = Some (Inr (n + length (concat chunks)))"
  by (induction chunks arbitrary: n) (simp_all add: add.assoc)

text \<open>
  The bulk measurement counts what the command wrote.  When \<open>run_exec\<close> has returned an exit code and the benchmark has
  read what the client wrote to stdout, in chunks of any size, the number it divides by the time is the number
  of bytes the command wrote.
\<close>
theorem bulk_counts_output:
  assumes "reachable tok tgt command s" "length (gh_hist s) + 2 < 2 ^ 64" "sy_phase s = Finished (Inr code)"
    and "concat chunks = cl_stdout (sy_client s)" "\<forall>c \<in> set chunks. c \<noteq> []"
  shows "bulk_bench (map (\<lambda>c. Some (length c)) chunks @ [Some 0]) (Inr code) = Some (Inr (length (gh_out s)))"
proof -
  have "log_inv s" "client_ok (Finished (Inr code)) (gh_hist s) (sy_client s)"
    using reachable_output [OF assms(1,2)] assms(3) by (auto simp: down_inv_def)
  then have "cl_stdout (sy_client s) = gh_out s" by (auto simp: log_inv_def)
  then show ?thesis using bulk_loop_chunks [OF assms(5), of 0] assms(4) by (simp add: bulk_bench_def unwrap_def)
qed

text \<open>
  The benchmark does not run with zero iterations: there is no percentile of nothing, and it panics after it has set
  everything up.
\<close>
theorem zero_iterations_panic:
  assumes "choose_backend setup args = Inr (backend, 0)"
  shows "latency_main setup env args = Some (Inl ArithmeticOverflow)"
  using assms by (simp add: latency_main_def run_benchmarks_def connect_bench_def report_def pct_def)

end
