(* ===== verification/ClientOidc.thy ===== *)
theory ClientOidc
  imports Client
begin

text \<open>
  The login of the client (\<open>src/client/src/oidc.rs\<close>): the device-code flow with its polling loop,
  the token cache on disk, and the refresh of an expired access token.

  HTTP replies, the clock and the file system are arguments: a reply is what \<open>reqwest\<close> returns
  (\<open>None\<close> when the request itself fails), the JSON codecs are the fields of a record, and
  \<open>'f\<close> is the type of file contents.  Times of day are \<open>u64\<close> seconds with the wrap-around of a
  release build, durations are milliseconds.
\<close>

section \<open>Messages of the provider\<close>

definition EXPIRY_MARGIN_SECS :: u64 where "EXPIRY_MARGIN_SECS = 60"

record Discovery =
  device_authorization_endpoint :: string
  token_endpoint :: string

record DeviceAuthorization =
  device_code :: string
  user_code :: string
  verification_uri :: string
  verification_uri_complete :: "string option"
  dev_interval :: "u64 option"
  dev_expires_in :: u64

record TokenResponse =
  access_tok :: string
  refresh_tok :: "string option"
  expires_in :: u64

record CachedTokens =
  cached_access :: string
  cached_refresh :: "string option"
  expires_at :: u64

record HttpResponse =
  http_status :: nat
  http_retry_after :: "string option" \<comment> \<open>the header, when it is text\<close>
  http_body :: string

type_synonym http_reply = "HttpResponse option"

record 'f oidc_codec =
  json_discovery :: "string \<Rightarrow> Discovery option"
  json_device :: "string \<Rightarrow> DeviceAuthorization option"
  json_tokens :: "string \<Rightarrow> TokenResponse option"
  json_error :: "string \<Rightarrow> string option"
  to_file :: "CachedTokens \<Rightarrow> 'f"
  of_file :: "'f \<Rightarrow> CachedTokens option"

section \<open>Requests\<close>

text \<open>\<open>error_for_status\<close> refuses 4xx and 5xx.\<close>

definition is_error_status :: "nat \<Rightarrow> bool" where
  "is_error_status n \<longleftrightarrow> 400 \<le> n \<and> n < 600"

definition is_client_error :: "nat \<Rightarrow> bool" where
  "is_client_error n \<longleftrightarrow> 400 \<le> n \<and> n < 500"

definition retry_after :: "string option \<Rightarrow> millis" where
  "retry_after header =
     (case header of
        None \<Rightarrow> 30 * 1000
      | Some value \<Rightarrow>
          (case parse_u64 (trim value) of None \<Rightarrow> 30 * 1000 | Some secs \<Rightarrow> unat secs * 1000))"

definition oidc_discovery_url :: "string \<Rightarrow> string" where
  "oidc_discovery_url issuer = trim_end_matches (CHR ''/'') issuer @ ''/.well-known/openid-configuration''"

definition discover :: "'f oidc_codec \<Rightarrow> (string \<Rightarrow> http_reply) \<Rightarrow> string \<Rightarrow> ClientError + Discovery" where
  "discover codec get issuer =
     (let url = oidc_discovery_url issuer
      in case get url of
           None \<Rightarrow> Inl (Http url)
         | Some r \<Rightarrow>
             if is_error_status (http_status r) then Inl (Http url)
             else case json_discovery codec (http_body r) of None \<Rightarrow> Inl (Http url) | Some d \<Rightarrow> Inr d)"

text \<open>An OAuth form request: the outer error is a failure of the exchange, the inner one an OAuth
  error such as \<open>authorization_pending\<close>.\<close>

definition token_request ::
  "'f oidc_codec \<Rightarrow> (string \<Rightarrow> 'a option) \<Rightarrow> string \<Rightarrow> http_reply \<Rightarrow> ClientError + (string + 'a)" where
  "token_request codec parse url reply =
     (case reply of
        None \<Rightarrow> Inl (Http url)
      | Some r \<Rightarrow>
          if http_status r = 429 then Inl (RateLimited url (retry_after (http_retry_after r)))
          else if is_client_error (http_status r)
          then (case json_error codec (http_body r) of None \<Rightarrow> Inl (Http url) | Some e \<Rightarrow> Inr (Inl e))
          else if is_error_status (http_status r) then Inl (Http url)
          else case parse (http_body r) of None \<Rightarrow> Inl (Http url) | Some v \<Rightarrow> Inr (Inr v))"

section \<open>The token cache\<close>

datatype 'f Stored = NoFile | Unreadable | Contents 'f

record 'f Disk =
  cache_file :: "'f Stored"
  tmp_file :: "'f Stored"

text \<open>Where \<open>store_tokens\<close> may fail; \<open>FailWrite c\<close> leaves \<open>c\<close> in the temporary file.\<close>

datatype 'f StoreFault = FailDir | FailOpen | FailWrite 'f | FailRename

definition store_tokens ::
  "'f oidc_codec \<Rightarrow> u64 \<Rightarrow> 'f StoreFault option \<Rightarrow> TokenResponse \<Rightarrow> 'f Disk \<Rightarrow> (ClientError + unit) \<times> 'f Disk" where
  "store_tokens codec now fault tokens disk =
     (let contents = to_file codec \<lparr>cached_access = access_tok tokens, cached_refresh = refresh_tok tokens,
                                   expires_at = now + expires_in tokens\<rparr>
      in case fault of
           Some FailDir \<Rightarrow> (Inl ClientIo, disk)
         | Some FailOpen \<Rightarrow> (Inl ClientIo, disk)
         | Some (FailWrite part) \<Rightarrow> (Inl ClientIo, disk\<lparr>tmp_file := Contents part\<rparr>)
         | Some FailRename \<Rightarrow> (Inl ClientIo, disk\<lparr>tmp_file := Contents contents\<rparr>)
         | None \<Rightarrow> (Inr (), disk\<lparr>cache_file := Contents contents, tmp_file := NoFile\<rparr>))"

definition load_tokens :: "'f oidc_codec \<Rightarrow> 'f Disk \<Rightarrow> ClientError + CachedTokens option" where
  "load_tokens codec disk =
     (case cache_file disk of
        NoFile \<Rightarrow> Inr None
      | Unreadable \<Rightarrow> Inl ClientIo
      | Contents c \<Rightarrow> Inr (of_file codec c))"

definition load_cached_tokens :: "'f oidc_codec \<Rightarrow> string \<Rightarrow> 'f Disk \<Rightarrow> ClientError + CachedTokens" where
  "load_cached_tokens codec name disk =
     and_then (load_tokens codec disk)
       (\<lambda>t. case t of Some c \<Rightarrow> Inr c | None \<Rightarrow> Inl (NotLoggedIn name))"

section \<open>Configured targets\<close>

record TargetConfig =
  tc_url :: string
  tc_token :: "string option"
  tc_issuer :: "string option"
  tc_client_id :: "string option"
  tc_forward_agent :: bool
  tc_quic_addr :: "string option"
  tc_quic_ca :: "string option"

definition oidc_target :: "TargetConfig \<Rightarrow> ClientError + (string \<times> string)" where
  "oidc_target cfg =
     (case (tc_issuer cfg, tc_client_id cfg) of
        (Some issuer, Some client_id) \<Rightarrow> Inr (issuer, client_id)
      | _ \<Rightarrow> Inl NoAuthConfigured)"

section \<open>Access tokens\<close>

text \<open>
  What a call of \<open>access_token\<close> meets: the clock at its three reads, the error of the lock, the
  cache as another process may have left it when the lock is obtained, the HTTP client, the
  provider, and the fault of the store.
\<close>

record 'f TokenEnv =
  te_now1 :: u64
  te_lock :: "ClientError option"
  te_disk :: "'f Disk"
  te_now2 :: u64
  te_client :: "ClientError option"
  te_get :: "string \<Rightarrow> http_reply"
  te_post :: "string \<Rightarrow> (string \<times> string) list \<Rightarrow> http_reply"
  te_now3 :: u64
  te_fault :: "'f StoreFault option"

definition still_valid :: "u64 \<Rightarrow> CachedTokens \<Rightarrow> bool" where
  "still_valid now cached \<longleftrightarrow> now + EXPIRY_MARGIN_SECS < expires_at cached"

definition refresh_form :: "string \<Rightarrow> string \<Rightarrow> (string \<times> string) list" where
  "refresh_form refresh client_id =
     [(''grant_type'', ''refresh_token''), (''refresh_token'', refresh), (''client_id'', client_id)]"

text \<open>Providers that do not rotate refresh tokens omit the field; the old one is kept.\<close>

definition keep_refresh :: "string \<Rightarrow> TokenResponse \<Rightarrow> TokenResponse" where
  "keep_refresh refresh tokens =
     (if refresh_tok tokens = None then tokens\<lparr>refresh_tok := Some refresh\<rparr> else tokens)"

definition refresh_request ::
  "'f oidc_codec \<Rightarrow> 'f TokenEnv \<Rightarrow> string \<Rightarrow> string \<Rightarrow> string \<Rightarrow> string \<Rightarrow> ClientError + TokenResponse" where
  "refresh_request codec env name issuer client_id refresh =
     (case te_client env of
        Some e \<Rightarrow> Inl e
      | None \<Rightarrow>
          and_then (discover codec (te_get env) issuer)
            (\<lambda>d. and_then (token_request codec (json_tokens codec) (token_endpoint d)
                    (te_post env (token_endpoint d) (refresh_form refresh client_id)))
               (\<lambda>r. case r of Inl _ \<Rightarrow> Inl (NotLoggedIn name) | Inr tokens \<Rightarrow> Inr (keep_refresh refresh tokens))))"

text \<open>The part under the lock.\<close>

definition locked_access_token ::
  "'f oidc_codec \<Rightarrow> 'f TokenEnv \<Rightarrow> string \<Rightarrow> string \<Rightarrow> string \<Rightarrow> 'f Disk \<Rightarrow> (ClientError + string) \<times> 'f Disk" where
  "locked_access_token codec env name issuer client_id disk =
     (case load_cached_tokens codec name disk of
        Inl e \<Rightarrow> (Inl e, disk)
      | Inr cached \<Rightarrow>
          if still_valid (te_now2 env) cached then (Inr (cached_access cached), disk)
          else case cached_refresh cached of
                 None \<Rightarrow> (Inl (NotLoggedIn name), disk)
               | Some refresh \<Rightarrow>
                   (case refresh_request codec env name issuer client_id refresh of
                      Inl e \<Rightarrow> (Inl e, disk)
                    | Inr tokens \<Rightarrow>
                        (case store_tokens codec (te_now3 env) (te_fault env) tokens disk of
                           (r, disk') \<Rightarrow> (and_then r (\<lambda>_. Inr (access_tok tokens)), disk'))))"

definition oidc_access_token ::
  "'f oidc_codec \<Rightarrow> 'f TokenEnv \<Rightarrow> string \<Rightarrow> TargetConfig \<Rightarrow> 'f Disk \<Rightarrow> (ClientError + string) \<times> 'f Disk" where
  "oidc_access_token codec env name cfg disk =
     (case oidc_target cfg of
        Inl e \<Rightarrow> (Inl e, disk)
      | Inr (issuer, client_id) \<Rightarrow>
          (case load_cached_tokens codec name disk of
             Inl e \<Rightarrow> (Inl e, disk)
           | Inr cached \<Rightarrow>
               if still_valid (te_now1 env) cached then (Inr (cached_access cached), disk)
               else case te_lock env of
                      Some e \<Rightarrow> (Inl e, disk)
                    | None \<Rightarrow> locked_access_token codec env name issuer client_id (te_disk env)))"

section \<open>The device-code login\<close>

definition device_form :: "string \<Rightarrow> (string \<times> string) list" where
  "device_form client_id = [(''client_id'', client_id), (''scope'', ''openid offline_access'')]"

definition poll_form :: "string \<Rightarrow> string \<Rightarrow> (string \<times> string) list" where
  "poll_form code client_id =
     [(''grant_type'', ''urn:ietf:params:oauth:grant-type:device_code''), (''device_code'', code), (''client_id'', client_id)]"

text \<open>What one answer of the token endpoint means: the new interval and how long to wait, or the
  result of the login.\<close>

datatype PollStep = PollDone TokenResponse | PollFail ClientError | PollWait millis millis

definition poll_step :: "millis \<Rightarrow> ClientError + (string + TokenResponse) \<Rightarrow> PollStep" where
  "poll_step interval response =
     (case response of
        Inr (Inr tokens) \<Rightarrow> PollDone tokens
      | Inr (Inl error) \<Rightarrow>
          if error = ''authorization_pending'' then PollWait interval interval
          else if error = ''slow_down'' then PollWait (interval + 5 * 1000) (interval + 5 * 1000)
          else PollFail (OidcError (''login failed: '' @ error))
      | Inl (RateLimited _ delay) \<Rightarrow> PollWait interval (max delay interval)
      | Inl error \<Rightarrow> PollFail error)"

text \<open>
  The loop, on the answers in order, each with the time at which it is there.  The first result
  is the list of sleeps; the second is \<open>None\<close> while the loop still polls after the given answers.
\<close>

fun poll_loop ::
  "millis \<Rightarrow> millis \<Rightarrow> (millis \<times> (ClientError + (string + TokenResponse))) list \<Rightarrow>
   millis list \<times> (ClientError + TokenResponse) option" where
  "poll_loop deadline interval [] = ([], None)"
| "poll_loop deadline interval ((now, response) # rest) =
     (case poll_step interval response of
        PollDone tokens \<Rightarrow> ([], Some (Inr tokens))
      | PollFail e \<Rightarrow> ([], Some (Inl e))
      | PollWait interval' wait \<Rightarrow>
          if deadline < now + wait then ([], Some (Inl (OidcError ''device code expired'')))
          else case poll_loop deadline interval' rest of (sleeps, r) \<Rightarrow> (wait # sleeps, r))"

text \<open>
  \<open>login_with_prompt\<close>: the messages for the user, the URL handed to the browser, and the result.
  The environment gives the error of the HTTP client, the provider's answers (those to the polls
  with their times), the errors of the two writes to the prompt, the time of the store and its
  fault.
\<close>

record 'f LoginEnv =
  le_client :: "ClientError option"
  le_get :: "string \<Rightarrow> http_reply"
  le_post :: "string \<Rightarrow> (string \<times> string) list \<Rightarrow> http_reply"
  le_prompt1 :: "ClientError option"
  le_start :: millis
  le_polls :: "(millis \<times> http_reply) list"
  le_now :: u64
  le_fault :: "'f StoreFault option"
  le_prompt2 :: "ClientError option"

definition login_message :: "string \<Rightarrow> DeviceAuthorization \<Rightarrow> string" where
  "login_message name device =
     (case verification_uri_complete device of
        Some url \<Rightarrow> ''To authorize '' @ name @ '', open: '' @ url
      | None \<Rightarrow> ''To authorize '' @ name @ '', open '' @ verification_uri device @ '' and enter code '' @ user_code device)"

definition browser_url :: "DeviceAuthorization \<Rightarrow> string" where
  "browser_url device =
     (case verification_uri_complete device of Some url \<Rightarrow> url | None \<Rightarrow> verification_uri device)"

definition device_request ::
  "'f oidc_codec \<Rightarrow> 'f LoginEnv \<Rightarrow> Discovery \<Rightarrow> string \<Rightarrow> ClientError + DeviceAuthorization" where
  "device_request codec env d client_id =
     and_then (token_request codec (json_device codec) (device_authorization_endpoint d)
         (le_post env (device_authorization_endpoint d) (device_form client_id)))
       (\<lambda>r. case r of Inl error \<Rightarrow> Inl (OidcError (''device authorization failed: '' @ error)) | Inr device \<Rightarrow> Inr device)"

definition poll_tokens ::
  "'f oidc_codec \<Rightarrow> 'f LoginEnv \<Rightarrow> Discovery \<Rightarrow> DeviceAuthorization \<Rightarrow> millis list \<times> (ClientError + TokenResponse) option" where
  "poll_tokens codec env d device =
     poll_loop (le_start env + unat (dev_expires_in device) * 1000)
       (unat (case dev_interval device of Some i \<Rightarrow> i | None \<Rightarrow> 5) * 1000)
       (map (\<lambda>(now, reply). (now, token_request codec (json_tokens codec) (token_endpoint d) reply)) (le_polls env))"

text \<open>After the tokens arrived.\<close>

definition finish_login ::
  "'f oidc_codec \<Rightarrow> 'f LoginEnv \<Rightarrow> TokenResponse \<Rightarrow> 'f Disk \<Rightarrow> (ClientError + unit) \<times> 'f Disk" where
  "finish_login codec env tokens disk =
     (case store_tokens codec (le_now env) (le_fault env) tokens disk of
        (r, disk') \<Rightarrow>
          (and_then r (\<lambda>_. case le_prompt2 env of Some e \<Rightarrow> Inl e | None \<Rightarrow> Inr ()), disk'))"

text \<open>\<open>None\<close> while the login still waits for the user.\<close>

definition login_with_prompt ::
  "'f oidc_codec \<Rightarrow> 'f LoginEnv \<Rightarrow> string \<Rightarrow> TargetConfig \<Rightarrow> 'f Disk \<Rightarrow> (ClientError + unit) option \<times> 'f Disk" where
  "login_with_prompt codec env name cfg disk =
     (case and_then (oidc_target cfg)
             (\<lambda>(issuer, client_id). and_then (case le_client env of Some e \<Rightarrow> Inl e | None \<Rightarrow> Inr ())
               (\<lambda>_. and_then (discover codec (le_get env) issuer)
                 (\<lambda>d. and_then (device_request codec env d client_id)
                   (\<lambda>device. case le_prompt1 env of Some e \<Rightarrow> Inl e | None \<Rightarrow> Inr (d, device))))) of
        Inl e \<Rightarrow> (Some (Inl e), disk)
      | Inr (d, device) \<Rightarrow>
          (case snd (poll_tokens codec env d device) of
             None \<Rightarrow> (None, disk)
           | Some (Inl e) \<Rightarrow> (Some (Inl e), disk)
           | Some (Inr tokens) \<Rightarrow>
               (case finish_login codec env tokens disk of (r, disk') \<Rightarrow> (Some r, disk'))))"

text \<open>\<open>login_on_tty\<close>: without a terminal the user has to log in separately.\<close>

definition login_on_tty ::
  "'f oidc_codec \<Rightarrow> 'f LoginEnv \<Rightarrow> bool \<Rightarrow> string \<Rightarrow> TargetConfig \<Rightarrow> 'f Disk \<Rightarrow> (ClientError + unit) option \<times> 'f Disk" where
  "login_on_tty codec env has_tty name cfg disk =
     (if has_tty then login_with_prompt codec env name cfg disk else (Some (Inl (NotLoggedIn name)), disk))"

text \<open>\<open>login\<close> prompts on stderr and leaves the browser alone.\<close>

definition oidc_login ::
  "'f oidc_codec \<Rightarrow> 'f LoginEnv \<Rightarrow> string \<Rightarrow> TargetConfig \<Rightarrow> 'f Disk \<Rightarrow> (ClientError + unit) option \<times> 'f Disk" where
  "oidc_login codec env name cfg disk = login_with_prompt codec env name cfg disk"

text \<open>\<open>open_in_browser\<close>: the first program that can be started gets the URL.\<close>

definition open_in_browser :: "(string \<Rightarrow> bool) \<Rightarrow> string \<Rightarrow> (string \<times> string) option" where
  "open_in_browser spawns url = map_option (\<lambda>opener. (opener, url)) (find spawns [''xdg-open'', ''open''])"

text \<open>\<open>now_unix\<close>: a clock before 1970 counts as zero.\<close>

definition now_unix :: "int \<Rightarrow> u64" where
  "now_unix secs = (if secs < 0 then 0 else word_of_int secs)"

text \<open>\<open>lock_token_cache\<close>, on the results of creating the directory, opening the file, locking it, and of the blocking
  task itself.  The result is the \<open>te_lock\<close> of a call.\<close>

record LockEnv =
  lock_dir :: "ClientError option"
  lock_open :: "ClientError option"
  lock_flock :: "ClientError option"
  lock_task :: "string option"

definition lock_token_cache :: "LockEnv \<Rightarrow> ClientError option" where
  "lock_token_cache env =
     (case lock_task env of
        Some err \<Rightarrow> Some (OidcError (''token cache lock task failed: '' @ err))
      | None \<Rightarrow>
          (case lock_dir env of
             Some e \<Rightarrow> Some e
           | None \<Rightarrow> (case lock_open env of Some e \<Rightarrow> Some e | None \<Rightarrow> lock_flock env)))"

section \<open>The polling loop\<close>

text \<open>The answers come at least \<open>\<delta>\<close> apart.\<close>

definition paced :: "millis \<Rightarrow> (millis \<times> 'a) list \<Rightarrow> bool" where
  "paced \<delta> es \<longleftrightarrow> (\<forall>k. Suc k < length es \<longrightarrow> fst (es ! k) + \<delta> \<le> fst (es ! Suc k))"

lemma paced_Cons: "paced \<delta> (e # es) \<longleftrightarrow> (es = [] \<or> fst e + \<delta> \<le> fst (hd es)) \<and> paced \<delta> es"
proof -
  have "(\<forall>k. Suc k < length (e # es) \<longrightarrow> fst ((e # es) ! k) + \<delta> \<le> fst ((e # es) ! Suc k)) \<longleftrightarrow>
    (0 < length es \<longrightarrow> fst e + \<delta> \<le> fst (es ! 0)) \<and> (\<forall>k. Suc k < length es \<longrightarrow> fst (es ! k) + \<delta> \<le> fst (es ! Suc k))"
    by (auto simp: nth_Cons split: nat.splits)
  then show ?thesis by (cases es) (simp_all add: paced_def)
qed

lemma paced_nth: "paced \<delta> es \<Longrightarrow> k < length es \<Longrightarrow> fst (hd es) + \<delta> * k \<le> fst (es ! k)"
proof (induction k)
  case 0
  then show ?case by (simp add: hd_conv_nth)
next
  case (Suc k)
  then have "fst (hd es) + \<delta> * k \<le> fst (es ! k)" "fst (es ! k) + \<delta> \<le> fst (es ! Suc k)" by (simp_all add: paced_def)
  then show ?case by simp
qed

lemma poll_loop_ends:
  assumes "paced \<delta> es" "es \<noteq> []" "deadline < fst (hd es) + \<delta> * (length es - 1)"
  shows "snd (poll_loop deadline i es) \<noteq> None"
  using assms
proof (induction deadline i es rule: poll_loop.induct)
  case (2 deadline i now resp rest)
  show ?case
  proof (cases "poll_step i resp")
    case (PollWait i' w)
    show ?thesis
    proof (cases "deadline < now + w")
      case False
      then have ne: "rest \<noteq> []" using "2.prems"(3) by auto
      then obtain e es where rest: "rest = e # es" by (cases rest) auto
      have "deadline < fst (hd rest) + \<delta> * (length rest - 1)" using "2.prems"(1,3) rest by (simp add: paced_Cons)
      with "2.IH" [OF PollWait False] "2.prems"(1) ne have "snd (poll_loop deadline i' rest) \<noteq> None" by (simp add: paced_Cons)
      with False PollWait show ?thesis by (simp add: split_beta)
    qed (simp add: PollWait)
  qed simp_all
qed simp

text \<open>Every sleep is at least the interval, and longer by five seconds for every \<open>slow_down\<close>
  before it; and the loop never sleeps past the deadline.\<close>

definition slow_downs :: "(millis \<times> (ClientError + (string + TokenResponse))) list \<Rightarrow> nat" where
  "slow_downs es = length (filter (\<lambda>(_, r). r = Inr (Inl ''slow_down'')) es)"

lemma poll_loop_sleeps:
  assumes "poll_loop deadline i es = (sleeps, r)" "k < length sleeps"
  shows "k < length es \<and> i + 5000 * slow_downs (take (Suc k) es) \<le> sleeps ! k \<and> fst (es ! k) + sleeps ! k \<le> deadline"
  using assms
proof (induction deadline i es arbitrary: sleeps r k rule: poll_loop.induct)
  case (2 deadline i now resp rest)
  from "2.prems" obtain i' w where w: "poll_step i resp = PollWait i' w" "\<not> deadline < now + w"
    by (cases "poll_step i resp") (auto split: if_splits)
  obtain sl r' where rec: "poll_loop deadline i' rest = (sl, r')" by force
  have sleeps: "sleeps = w # sl" using "2.prems" w rec by simp
  have i': "i' = i + (if resp = Inr (Inl ''slow_down'') then 5000 else 0)" "i' \<le> w"
    using w(1) by (auto simp: poll_step_def split: sum.splits if_splits ClientError.splits)
  show ?case
  proof (cases k)
    case 0
    with sleeps w i' show ?thesis by (cases "resp = Inr (Inl ''slow_down'')") (simp_all add: slow_downs_def)
  next
    case (Suc k')
    with "2.IH" [OF w(1) w(2) rec, of k'] "2.prems"(2) sleeps i'(1) show ?thesis
      by (cases "resp = Inr (Inl ''slow_down'')") (simp_all add: slow_downs_def)
  qed
qed simp

section \<open>The cache\<close>

definition faithful_codec :: "'f oidc_codec \<Rightarrow> bool" where
  "faithful_codec codec \<longleftrightarrow> (\<forall>c. of_file codec (to_file codec c) = Some c)"

definition cached_as :: "'f oidc_codec \<Rightarrow> u64 \<Rightarrow> TokenResponse \<Rightarrow> 'f Disk \<Rightarrow> bool" where
  "cached_as codec now tokens disk \<longleftrightarrow>
     load_tokens codec disk = Inr (Some \<lparr>cached_access = access_tok tokens, cached_refresh = refresh_tok tokens,
                                        expires_at = now + expires_in tokens\<rparr>)"

lemma load_cached_iff: "load_cached_tokens codec name disk = Inr c \<longleftrightarrow> load_tokens codec disk = Inr (Some c)"
  by (auto simp: load_cached_tokens_def split: option.splits)

text \<open>The cache is replaced as a whole or not at all.\<close>

lemma store_tokens_atomic:
  assumes "store_tokens codec now fault tokens disk = (r, disk')" "faithful_codec codec"
  shows "case r of Inr _ \<Rightarrow> cached_as codec now tokens disk' | Inl e \<Rightarrow> e = ClientIo \<and> cache_file disk' = cache_file disk"
  using assms
  by (auto simp: store_tokens_def Let_def cached_as_def load_tokens_def faithful_codec_def split: option.splits StoreFault.splits)

definition logged_in :: "'f oidc_codec \<Rightarrow> 'f Disk \<Rightarrow> bool" where
  "logged_in codec disk \<longleftrightarrow> (\<exists>c. load_tokens codec disk = Inr (Some c) \<and> cached_refresh c \<noteq> None)"

lemma keep_refresh_simps [simp]:
  "\<exists>y. refresh_tok (keep_refresh refresh tokens) = Some y" "access_tok (keep_refresh refresh tokens) = access_tok tokens"
  by (auto simp: keep_refresh_def)

text \<open>The provider's answer to a refresh.\<close>

definition provider_refreshed :: "'f oidc_codec \<Rightarrow> 'f TokenEnv \<Rightarrow> string \<Rightarrow> string \<Rightarrow> string \<Rightarrow> TokenResponse \<Rightarrow> bool" where
  "provider_refreshed codec env issuer client_id refresh tokens \<longleftrightarrow>
     (\<exists>d. discover codec (te_get env) issuer = Inr d
        \<and> token_request codec (json_tokens codec) (token_endpoint d)
            (te_post env (token_endpoint d) (refresh_form refresh client_id)) = Inr (Inr tokens))"

lemma refresh_request_Inr:
  "refresh_request codec env name issuer client_id refresh = Inr tokens \<longleftrightarrow>
   te_client env = None \<and> (\<exists>t. provider_refreshed codec env issuer client_id refresh t \<and> tokens = keep_refresh refresh t)"
proof -
  have "(\<lambda>r. case r of Inl _ \<Rightarrow> Inl (NotLoggedIn name) | Inr t \<Rightarrow> Inr (keep_refresh refresh t)) x = Inr tokens \<longleftrightarrow>
      (\<exists>t. x = Inr t \<and> tokens = keep_refresh refresh t)" for x :: "string + TokenResponse"
    by (cases x) auto
  then show ?thesis by (auto simp: refresh_request_def provider_refreshed_def split: option.splits)
qed

lemma locked_access_token_cases:
  assumes "locked_access_token codec env name issuer client_id disk = (r, disk')" "faithful_codec codec"
  shows "(cache_file disk' = cache_file disk \<and>
       (\<forall>tok. r = Inr tok \<longrightarrow> (\<exists>c. load_tokens codec disk = Inr (Some c) \<and> still_valid (te_now2 env) c \<and> tok = cached_access c)))
    \<or> (\<exists>c refresh t. load_tokens codec disk = Inr (Some c) \<and> cached_refresh c = Some refresh
         \<and> provider_refreshed codec env issuer client_id refresh t
         \<and> r = Inr (access_tok t) \<and> cached_as codec (te_now3 env) (keep_refresh refresh t) disk')"
proof (cases "load_cached_tokens codec name disk")
  case (Inr c)
  note load = Inr [unfolded load_cached_iff]
  show ?thesis
  proof (cases "still_valid (te_now2 env) c \<or> cached_refresh c = None")
    case True
    with Inr load assms(1) show ?thesis by (auto simp: locked_access_token_def split: if_splits)
  next
    case False
    then obtain refresh where rf: "\<not> still_valid (te_now2 env) c" "cached_refresh c = Some refresh" by auto
    show ?thesis
    proof (cases "refresh_request codec env name issuer client_id refresh")
      case (Inl e)
      with rf Inr assms(1) show ?thesis by (auto simp: locked_access_token_def)
    next
      case (Inr tokens)
      then obtain t where t: "provider_refreshed codec env issuer client_id refresh t" "tokens = keep_refresh refresh t"
        by (auto simp: refresh_request_Inr)
      obtain r1 where st: "store_tokens codec (te_now3 env) (te_fault env) tokens disk = (r1, disk')"
        and r: "r = and_then r1 (\<lambda>_. Inr (access_tok tokens))"
        using rf Inr \<open>load_cached_tokens codec name disk = Inr c\<close> assms(1)
        by (auto simp: locked_access_token_def split: prod.splits)
      from store_tokens_atomic [OF st assms(2)] rf load t r show ?thesis by (cases r1) auto
    qed
  qed
qed (use assms(1) in \<open>auto simp: locked_access_token_def\<close>)

text \<open>A provider, a cache with an expired access token and a clock, for the witnesses.\<close>

definition demo_codec :: "CachedTokens oidc_codec" where
  "demo_codec = \<lparr>json_discovery = (\<lambda>_. Some \<lparr>device_authorization_endpoint = ''d'', token_endpoint = ''t''\<rparr>),
     json_device = (\<lambda>_. None), json_tokens = (\<lambda>_. Some \<lparr>access_tok = ''new'', refresh_tok = None, expires_in = 3600\<rparr>),
     json_error = (\<lambda>_. None), to_file = (\<lambda>c. c), of_file = Some\<rparr>"

definition demo_disk :: "CachedTokens Disk" where
  "demo_disk = \<lparr>cache_file = Contents \<lparr>cached_access = ''old'', cached_refresh = Some ''r'', expires_at = 500\<rparr>, tmp_file = NoFile\<rparr>"

definition demo_token_env :: "CachedTokens TokenEnv" where
  "demo_token_env = \<lparr>te_now1 = 1000, te_lock = None, te_disk = demo_disk, te_now2 = 1000, te_client = None,
     te_get = (\<lambda>_. Some \<lparr>http_status = 200, http_retry_after = None, http_body = []\<rparr>),
     te_post = (\<lambda>_ _. Some \<lparr>http_status = 200, http_retry_after = None, http_body = []\<rparr>), te_now3 = 1001, te_fault = None\<rparr>"

definition demo_cfg :: TargetConfig where
  "demo_cfg = \<lparr>tc_url = ''u'', tc_token = None, tc_issuer = Some ''i'', tc_client_id = Some ''c'', tc_forward_agent = False, tc_quic_addr = None, tc_quic_ca = None\<rparr>"

lemmas demo_token_eval = demo_codec_def demo_disk_def demo_token_env_def demo_cfg_def oidc_access_token_def oidc_target_def
  load_cached_tokens_def load_tokens_def still_valid_def EXPIRY_MARGIN_SECS_def locked_access_token_def refresh_request_def
  discover_def token_request_def is_error_status_def is_client_error_def store_tokens_def keep_refresh_def logged_in_def

lemma demo_codec_faithful: "faithful_codec demo_codec"
  by (simp add: faithful_codec_def demo_codec_def)

lemma demo_logged_in: "logged_in demo_codec demo_disk"
  by (simp add: demo_token_eval)

lemma demo_refresh: "\<exists>disk'. oidc_access_token demo_codec demo_token_env ''n'' demo_cfg demo_disk = (Inr ''new'', disk')"
  by (simp add: demo_token_eval Let_def)

section \<open>Properties\<close>

text \<open>
  C30: An access token the client uses is good: it is the cached one, at least a minute before its
  expiry, or one the provider has just given for the cached refresh token, and then it is in
  the cache together with a refresh token.  This holds also when another process changed the
  cache while this one waited for the lock.
\<close>
theorem access_token_sound:
  assumes "oidc_access_token codec env name cfg disk = (Inr tok, disk')" "faithful_codec codec"
  shows "(\<exists>c. load_tokens codec disk = Inr (Some c) \<and> still_valid (te_now1 env) c \<and> tok = cached_access c \<and> disk' = disk)
    \<or> (\<exists>c. load_tokens codec (te_disk env) = Inr (Some c) \<and> still_valid (te_now2 env) c \<and> tok = cached_access c)
    \<or> (\<exists>c issuer client_id refresh t. load_tokens codec (te_disk env) = Inr (Some c) \<and> cached_refresh c = Some refresh
         \<and> tc_issuer cfg = Some issuer \<and> tc_client_id cfg = Some client_id
         \<and> provider_refreshed codec env issuer client_id refresh t \<and> tok = access_tok t
         \<and> cached_as codec (te_now3 env) (keep_refresh refresh t) disk' \<and> logged_in codec disk')"
proof -
  obtain issuer client_id where t: "tc_issuer cfg = Some issuer" "tc_client_id cfg = Some client_id"
    using assms(1) by (auto simp: oidc_access_token_def oidc_target_def split: option.splits)
  obtain c where c: "load_tokens codec disk = Inr (Some c)"
    using assms(1) t load_cached_iff [of codec name disk] by (auto simp: oidc_access_token_def oidc_target_def split: sum.splits)
  show ?thesis
  proof (cases "still_valid (te_now1 env) c")
    case True
    with assms(1) t c load_cached_iff [of codec name disk c] show ?thesis by (auto simp: oidc_access_token_def oidc_target_def)
  next
    case False
    with assms(1) t c load_cached_iff [of codec name disk c]
    have "locked_access_token codec env name issuer client_id (te_disk env) = (Inr tok, disk')"
      by (auto simp: oidc_access_token_def oidc_target_def split: option.splits)
    from locked_access_token_cases [OF this assms(2)] t show ?thesis
      by (auto simp: logged_in_def cached_as_def)
  qed
qed

theorem access_token_sound_witness:
  "\<exists>disk'. oidc_access_token demo_codec demo_token_env ''n'' demo_cfg demo_disk = (Inr ''new'', disk') \<and> logged_in demo_codec disk'"
proof -
  obtain disk' where run: "oidc_access_token demo_codec demo_token_env ''n'' demo_cfg demo_disk = (Inr ''new'', disk')"
    using demo_refresh by blast
  have e: "te_disk demo_token_env = demo_disk" "te_now1 demo_token_env = 1000" "te_now2 demo_token_env = 1000"
    by (simp_all add: demo_token_env_def)
  have "\<not> still_valid 1000 c" if "load_tokens demo_codec demo_disk = Inr (Some c)" for c
    using that by (auto simp: demo_token_eval)
  with access_token_sound [OF run demo_codec_faithful] run show ?thesis unfolding e by blast
qed

text \<open>
  A refresh never logs the target out.  Whatever the provider answers, however the store
  fails, and whether or not the provider rotates refresh tokens, a target whose cache holds a
  refresh token still has one afterwards.
\<close>
theorem refresh_keeps_login:
  assumes "logged_in codec disk" "logged_in codec (te_disk env)" "faithful_codec codec"
    and "oidc_access_token codec env name cfg disk = (r, disk')"
  shows "logged_in codec disk'"
proof (cases "disk' = disk")
  case False
  then obtain issuer client_id where "locked_access_token codec env name issuer client_id (te_disk env) = (r, disk')"
    using assms(4) by (auto simp: oidc_access_token_def split: sum.splits if_splits option.splits)
  from locked_access_token_cases [OF this assms(3)] assms(2) show ?thesis
    by (auto simp: logged_in_def cached_as_def load_tokens_def)
qed (use assms(1) in simp)

theorem refresh_keeps_login_witness:
  "\<exists>disk'. oidc_access_token demo_codec demo_token_env ''n'' demo_cfg demo_disk = (Inr ''new'', disk') \<and> logged_in demo_codec disk'"
proof -
  obtain disk' where run: "oidc_access_token demo_codec demo_token_env ''n'' demo_cfg demo_disk = (Inr ''new'', disk')"
    using demo_refresh by blast
  have "logged_in demo_codec (te_disk demo_token_env)" using demo_logged_in by (simp add: demo_token_env_def)
  from refresh_keeps_login [OF demo_logged_in this demo_codec_faithful run] run show ?thesis by blast
qed

text \<open>
  C31: The login ends, whatever the provider answers.  If the answers come at least some time \<open>\<delta>\<close> apart, however
  short (the interval, when it is not zero; otherwise what a request takes), the polling loop has a
  result after the polls that fit into the life time of the device code, every sleep ends by the deadline,
  and sleep \<open>k\<close> begins no earlier than \<open>k\<close> times \<open>\<delta>\<close> after the first answer, which bounds their number.
\<close>
theorem login_poll_terminates:
  assumes "paced \<delta> es" "es \<noteq> []" "deadline < fst (hd es) + \<delta> * (length es - 1)"
  shows "\<exists>sleeps r. poll_loop deadline interval es = (sleeps, Some r)
    \<and> (\<forall>k < length sleeps. fst (hd es) + \<delta> * k \<le> fst (es ! k) \<and> fst (es ! k) + sleeps ! k \<le> deadline)"
proof -
  obtain sleeps r where run: "poll_loop deadline interval es = (sleeps, Some r)"
    using poll_loop_ends [OF assms, of interval] by (metis not_None_eq prod.collapse)
  from poll_loop_sleeps [OF run] paced_nth [OF assms(1)] run show ?thesis by blast
qed

theorem login_poll_terminates_witness:
  "\<exists>sleeps r. poll_loop 9000 0 [(0, Inr (Inl ''authorization_pending'')), (4000, Inr (Inl ''slow_down'')),
     (9500, Inr (Inl ''authorization_pending'')), (13500, Inr (Inl ''authorization_pending''))] = (sleeps, Some r)
   \<and> sleeps = [0, 5000]"
proof -
  let ?es = "[(0, Inr (Inl ''authorization_pending'')), (4000, Inr (Inl ''slow_down'')), (9500, Inr (Inl ''authorization_pending'')),
    (13500, Inr (Inl ''authorization_pending''))] :: (millis \<times> (ClientError + (string + TokenResponse))) list"
  have "paced 4000 ?es" by (simp add: paced_Cons) (simp add: paced_def)
  from login_poll_terminates [OF this, of 9000 0] show ?thesis by (simp add: poll_step_def)
qed

text \<open>
  The polling respects the provider.  Each sleep lasts at least the interval plus five seconds
  for every \<open>slow_down\<close> received so far, and no sleep goes past the expiry of the device code.
\<close>
theorem login_poll_backs_off:
  assumes "poll_loop deadline interval es = (sleeps, r)" "k < length sleeps"
  shows "interval + 5000 * slow_downs (take (Suc k) es) \<le> sleeps ! k \<and> fst (es ! k) + sleeps ! k \<le> deadline"
  using poll_loop_sleeps [OF assms] by simp


theorem login_poll_backs_off_witness:
  "\<exists>r. poll_loop 60000 5000 [(0, Inr (Inl ''slow_down'')), (10000, Inr (Inl ''slow_down'')), (25000, Inr (Inl ''access_denied''))]
     = ([10000, 15000], r) \<and> 5000 + 5000 * 2 \<le> [10000 :: nat, 15000] ! 1"
proof -
  let ?es = "[(0, Inr (Inl ''slow_down'')), (10000, Inr (Inl ''slow_down'')), (25000, Inr (Inl ''access_denied''))]
    :: (millis \<times> (ClientError + (string + TokenResponse))) list"
  have run: "\<exists>r. poll_loop 60000 5000 ?es = ([10000, 15000], r)" by (simp add: poll_step_def)
  then obtain r where r: "poll_loop 60000 5000 ?es = ([10000, 15000], r)" by blast
  have "1 < length [10000 :: millis, 15000]" by simp
  from login_poll_backs_off [OF r this] run show ?thesis by (simp add: slow_downs_def)
qed

end
