(* ===== verification/SshArgs.thy ===== *)
theory SshArgs
  imports StdText
begin

text \<open>
  The command line of the client (\<open>src/client/src/main.rs\<close>): the subset of ssh's command line
  that herdr emits is parsed by skipping every option, then taking the target, then the command
  words.

  Arguments are strings of bytes.  The flag characters the parser knows are ASCII, so a
  multi-byte character stops the scan of a flag cluster at its first byte, as it does in the
  code.
\<close>

section \<open>The parser\<close>

record SshArgs =
  ssh_target :: string
  ssh_command :: "string option"

definition WITH_ARG :: string where "WITH_ARG = ''BbcDEeFIiJLlmOoPpQRSWw''"
definition NO_ARG :: string where "NO_ARG = ''46AaCfGgKkMNnqsTtVvXxYy''"

text \<open>\<open>[String]::join\<close>.\<close>

fun join :: "string \<Rightarrow> string list \<Rightarrow> string" where
  "join sep [] = []"
| "join sep [s] = s"
| "join sep (s # t # ss) = s @ sep @ join sep (t # ss)"

text \<open>The flags of an option word: what follows the dash, unless the word is a lone dash.\<close>

fun option_flags :: "string \<Rightarrow> string option" where
  "option_flags (c # flags) = (if c = CHR ''-'' \<and> flags \<noteq> [] then Some flags else None)"
| "option_flags [] = None"

text \<open>The scan of a flag cluster; the result is what remains of the arguments.\<close>

fun skip_flags :: "string \<Rightarrow> string list \<Rightarrow> string list" where
  "skip_flags [] args = args"
| "skip_flags (c # flags) args =
     (if c \<in> set WITH_ARG then (if flags = [] then tl args else args)
      else if c \<notin> set NO_ARG then args
      else skip_flags flags args)"

lemma skip_flags_length: "length (skip_flags flags args) \<le> length args"
  by (induction flags args rule: skip_flags.induct) auto

function (sequential) parse_loop :: "string list \<Rightarrow> string option \<Rightarrow> string list \<Rightarrow> string option \<times> string list" where
  "parse_loop [] target parts = (target, parts)"
| "parse_loop (arg # args) (Some t) parts = parse_loop args (Some t) (parts @ [arg])"
| "parse_loop (arg # args) None parts =
     (if arg = ''--''
      then (case args of [] \<Rightarrow> parse_loop [] None parts | t # rest \<Rightarrow> parse_loop rest (Some t) parts)
      else case option_flags arg of
             None \<Rightarrow> parse_loop args (Some arg) parts
           | Some flags \<Rightarrow> parse_loop (skip_flags flags args) None parts)"
  by pat_completeness auto
termination
  by (relation "measure (\<lambda>(args, _). length args)") (auto simp: skip_flags_length le_imp_less_Suc)

definition parse_ssh_args :: "string list \<Rightarrow> SshArgs option" where
  "parse_ssh_args args =
     (case parse_loop args None [] of
        (None, _) \<Rightarrow> None
      | (Some t, parts) \<Rightarrow>
          Some \<lparr>ssh_target = t, ssh_command = (if parts = [] then None else Some (join '' '' parts))\<rparr>)"

section \<open>The options of ssh\<close>

text \<open>
  The reference: an option word of ssh as getopt reads it.  A cluster of flags without argument,
  or such a cluster that ends in a flag with its argument attached or in the next word.
\<close>

datatype SshOption =
    Cluster string
  | Attached string char string
  | Separate string char string

fun option_words :: "SshOption \<Rightarrow> string list" where
  "option_words (Cluster fs) = [CHR ''-'' # fs]"
| "option_words (Attached fs c v) = [CHR ''-'' # fs @ c # v]"
| "option_words (Separate fs c v) = [CHR ''-'' # fs @ [c], v]"

definition known_flags :: "string \<Rightarrow> bool" where
  "known_flags fs \<longleftrightarrow> set fs \<subseteq> set NO_ARG"

fun option_ok :: "SshOption \<Rightarrow> bool" where
  "option_ok (Cluster fs) = (fs \<noteq> [] \<and> known_flags fs)"
| "option_ok (Attached fs c v) = (known_flags fs \<and> c \<in> set WITH_ARG \<and> v \<noteq> [])"
| "option_ok (Separate fs c v) = (known_flags fs \<and> c \<in> set WITH_ARG)"

lemma flags_disjoint: "c \<in> set NO_ARG \<Longrightarrow> c \<notin> set WITH_ARG"
  by (auto simp: NO_ARG_def WITH_ARG_def)

lemma flag_not_dash: "c \<in> set NO_ARG \<or> c \<in> set WITH_ARG \<Longrightarrow> c \<noteq> CHR ''-''"
  by (auto simp: NO_ARG_def WITH_ARG_def)

lemma skip_known:
  "known_flags fs \<Longrightarrow> skip_flags (fs @ gs) args = skip_flags gs args"
  by (induction fs) (auto simp: known_flags_def flags_disjoint)

lemma option_not_dashes:
  "option_ok opt \<Longrightarrow> hd (option_words opt) \<noteq> ''--''"
  by (cases opt rule: option_ok.cases)
     (auto simp: known_flags_def append_eq_Cons_conv Cons_eq_append_conv NO_ARG_def WITH_ARG_def)

lemma parse_option:
  assumes "option_ok opt"
  shows "parse_loop (option_words opt @ args) None parts = parse_loop args None parts"
  using assms option_not_dashes [OF assms] skip_known [of _ "[]"]
  by (cases opt rule: option_ok.cases) (auto simp: skip_known)

lemma parse_options:
  "list_all option_ok opts \<Longrightarrow> parse_loop (concat (map option_words opts) @ args) None parts = parse_loop args None parts"
  by (induction opts) (simp_all add: parse_option)

lemma parse_command: "parse_loop args (Some t) parts = (Some t, parts @ args)"
  by (induction args arbitrary: parts) simp_all


text \<open>Whatever comes before the target, the target and the command words are arguments as given,
  in order, with nothing after them.\<close>

lemma skip_flags_suffix: "\<exists>pre. args = pre @ skip_flags flags args"
proof (induction flags args rule: skip_flags.induct)
  case (2 c flags args)
  have "\<exists>pre. args = pre @ tl args" by (cases args) auto
  with 2 show ?case by auto
qed simp

lemma parse_loop_split:
  assumes "parse_loop args None [] = (Some t, parts)"
  shows "\<exists>pre. args = pre @ t # parts"
  using assms
proof (induction args rule: length_induct)
  case (1 args)
  show ?case
  proof (cases args)
    case Nil
    with 1 show ?thesis by simp
  next
    case (Cons arg rest)
    consider "arg = ''--''" | "arg \<noteq> ''--''" "option_flags arg = None"
      | flags where "arg \<noteq> ''--''" "option_flags arg = Some flags" by fastforce
    then show ?thesis
    proof cases
      case 1
      then show ?thesis using Cons "1.prems"
        by (auto simp: parse_command split: list.splits intro: exI [of _ "[''--'']"])
    next
      case 2
      with Cons "1.prems" show ?thesis by (auto simp: parse_command)
    next
      case 3
      have "length (skip_flags flags rest) < length args" using Cons skip_flags_length [of flags rest] by simp
      moreover have "parse_loop (skip_flags flags rest) None [] = (Some t, parts)" using 3 Cons "1.prems" by simp
      ultimately obtain pre where "skip_flags flags rest = pre @ t # parts" using "1.IH" by blast
      moreover obtain pre' where "rest = pre' @ skip_flags flags rest" using skip_flags_suffix by blast
      ultimately show ?thesis using Cons by (intro exI [of _ "arg # pre' @ pre"]) (metis append.assoc append_Cons)
    qed
  qed
qed

lemma parse_ssh_args_options:
  assumes "list_all option_ok opts"
  shows "option_flags t = None \<Longrightarrow> parse_ssh_args (concat (map option_words opts) @ t # parts)
      = Some \<lparr>ssh_target = t, ssh_command = (if parts = [] then None else Some (join '' '' parts))\<rparr>"
    and "parse_ssh_args (concat (map option_words opts) @ ''--'' # t # parts)
      = Some \<lparr>ssh_target = t, ssh_command = (if parts = [] then None else Some (join '' '' parts))\<rparr>"
proof -
  have "t \<noteq> ''--''" if "option_flags t = None" using that by auto
  then show "option_flags t = None \<Longrightarrow> parse_ssh_args (concat (map option_words opts) @ t # parts)
      = Some \<lparr>ssh_target = t, ssh_command = (if parts = [] then None else Some (join '' '' parts))\<rparr>"
    using parse_options [OF assms] by (auto simp: parse_ssh_args_def parse_command)
  show "parse_ssh_args (concat (map option_words opts) @ ''--'' # t # parts)
      = Some \<lparr>ssh_target = t, ssh_command = (if parts = [] then None else Some (join '' '' parts))\<rparr>"
    using parse_options [OF assms] by (simp add: parse_ssh_args_def parse_command)
qed

section \<open>Properties\<close>

text \<open>
  C32: The command line is read the way ssh reads it.  After any options of ssh (clusters, with
  their argument attached or separate), the next word that is not an option is the target, and
  the command is all words after it joined by spaces, even those that look like options; after
  \<open>--\<close> the target may start with a dash.
\<close>
theorem ssh_args_roundtrip:
  assumes "list_all option_ok opts"
  shows "(option_flags t = None \<longrightarrow>
       parse_ssh_args (concat (map option_words opts) @ t # parts)
         = Some \<lparr>ssh_target = t, ssh_command = (if parts = [] then None else Some (join '' '' parts))\<rparr>)
    \<and> parse_ssh_args (concat (map option_words opts) @ ''--'' # t # parts)
         = Some \<lparr>ssh_target = t, ssh_command = (if parts = [] then None else Some (join '' '' parts))\<rparr>"
  using parse_ssh_args_options [OF assms] by blast

theorem ssh_args_roundtrip_witness:
  "parse_ssh_args [''-C'', ''-p'', ''22'', ''-oBatchMode=yes'', ''-TC'', ''-l'', ''root'', ''eve'', ''uname'', ''-m'']
     = Some \<lparr>ssh_target = ''eve'', ssh_command = Some ''uname -m''\<rparr>"
proof -
  let ?opts = "[Cluster ''C'', Separate [] (CHR ''p'') ''22'', Attached [] (CHR ''o'') ''BatchMode=yes'', Cluster ''TC'',
    Separate [] (CHR ''l'') ''root'']"
  have "list_all option_ok ?opts" by (simp add: known_flags_def NO_ARG_def WITH_ARG_def)
  from ssh_args_roundtrip [OF this, of "''eve''" "[''uname'', ''-m'']"] show ?thesis by simp
qed

end
