(* ===== verification/ClientMain.thy ===== *)
theory ClientMain
  imports ClientOidc SshArgs
begin

text \<open>
  The client program around \<open>run_exec\<close>: the configuration file and the paths it uses, how a
  target's token and transport are chosen (\<open>src/client/src/lib.rs\<close>, \<open>src/client/src/channel.rs\<close>),
  and \<open>main\<close> (\<open>src/client/src/main.rs\<close>).
\<close>

section \<open>Paths\<close>

text \<open>\<open>Path::with_extension\<close> on Unix paths with a file name.\<close>

definition file_stem :: "string \<Rightarrow> string" where
  "file_stem f = (case rsplit_once (CHR ''.'') f of Some (a # as, _) \<Rightarrow> a # as | _ \<Rightarrow> f)"

definition with_extension :: "string \<Rightarrow> string \<Rightarrow> string" where
  "with_extension p ext =
     (case rsplit_once (CHR ''/'') p of
        Some (dir, f) \<Rightarrow> dir @ CHR ''/'' # file_stem f @ CHR ''.'' # ext
      | None \<Rightarrow> file_stem p @ CHR ''.'' # ext)"

text \<open>The environment variables the client reads.\<close>

definition env_or_empty :: "string option \<Rightarrow> string" where
  "env_or_empty v = (case v of Some s \<Rightarrow> s | None \<Rightarrow> [])"

definition default_config_path :: "(string \<Rightarrow> string option) \<Rightarrow> string" where
  "default_config_path getenv =
     (let base = (case getenv ''XDG_CONFIG_HOME'' of
                    Some d \<Rightarrow> d
                  | None \<Rightarrow> path_join (env_or_empty (getenv ''HOME'')) ''.config'')
      in path_join (path_join base ''herdr-eternal'') ''config.toml'')"

definition token_cache_path :: "(string \<Rightarrow> string option) \<Rightarrow> string \<Rightarrow> string" where
  "token_cache_path getenv name =
     (let base = (case getenv ''XDG_STATE_HOME'' of
                    Some d \<Rightarrow> d
                  | None \<Rightarrow> path_join (path_join (env_or_empty (getenv ''HOME'')) ''.local'') ''state'')
      in path_join (path_join (path_join base ''herdr-eternal'') ''tokens'') (name @ ''.json''))"

definition token_lock_path :: "(string \<Rightarrow> string option) \<Rightarrow> string \<Rightarrow> string" where
  "token_lock_path getenv name = with_extension (token_cache_path getenv name) ''lock''"

definition token_tmp_path :: "(string \<Rightarrow> string option) \<Rightarrow> string \<Rightarrow> string" where
  "token_tmp_path getenv name = with_extension (token_cache_path getenv name) ''json.tmp''"

section \<open>Targets\<close>

text \<open>\<open>load_target\<close> on what reading the file gives (\<open>None\<close> for an error) and the TOML parser.\<close>

definition load_target ::
  "(string \<Rightarrow> (string \<Rightarrow> TargetConfig option) option) \<Rightarrow> string option \<Rightarrow> string \<Rightarrow> ClientError + TargetConfig" where
  "load_target toml contents target =
     (case contents of
        None \<Rightarrow> Inl ReadConfig
      | Some text \<Rightarrow>
          (case toml text of
             None \<Rightarrow> Inl ParseConfig
           | Some targets \<Rightarrow>
               (case targets target of Some cfg \<Rightarrow> Inr cfg | None \<Rightarrow> Inl (UnknownTarget target))))"

definition configured_target :: "(string \<Rightarrow> string option) \<Rightarrow> TargetConfig \<Rightarrow> TokenSource \<Rightarrow> Target" where
  "configured_target getenv cfg token =
     (Target_new (tc_url cfg) token)
       \<lparr>tgt_quic_addr := tc_quic_addr cfg, tgt_quic_ca := tc_quic_ca cfg,
        tgt_agent_socket := (if tc_forward_agent cfg then getenv ''SSH_AUTH_SOCK'' else None)\<rparr>"

definition resolve ::
  "'f oidc_codec \<Rightarrow> 'f TokenEnv \<Rightarrow> (string \<Rightarrow> string option) \<Rightarrow> string \<Rightarrow> TargetConfig \<Rightarrow> 'f Disk \<Rightarrow>
   (ClientError + Target) \<times> 'f Disk" where
  "resolve codec env getenv name cfg disk =
     (case tc_token cfg of
        Some token \<Rightarrow> (Inr (configured_target getenv cfg (StaticToken token)), disk)
      | None \<Rightarrow>
          (case oidc_access_token codec env name cfg disk of
             (r, disk') \<Rightarrow> (and_then r (\<lambda>_. Inr (configured_target getenv cfg (OidcToken name))), disk')))"

text \<open>\<open>Target::access_token\<close>; the configuration of an OIDC target is the one it was resolved from.\<close>

definition access_token ::
  "'f oidc_codec \<Rightarrow> 'f TokenEnv \<Rightarrow> TargetConfig \<Rightarrow> Target \<Rightarrow> 'f Disk \<Rightarrow> (ClientError + string) \<times> 'f Disk" where
  "access_token codec env cfg tgt disk =
     (case tgt_token tgt of
        StaticToken token \<Rightarrow> (Inr token, disk)
      | OidcToken name \<Rightarrow> oidc_access_token codec env name cfg disk)"

section \<open>The program\<close>

text \<open>\<open>code.clamp(0, 255) as u8\<close>.\<close>

definition exit_code :: "int \<Rightarrow> u8" where
  "exit_code code = of_int (max 0 (min 255 code))"

definition EXIT_FAILURE :: u8 where "EXIT_FAILURE = 1"
definition EXIT_SUCCESS :: u8 where "EXIT_SUCCESS = 0"

definition exec_main :: "(string \<Rightarrow> string \<Rightarrow> ClientError + int) \<Rightarrow> string list \<Rightarrow> u8" where
  "exec_main run args =
     (case parse_ssh_args args of
        None \<Rightarrow> EXIT_FAILURE
      | Some a \<Rightarrow>
          (case ssh_command a of
             None \<Rightarrow> EXIT_FAILURE
           | Some command \<Rightarrow>
               (case run (ssh_target a) command of Inr code \<Rightarrow> exit_code code | Inl _ \<Rightarrow> EXIT_FAILURE)))"

definition client_main ::
  "(string \<Rightarrow> ClientError + unit) \<Rightarrow> (string \<Rightarrow> string \<Rightarrow> ClientError + int) \<Rightarrow> string list \<Rightarrow> u8" where
  "client_main login run args =
     (if args \<noteq> [] \<and> hd args = ''login''
      then (case tl args of
              [] \<Rightarrow> EXIT_FAILURE
            | target # _ \<Rightarrow> (case login target of Inr _ \<Rightarrow> EXIT_SUCCESS | Inl _ \<Rightarrow> EXIT_FAILURE))
      else exec_main run args)"

text \<open>\<open>login\<close>; \<open>None\<close> while it waits for the user.\<close>

definition login_target ::
  "'f oidc_codec \<Rightarrow> 'f LoginEnv \<Rightarrow> ClientError + TargetConfig \<Rightarrow> string \<Rightarrow> 'f Disk \<Rightarrow> (ClientError + unit) option \<times> 'f Disk" where
  "login_target codec env config name disk =
     (case config of
        Inl e \<Rightarrow> (Some (Inl e), disk)
      | Inr cfg \<Rightarrow> login_with_prompt codec env name cfg disk)"

text \<open>
  \<open>run\<close>: a target that is not logged in is logged in once, and resolved again.  \<open>exec\<close> is
  \<open>run_exec\<close> on the resolved target; \<open>None\<close> while the login waits for the user.
\<close>

definition run_target ::
  "'f oidc_codec \<Rightarrow> 'f TokenEnv \<Rightarrow> bool \<Rightarrow> 'f LoginEnv \<Rightarrow> 'f TokenEnv \<Rightarrow> (string \<Rightarrow> string option) \<Rightarrow>
   (Target \<Rightarrow> string \<Rightarrow> ClientError + int) \<Rightarrow> ClientError + TargetConfig \<Rightarrow> string \<Rightarrow> string \<Rightarrow> 'f Disk \<Rightarrow>
   (ClientError + int) option \<times> 'f Disk" where
  "run_target codec env1 has_tty login_env env2 getenv exec config name command disk =
     (case config of
        Inl e \<Rightarrow> (Some (Inl e), disk)
      | Inr cfg \<Rightarrow>
          (case resolve codec env1 getenv name cfg disk of
             (Inr tgt, disk1) \<Rightarrow> (Some (exec tgt command), disk1)
           | (Inl (NotLoggedIn _), disk1) \<Rightarrow>
               (case login_on_tty codec login_env has_tty name cfg disk1 of
                  (Some (Inr _), disk2) \<Rightarrow>
                    (case resolve codec env2 getenv name cfg disk2 of
                       (r, disk3) \<Rightarrow> (Some (and_then r (\<lambda>tgt. exec tgt command)), disk3))
                | (Some (Inl e), disk2) \<Rightarrow> (Some (Inl e), disk2)
                | (None, disk2) \<Rightarrow> (None, disk2))
           | (Inl e, disk1) \<Rightarrow> (Some (Inl e), disk1)))"

section \<open>Laws\<close>

lemma exit_code_range: "0 \<le> code \<Longrightarrow> code \<le> 255 \<Longrightarrow> unat (exit_code code) = nat code"
proof -
  assume "0 \<le> code" "code \<le> 255"
  then have "uint (of_int code :: u8) = code" by (simp add: uint_word_of_int_eq take_bit_int_eq_self)
  with \<open>0 \<le> code\<close> \<open>code \<le> 255\<close> show ?thesis by (simp add: exit_code_def unat_eq_nat_uint)
qed

section \<open>Properties\<close>

text \<open>
  The client process ends with the exit code of the remote command.  Called with ssh options, a
  target and a command, it runs exactly that command on that target, and a code a process can
  have becomes its own exit status; any error of the run becomes status 1.
\<close>
theorem client_exit_status:
  assumes "list_all option_ok opts" "option_flags target = None" "parts \<noteq> []" "opts = [] \<longrightarrow> target \<noteq> ''login''"
  shows "case run target (join '' '' parts) of
      Inr code \<Rightarrow> 0 \<le> code \<and> code \<le> 255 \<longrightarrow>
        unat (client_main login run (concat (map option_words opts) @ target # parts)) = nat code
    | Inl _ \<Rightarrow> client_main login run (concat (map option_words opts) @ target # parts) = 1"
proof -
  let ?args = "concat (map option_words opts) @ target # parts"
  have "hd ?args \<noteq> ''login''"
  proof (cases opts)
    case (Cons opt rest)
    then show ?thesis by (cases opt) simp_all
  qed (use assms(4) in simp)
  then have "client_main login run ?args = (case run target (join '' '' parts) of Inr code \<Rightarrow> exit_code code | Inl _ \<Rightarrow> EXIT_FAILURE)"
    using parse_ssh_args_options(1) [OF assms(1,2), of parts] assms(3) by (simp add: client_main_def exec_main_def)
  then show ?thesis by (auto simp: exit_code_range EXIT_FAILURE_def split: sum.splits)
qed

theorem client_exit_status_witness:
  "unat (client_main (\<lambda>_. Inr ()) (\<lambda>t c. if t = ''box'' \<and> c = ''ls -l'' then Inr 42 else Inl ConnectionClosed)
     [''-T'', ''box'', ''ls'', ''-l'']) = 42"
proof -
  have "list_all option_ok [Cluster ''T'']" by (simp add: known_flags_def NO_ARG_def)
  from client_exit_status [OF this, where target = "''box''" and parts = "[''ls'', ''-l'']" and login = "\<lambda>_. Inr ()"
      and run = "\<lambda>t c. if t = ''box'' \<and> c = ''ls -l'' then Inr 42 else Inl ConnectionClosed"]
  show ?thesis by simp
qed

end
