(* ===== verification/UnitTests.thy ===== *)
theory UnitTests
  imports ClientMain ClientConn OutboundLog
begin

text \<open>
  The unit tests that stand beside the code (\<open>mod tests\<close> of \<open>proto/src/lib.rs\<close>, \<open>server/src/lib.rs\<close>,
  \<open>client/src/lib.rs\<close>, \<open>client/src/channel.rs\<close> and \<open>client/src/main.rs\<close>), translated to the model.  A test is a truth value;
  an \<open>unwrap\<close> of an error, a failed assertion or a panic makes it false.  Every one of them holds: the
  definitions of this development behave on these inputs as the repository expects of the code.

  Tests that go through a library hold for every library with the behaviour the code relies on, stated as
  premises.
\<close>

section \<open>The wire protocol\<close>

definition channel_message_roundtrip :: "('pe, 'ze, ChannelMessage) codec \<Rightarrow> bool" where
  "channel_message_roundtrip lib =
     (case encode lib (Stdout 42 (bytes_of_text ''hello'')) of
        Inl _ \<Rightarrow> False
      | Inr bs \<Rightarrow>
          (case decode lib bs of
             Inr (Stdout s data) \<Rightarrow> s = 42 \<and> data = bytes_of_text ''hello''
           | _ \<Rightarrow> False))"

text \<open>\<open>slice::chunks\<close>\<close>

function chunks :: "nat \<Rightarrow> 'a list \<Rightarrow> 'a list list" where
  "chunks n xs = (if xs = [] \<or> n = 0 then [] else take n xs # chunks n (drop n xs))"
  by pat_completeness auto
termination by (relation "measure (\<lambda>(n, xs). length xs)") auto

declare chunks.simps [simp del]

definition frame_decoder_reassembles_split_and_coalesced_frames :: "('pe, 'ze, ChannelMessage) codec \<Rightarrow> bool" where
  "frame_decoder_reassembles_split_and_coalesced_frames lib =
     (case (encode_frame lib (Ack 1), encode_frame lib (Stdout 2 (replicate 30000 7))) of
        (Inr a, Inr b) \<Rightarrow>
          (case feed FrameDecoder_new (chunks 1337 (a @ b)) of
             (frames, None, decoder) \<Rightarrow> frames = [drop 4 a, drop 4 b] \<and> fst (next_frame decoder) = Inr None
           | _ \<Rightarrow> False)
      | _ \<Rightarrow> False)"

definition frame_decoder_rejects_oversized_frames :: bool where
  "frame_decoder_rejects_oversized_frames =
     (case next_frame (decoder_push FrameDecoder_new (to_be_bytes (of_nat MAX_FRAME + 1))) of (r, _) \<Rightarrow> isl r)"

definition large_output :: bytes where
  "large_output = concat (replicate 500 (bytes_of_text ''drwxr-xr-x 2 joerg users 4096 ''))"

definition large_output_is_compressed_and_roundtrips :: "('pe, 'ze, ChannelMessage) codec \<Rightarrow> bool" where
  "large_output_is_compressed_and_roundtrips lib =
     (case encode lib (Stdout 9 large_output) of
        Inl _ \<Rightarrow> False
      | Inr bs \<Rightarrow>
          bs \<noteq> [] \<and> hd bs = ENC_ZSTD \<and> length bs < length large_output div 10
          \<and> (case decode lib bs of
               Inr (Stdout s got) \<Rightarrow> s = 9 \<and> got = large_output
             | _ \<Rightarrow> False))"

definition exec_request_roundtrip :: "('pe, 'ze, ExecRequest) codec \<Rightarrow> bool" where
  "exec_request_roundtrip lib =
     (case encode lib (Exec ''/bin/sh -s'' False False) of
        Inl _ \<Rightarrow> False
      | Inr bs \<Rightarrow>
          (case decode lib bs of
             Inr (Exec command resumable forward_agent) \<Rightarrow> command = ''/bin/sh -s'' \<and> \<not> resumable \<and> \<not> forward_agent
           | _ \<Rightarrow> False))"

section \<open>The outbound log\<close>

fun stdout_seq :: "ChannelMessage \<Rightarrow> u64 option" where
  "stdout_seq (Stdout s _) = Some s"
| "stdout_seq _ = None"

definition outbound_log_replays_after_trim :: bool where
  "outbound_log_replays_after_trim =
     (let log = log_trim (fold (\<lambda>s l. log_push l (Stdout (of_nat s) [of_nat s])) [1, 2, 3] OutboundLog_default) 2
      in (\<forall>last_seen \<in> set [0, 2]. length (log_after log last_seen) = 1 \<and> stdout_seq (hd (log_after log last_seen)) = Some 3)
         \<and> log_after log 3 = [])"

section \<open>The client\<close>

definition config_text :: string where
  "config_text =
     ''[targets.workbox]'' @ [CHR 0x0A] @ ''url = '' @ [CHR 0x22] @ ''ws://127.0.0.1:8422'' @ [CHR 0x22, CHR 0x0A]
     @ ''token = '' @ [CHR 0x22] @ ''secret'' @ [CHR 0x22, CHR 0x0A]"

definition load_target_finds_configured_entry :: "(string \<Rightarrow> (string \<Rightarrow> TargetConfig option) option) \<Rightarrow> bool" where
  "load_target_finds_configured_entry toml =
     ((case load_target toml (Some config_text) ''workbox'' of
         Inr target \<Rightarrow> tc_url target = ''ws://127.0.0.1:8422'' \<and> tc_token target = Some ''secret'' \<and> tc_issuer target = None
       | Inl _ \<Rightarrow> False)
      \<and> load_target toml (Some config_text) ''other'' = Inl (UnknownTarget ''other''))"

text \<open>\<open>next\<close> is polled, dropped while it waits within a frame, and polled again.\<close>

definition quic_next_is_cancel_safe :: "('pe, 'ze, ChannelMessage) codec \<Rightarrow> bool" where
  "quic_next_is_cancel_safe lib =
     (case encode_frame lib (Stdout 7 (bytes_of_text ''split across reads'')) of
        Inl _ \<Rightarrow> False
      | Inr frame \<Rightarrow>
          10 \<le> length frame \<and>
          (case conn_quic_next FrameDecoder_new [QChunk (take 10 frame)] of
             (None, decoder, _) \<Rightarrow>
               (case conn_quic_next decoder [QChunk (drop 10 frame)] of
                  (Some (ConnFrame bs), _) \<Rightarrow>
                    (case decode lib bs of Inr m \<Rightarrow> stdout_seq m = Some 7 | Inl _ \<Rightarrow> False)
                | _ \<Rightarrow> False)
           | _ \<Rightarrow> False))"

definition parses_herdr_bootstrap_invocation :: bool where
  "parses_herdr_bootstrap_invocation =
     (parse_ssh_args [''-F'', ''/tmp/cfg'', ''-S'', ''/tmp/ctl'', ''-o'', ''ControlMaster=auto'', ''-o'', ''ControlPersist=yes'', ''-T'',
        ''example'', ''/bin/sh -s'']
      = Some \<lparr>ssh_target = ''example'', ssh_command = Some ''/bin/sh -s''\<rparr>)"

definition parses_target_without_command :: bool where
  "parses_target_without_command =
     (case parse_ssh_args [''-T'', ''user@host''] of
        Some parsed \<Rightarrow> ssh_target parsed = ''user@host'' \<and> ssh_command parsed = None
      | None \<Rightarrow> False)"

definition skips_other_ssh_options :: bool where
  "skips_other_ssh_options =
     (parse_ssh_args [''-C'', ''-p'', ''22'', ''-oBatchMode=yes'', ''-TC'', ''-l'', ''root'', ''eve'', ''uname'', ''-m'']
      = Some \<lparr>ssh_target = ''eve'', ssh_command = Some ''uname -m''\<rparr>)"

definition missing_target_is_rejected :: bool where
  "missing_target_is_rejected = (parse_ssh_args [''-T''] = None)"

section \<open>The tests hold\<close>

lemma concat_chunks: "0 < n \<Longrightarrow> concat (chunks n xs) = xs"
proof (induction n xs rule: chunks.induct)
  case (1 n xs)
  then show ?case by (subst chunks.simps) auto
qed

lemma encode_ok:
  assumes "codec_ok lib m" "to_stdvec lib m = Inr body" "length body < MAX_FRAME"
  obtains bs where "encode lib m = Inr bs" "decode lib bs = Inr m" "length bs \<le> MAX_FRAME" "encode_frame lib m = Inr (frame_of bs)"
    "encode_payload lib body = (hd bs, tl bs)"
proof -
  obtain tag payload where p: "encode_payload lib body = (tag, payload)" by force
  then have e: "encode lib m = Inr (tag # payload)" using assms(2) by (simp add: encode_def)
  moreover have "decode lib (tag # payload) = Inr m" "length (tag # payload) \<le> MAX_FRAME"
    using assms p by (cases lib body rule: encode_payload_cases; auto simp: codec_ok_def)+
  ultimately show ?thesis using p by (intro that [of "tag # payload"]) (simp_all add: encode_frame_def)
qed

lemma messages_survive:
  "codec_ok lib (Stdout 42 (bytes_of_text ''hello'')) \<Longrightarrow> to_stdvec lib (Stdout 42 (bytes_of_text ''hello'')) = Inr body \<Longrightarrow>
   length body < MAX_FRAME \<Longrightarrow> channel_message_roundtrip lib"
  "codec_ok lib' (Exec ''/bin/sh -s'' False False) \<Longrightarrow> to_stdvec lib' (Exec ''/bin/sh -s'' False False) = Inr body' \<Longrightarrow>
   length body' < MAX_FRAME \<Longrightarrow> exec_request_roundtrip lib'"
  by (erule (2) encode_ok, simp add: channel_message_roundtrip_def, erule (2) encode_ok, simp add: exec_request_roundtrip_def)

lemma frames_reassembled:
  assumes "codec_ok lib (Ack 1)" "to_stdvec lib (Ack 1) = Inr body" "length body < MAX_FRAME"
    and "codec_ok lib (Stdout 2 (replicate 30000 7))" "to_stdvec lib (Stdout 2 (replicate 30000 7)) = Inr body'" "length body' < MAX_FRAME"
  shows "frame_decoder_reassembles_split_and_coalesced_frames lib"
proof -
  obtain a where a: "encode_frame lib (Ack 1) = Inr (frame_of a)" "length a \<le> MAX_FRAME" using encode_ok [OF assms(1-3)] by metis
  obtain b where b: "encode_frame lib (Stdout 2 (replicate 30000 7)) = Inr (frame_of b)" "length b \<le> MAX_FRAME"
    using encode_ok [OF assms(4-6)] by metis
  have "concat (chunks 1337 (frame_of a @ frame_of b)) = concat (map frame_of [a, b])" by (simp add: concat_chunks)
  with feed_frames_new [of "[a, b]"] a(2) b(2)
  have "feed FrameDecoder_new (chunks 1337 (frame_of a @ frame_of b)) = ([a, b], None, FrameDecoder_new)" by simp
  moreover have "drop 4 (frame_of x) = x" for x by (simp add: frame_of_def)
  ultimately show ?thesis using a(1) b(1)
    by (simp add: frame_decoder_reassembles_split_and_coalesced_frames_def next_frame_def FrameDecoder_new_def)
qed

lemma oversized_rejected: "frame_decoder_rejects_oversized_frames"
  by (simp add: frame_decoder_rejects_oversized_frames_def next_frame_def decoder_push_def FrameDecoder_new_def MAX_FRAME_def to_be_bytes_def
      from_be_bytes_def)

text \<open>Whether the output is compressed to a tenth is up to \<open>zstd\<close>.\<close>

lemma large_output_survives:
  assumes "codec_ok lib (Stdout 9 large_output)" "to_stdvec lib (Stdout 9 large_output) = Inr body" "length body < MAX_FRAME"
    and "length large_output \<le> length body" "compress lib body 3 = Inr z" "length z + 1 < length large_output div 10"
  shows "large_output_is_compressed_and_roundtrips lib"
proof -
  obtain bs where bs: "encode lib (Stdout 9 large_output) = Inr bs" "decode lib bs = Inr (Stdout 9 large_output)"
    "encode_payload lib body = (hd bs, tl bs)" using encode_ok [OF assms(1-3)] by metis
  have "length large_output = 15000" by (simp add: large_output_def length_concat sum_list_replicate bytes_of_text_def)
  then have "encode_payload lib body = (ENC_ZSTD, z)" using assms(4-6) by (simp add: encode_payload_def COMPRESS_MIN_def)
  moreover have "bs \<noteq> []" using bs(2) by auto
  ultimately have "bs \<noteq> [] \<and> hd bs = ENC_ZSTD \<and> length bs < length large_output div 10" using bs(3) assms(6) by (cases bs) simp_all
  then show ?thesis unfolding large_output_is_compressed_and_roundtrips_def by (simp add: bs(1,2))
qed

lemma log_test: "outbound_log_replays_after_trim"
  by (simp add: outbound_log_replays_after_trim_def log_push_def log_trim_def log_after_def OutboundLog_default_def saturating_sub_def Let_def)

lemma config_test:
  assumes "toml config_text = Some [''workbox'' \<mapsto> cfg]" "tc_url cfg = ''ws://127.0.0.1:8422''" "tc_token cfg = Some ''secret''" "tc_issuer cfg = None"
  shows "load_target_finds_configured_entry toml"
  using assms by (simp add: load_target_finds_configured_entry_def load_target_def)

lemma cancel_test:
  assumes "codec_ok lib (Stdout 7 (bytes_of_text ''split across reads''))" "to_stdvec lib (Stdout 7 (bytes_of_text ''split across reads'')) = Inr body"
    and "length body < MAX_FRAME" "\<And>frame. encode_frame lib (Stdout 7 (bytes_of_text ''split across reads'')) = Inr frame \<Longrightarrow> 10 < length frame"
  shows "quic_next_is_cancel_safe lib"
proof -
  let ?m = "Stdout 7 (bytes_of_text ''split across reads'')"
  obtain bs where bs: "encode_frame lib ?m = Inr (frame_of bs)" "decode lib bs = Inr ?m" "length bs \<le> MAX_FRAME"
    using encode_ok [OF assms(1-3)] by metis
  let ?f = "frame_of bs"
  have l: "10 < length ?f" using assms(4) bs(1) by blast
  have new: "next_frame FrameDecoder_new = (Inr None, FrameDecoder_new)" by (simp add: next_frame_def FrameDecoder_new_def)
  have len: "unat (of_nat (length bs) :: u32) = length bs" using bs(3) by (simp add: unat_of_nat MAX_FRAME_def)
  have half: "next_frame \<lparr>buf = take 10 ?f\<rparr> = (Inr None, \<lparr>buf = take 10 ?f\<rparr>)"
    using bs(3) l len by (simp add: next_frame_def frame_of_def)
  have whole: "next_frame \<lparr>buf = ?f\<rparr> = (Inr (Some bs), \<lparr>buf = []\<rparr>)" using next_frame_frame_of [OF bs(3), of "[]"] by simp
  have "conn_quic_next FrameDecoder_new [QChunk (take 10 ?f)] = (None, \<lparr>buf = take 10 ?f\<rparr>, [])"
    by (simp add: conn_quic_next.simps [of FrameDecoder_new] conn_quic_next.simps [of "\<lparr>buf = take 10 ?f\<rparr>"] new half)
      (simp add: decoder_push_def FrameDecoder_new_def conn_quic_next.simps [of "\<lparr>buf = take 10 ?f\<rparr>"] half)
  moreover have "conn_quic_next \<lparr>buf = take 10 ?f\<rparr> [QChunk (drop 10 ?f)] = (Some (ConnFrame bs), \<lparr>buf = []\<rparr>, [])"
    by (simp add: conn_quic_next.simps [of "\<lparr>buf = take 10 ?f\<rparr>"] half decoder_push_def conn_quic_next.simps [of "\<lparr>buf = ?f\<rparr>"] whole)
  ultimately show ?thesis using bs l by (simp add: quic_next_is_cancel_safe_def)
qed

lemma command_line_tests:
  "parses_herdr_bootstrap_invocation" "parses_target_without_command" "skips_other_ssh_options" "missing_target_is_rejected"
  unfolding parses_herdr_bootstrap_invocation_def parses_target_without_command_def skips_other_ssh_options_def missing_target_is_rejected_def
  by code_simp+

end
