(* ===== verification/TestOidc.thy ===== *)
theory TestOidc
  imports ClientOidc Auth "HOL-Library.Countable"
begin

text \<open>
  The identity provider that comes with the server (\<open>src/server/src/test_oidc.rs\<close>): discovery and key
  documents, tokens signed with its own key, the device grant that approves itself after a number of
  polls, and refresh tokens that may be good for one use only.  Against it the client's login
  (ClientOidc) and the server's verification (Auth) are put together.

  JSON documents are values of \<open>Json\<close>; their text is a parameter \<open>render\<close>.  Signing is a parameter
  \<open>sign\<close>, which stands for \<open>jsonwebtoken::encode\<close> with the header the code gives it and the key of
  the issuer.  Forms are hash maps, as the handler gets them.
\<close>

section \<open>Documents\<close>

datatype Json = JStr string | JNum u64 | JArr "Json list" | JObj "(string \<times> Json) list"

fun json_field :: "string \<Rightarrow> Json \<Rightarrow> Json option" where
  "json_field k (JObj fs) = map_of fs k"
| "json_field k _ = None"

fun json_str :: "Json option \<Rightarrow> string option" where
  "json_str (Some (JStr s)) = Some s"
| "json_str _ = None"

fun json_num :: "Json option \<Rightarrow> u64 option" where
  "json_num (Some (JNum n)) = Some n"
| "json_num _ = None"

text \<open>An optional field: absent, or of the right shape.\<close>

definition json_opt :: "(Json option \<Rightarrow> 'a option) \<Rightarrow> Json option \<Rightarrow> 'a option option" where
  "json_opt get j = (case j of None \<Rightarrow> Some None | Some _ \<Rightarrow> map_option Some (get j))"

text \<open>What the client reads from a document; fields it does not know are ignored.\<close>

definition of_json_discovery :: "Json \<Rightarrow> Discovery option" where
  "of_json_discovery j =
     (case (json_str (json_field ''device_authorization_endpoint'' j), json_str (json_field ''token_endpoint'' j)) of
        (Some d, Some t) \<Rightarrow> Some \<lparr>device_authorization_endpoint = d, token_endpoint = t\<rparr>
      | _ \<Rightarrow> None)"

definition of_json_device :: "Json \<Rightarrow> DeviceAuthorization option" where
  "of_json_device j =
     (case (json_str (json_field ''device_code'' j), json_str (json_field ''user_code'' j),
            json_str (json_field ''verification_uri'' j), json_opt json_str (json_field ''verification_uri_complete'' j),
            json_opt json_num (json_field ''interval'' j), json_num (json_field ''expires_in'' j)) of
        (Some dc, Some uc, Some vu, Some vc, Some i, Some e) \<Rightarrow>
          Some \<lparr>device_code = dc, user_code = uc, verification_uri = vu, verification_uri_complete = vc,
                dev_interval = i, dev_expires_in = e\<rparr>
      | _ \<Rightarrow> None)"

definition of_json_tokens :: "Json \<Rightarrow> TokenResponse option" where
  "of_json_tokens j =
     (case (json_str (json_field ''access_token'' j), json_opt json_str (json_field ''refresh_token'' j),
            json_num (json_field ''expires_in'' j)) of
        (Some a, Some r, Some e) \<Rightarrow> Some \<lparr>access_tok = a, refresh_tok = r, expires_in = e\<rparr>
      | _ \<Rightarrow> None)"

definition of_json_error :: "Json \<Rightarrow> string option" where
  "of_json_error j = json_str (json_field ''error'' j)"

text \<open>What the server reads from the discovery document.\<close>

definition of_json_jwks_uri :: "Json \<Rightarrow> string option" where
  "of_json_jwks_uri j = json_str (json_field ''jwks_uri'' j)"

section \<open>The issuer\<close>

definition KID :: string where "KID = ''test-key''"
definition DEVICE_CODE :: string where "DEVICE_CODE = ''test-device-code''"
definition REFRESH_TOKEN :: string where "REFRESH_TOKEN = ''test-refresh-token''"

record Rotation =
  rot_enabled :: bool
  rot_current :: string
  rot_refreshes :: u32

record DeviceFlow =
  grant_sub :: "string option"
  pending_polls :: u32

definition DeviceFlow_default :: DeviceFlow where
  "DeviceFlow_default = \<lparr>grant_sub = None, pending_polls = 0\<rparr>"

record IssuedClaims =
  issued_iss :: string
  issued_sub :: "string option"
  issued_client_id :: "string option"
  issued_aud :: "string option"
  issued_exp :: u64
  issued_iat :: u64

record FakeIssuer =
  fi_addr :: string
  fi_jwks :: Json
  fi_device_flow :: DeviceFlow
  fi_rotation :: Rotation

text \<open>\<open>start\<close>, on the address of the bound listener and the modulus and exponent of the new key in base64.\<close>

definition jwks_of_key :: "string \<Rightarrow> string \<Rightarrow> Json" where
  "jwks_of_key n e =
     JObj [(''keys'', JArr [JObj [(''kty'', JStr ''RSA''), (''alg'', JStr ''RS256''), (''use'', JStr ''sig''),
                                 (''kid'', JStr KID), (''n'', JStr n), (''e'', JStr e)]])]"

definition FakeIssuer_start :: "string \<Rightarrow> string \<Rightarrow> string \<Rightarrow> FakeIssuer" where
  "FakeIssuer_start addr n e =
     \<lparr>fi_addr = addr, fi_jwks = jwks_of_key n e, fi_device_flow = DeviceFlow_default,
      fi_rotation = \<lparr>rot_enabled = False, rot_current = REFRESH_TOKEN, rot_refreshes = 0\<rparr>\<rparr>"

definition issuer_url :: "FakeIssuer \<Rightarrow> string" where
  "issuer_url fi = ''http://'' @ fi_addr fi"

definition grant_device_flow :: "string \<Rightarrow> u32 \<Rightarrow> FakeIssuer \<Rightarrow> FakeIssuer" where
  "grant_device_flow sub polls fi = fi\<lparr>fi_device_flow := \<lparr>grant_sub = Some sub, pending_polls = polls\<rparr>\<rparr>"

definition rotate_refresh_tokens :: "FakeIssuer \<Rightarrow> FakeIssuer" where
  "rotate_refresh_tokens fi = fi\<lparr>fi_rotation := (fi_rotation fi)\<lparr>rot_enabled := True\<rparr>\<rparr>"

definition refresh_count :: "FakeIssuer \<Rightarrow> u32" where
  "refresh_count fi = rot_refreshes (fi_rotation fi)"

text \<open>\<open>u64::saturating_add_signed\<close> with an \<open>i64\<close>.\<close>

definition saturating_add_signed :: "u64 \<Rightarrow> 64 word \<Rightarrow> u64" where
  "saturating_add_signed a d =
     (let n = int (unat a) + sint d in if n < 0 then 0 else if 2 ^ 64 \<le> n then U64_MAX else word_of_int n)"

text \<open>\<open>Inner::token\<close> at the time \<open>now\<close>, and the tokens the tests ask for.\<close>

definition issuer_token ::
  "(IssuedClaims \<Rightarrow> string) \<Rightarrow> u64 \<Rightarrow> FakeIssuer \<Rightarrow> string option \<Rightarrow> string option \<Rightarrow> string option \<Rightarrow> 64 word \<Rightarrow> string" where
  "issuer_token sign now fi sub client_id audience expires =
     sign \<lparr>issued_iss = issuer_url fi, issued_sub = sub, issued_client_id = client_id, issued_aud = audience,
           issued_exp = saturating_add_signed now expires, issued_iat = now\<rparr>"

definition user_token :: "(IssuedClaims \<Rightarrow> string) \<Rightarrow> u64 \<Rightarrow> FakeIssuer \<Rightarrow> string \<Rightarrow> string \<Rightarrow> 64 word \<Rightarrow> string" where
  "user_token sign now fi sub audience expires = issuer_token sign now fi (Some sub) None (Some audience) expires"

definition client_credentials_token :: "(IssuedClaims \<Rightarrow> string) \<Rightarrow> u64 \<Rightarrow> FakeIssuer \<Rightarrow> string \<Rightarrow> string" where
  "client_credentials_token sign now fi client_id =
     issuer_token sign now fi None (Some client_id) (Some client_id) 300"

definition device_token :: "(IssuedClaims \<Rightarrow> string) \<Rightarrow> u64 \<Rightarrow> FakeIssuer \<Rightarrow> string \<Rightarrow> string \<Rightarrow> string" where
  "device_token sign now fi sub client_id = issuer_token sign now fi (Some sub) (Some client_id) None 3600"

section \<open>Its handlers\<close>

text \<open>A reply is a status with a document or an empty body.\<close>

type_synonym reply = "nat \<times> Json option"

definition discovery_document :: "FakeIssuer \<Rightarrow> Json" where
  "discovery_document fi =
     JObj [(''issuer'', JStr (issuer_url fi)), (''jwks_uri'', JStr (issuer_url fi @ ''/jwks'')),
           (''device_authorization_endpoint'', JStr (issuer_url fi @ ''/device'')),
           (''token_endpoint'', JStr (issuer_url fi @ ''/token''))]"

definition device_authorization :: "FakeIssuer \<Rightarrow> Json" where
  "device_authorization fi =
     JObj [(''device_code'', JStr DEVICE_CODE), (''user_code'', JStr ''TEST-CODE''),
           (''verification_uri'', JStr (issuer_url fi @ ''/verify'')),
           (''verification_uri_complete'', JStr (issuer_url fi @ ''/verify?user_code=TEST-CODE'')),
           (''interval'', JNum 0), (''expires_in'', JNum 300)]"

definition oauth_error :: "string \<Rightarrow> reply" where
  "oauth_error error = (400, Some (JObj [(''error'', JStr error)]))"

definition DEVICE_GRANT :: string where
  "DEVICE_GRANT = ''urn:ietf:params:oauth:grant-type:device_code''"

text \<open>Whom the grant is for: \<open>Inl\<close> is the early return while the user has not approved yet.\<close>

definition grant_subject :: "(string \<rightharpoonup> string) \<Rightarrow> FakeIssuer \<Rightarrow> (reply + string option) \<times> FakeIssuer" where
  "grant_subject form fi =
     (let flow = fi_device_flow fi; rotation = fi_rotation fi
      in if form ''grant_type'' = Some DEVICE_GRANT \<and> form ''device_code'' = Some DEVICE_CODE
         then (if 0 < pending_polls flow
               then (Inl (oauth_error ''authorization_pending''),
                     fi\<lparr>fi_device_flow := flow\<lparr>pending_polls := pending_polls flow - 1\<rparr>\<rparr>)
               else (Inr (grant_sub flow), fi))
         else if form ''grant_type'' = Some ''refresh_token'' \<and> form ''refresh_token'' = Some (rot_current rotation)
         then (Inr (grant_sub flow), fi\<lparr>fi_rotation := rotation\<lparr>rot_refreshes := rot_refreshes rotation + 1\<rparr>\<rparr>)
         else (Inr None, fi))"

definition rotated_token :: "u32 \<Rightarrow> string" where
  "rotated_token n = ''rotated-refresh-token-'' @ show_nat (unat n)"

definition grant_rotation :: "(string \<rightharpoonup> string) \<Rightarrow> Rotation \<Rightarrow> Rotation \<times> string option" where
  "grant_rotation form rotation =
     (if form ''grant_type'' \<noteq> Some ''refresh_token'' then (rotation, Some (rot_current rotation))
      else if rot_enabled rotation
      then (let fresh = rotated_token (rot_refreshes rotation) in (rotation\<lparr>rot_current := fresh\<rparr>, Some fresh))
      else (rotation, None))"

definition token_body :: "string \<Rightarrow> string option \<Rightarrow> Json" where
  "token_body access refresh =
     JObj ([(''access_token'', JStr access), (''token_type'', JStr ''Bearer''), (''expires_in'', JNum 3600)]
           @ (case refresh of Some r \<Rightarrow> [(''refresh_token'', JStr r)] | None \<Rightarrow> []))"

definition token_grant ::
  "(IssuedClaims \<Rightarrow> string) \<Rightarrow> u64 \<Rightarrow> (string \<rightharpoonup> string) \<Rightarrow> FakeIssuer \<Rightarrow> (reply) \<times> FakeIssuer" where
  "token_grant sign now form fi =
     (let client_id = (case form ''client_id'' of Some c \<Rightarrow> c | None \<Rightarrow> [])
      in case grant_subject form fi of
           (Inl reply, fi1) \<Rightarrow> (reply, fi1)
         | (Inr None, fi1) \<Rightarrow> (oauth_error ''invalid_grant'', fi1)
         | (Inr (Some sub), fi1) \<Rightarrow>
             (let access = issuer_token sign now fi1 (Some sub) (Some client_id) None 3600;
                  (rotation, refresh) = grant_rotation form (fi_rotation fi1)
              in ((200, Some (token_body access refresh)), fi1\<lparr>fi_rotation := rotation\<rparr>)))"

text \<open>The routes.  Another path is not found; a known path with the other method is refused.\<close>

definition issuer_get :: "FakeIssuer \<Rightarrow> string \<Rightarrow> reply" where
  "issuer_get fi url =
     (if url = issuer_url fi @ ''/.well-known/openid-configuration'' then (200, Some (discovery_document fi))
      else if url = issuer_url fi @ ''/jwks'' then (200, Some (fi_jwks fi))
      else if url = issuer_url fi @ ''/device'' \<or> url = issuer_url fi @ ''/token'' then (405, None)
      else (404, None))"

definition issuer_post ::
  "(IssuedClaims \<Rightarrow> string) \<Rightarrow> u64 \<Rightarrow> string \<Rightarrow> (string \<rightharpoonup> string) \<Rightarrow> FakeIssuer \<Rightarrow> (reply) \<times> FakeIssuer" where
  "issuer_post sign now url form fi =
     (if url = issuer_url fi @ ''/device'' then ((200, Some (device_authorization fi)), fi)
      else if url = issuer_url fi @ ''/token'' then token_grant sign now form fi
      else if url = issuer_url fi @ ''/.well-known/openid-configuration'' \<or> url = issuer_url fi @ ''/jwks''
      then ((405, None), fi)
      else ((404, None), fi))"


section \<open>Clients of the issuer\<close>

text \<open>What the wire makes of a reply.\<close>

definition http_of :: "(Json \<Rightarrow> string) \<Rightarrow> reply \<Rightarrow> http_reply" where
  "http_of render r =
     Some \<lparr>http_status = fst r, http_retry_after = None, http_body = (case snd r of Some j \<Rightarrow> render j | None \<Rightarrow> [])\<rparr>"

text \<open>The client's JSON codec reads what the issuer renders.\<close>

definition reads_json :: "'f oidc_codec \<Rightarrow> (Json \<Rightarrow> string) \<Rightarrow> bool" where
  "reads_json codec render \<longleftrightarrow>
     (\<forall>j. json_discovery codec (render j) = of_json_discovery j \<and> json_device codec (render j) = of_json_device j
        \<and> json_tokens codec (render j) = of_json_tokens j \<and> json_error codec (render j) = of_json_error j)"

text \<open>
  What the server relies on: requests reach the issuer, whose key set holds its key under its name,
  and the JWT library accepts what the issuer signed while it is not expired, with its claims.
\<close>

definition ok_json :: "reply \<Rightarrow> Json option" where
  "ok_json r = (if is_error_status (fst r) then None else snd r)"

definition claims_of :: "IssuedClaims \<Rightarrow> Claims" where
  "claims_of c =
     \<lparr>claim_sub = issued_sub c, claim_client_id = issued_client_id c,
      claim_aud = (case issued_aud c of Some a \<Rightarrow> One a | None \<Rightarrow> Missing)\<rparr>"

definition trusts_issuer ::
  "('set, 'jwk, 'key, 'alg) oidc_lib \<Rightarrow> (IssuedClaims \<Rightarrow> string) \<Rightarrow> (Json \<Rightarrow> 'set option) \<Rightarrow> u64 \<Rightarrow> FakeIssuer \<Rightarrow> bool" where
  "trusts_issuer lib sign parse_set now fi \<longleftrightarrow>
     (\<forall>n url. get_discovery lib n url = Option.bind (ok_json (issuer_get fi url)) of_json_jwks_uri)
   \<and> (\<forall>n url. get_jwks lib n url = Option.bind (ok_json (issuer_get fi url)) parse_set)
   \<and> (\<exists>s jwk key rs256. parse_set (fi_jwks fi) = Some s \<and> set_find lib s KID = Some jwk \<and> from_jwk lib jwk = Some key
        \<and> (\<forall>c. decode_header lib (sign c) = Some (rs256, Some KID))
        \<and> (\<forall>c. now < issued_exp c \<longrightarrow> jwt_decode lib (sign c) key rs256 (issued_iss c) = Some (claims_of c)))"

text \<open>The answers to a series of polls, each with the client's and the issuer's clock.\<close>

fun poll_replies ::
  "(Json \<Rightarrow> string) \<Rightarrow> (IssuedClaims \<Rightarrow> string) \<Rightarrow> string \<Rightarrow> (string \<times> string) list \<Rightarrow> (millis \<times> u64) list \<Rightarrow> FakeIssuer \<Rightarrow>
   (millis \<times> http_reply) list \<times> FakeIssuer" where
  "poll_replies render sign url form [] fi = ([], fi)"
| "poll_replies render sign url form ((t, now) # ts) fi =
     (case issuer_post sign now url (map_of form) fi of
        (r, fi1) \<Rightarrow>
          (case poll_replies render sign url form ts fi1 of (rs, fi2) \<Rightarrow> ((t, http_of render r) # rs, fi2)))"

text \<open>
  Processes that need an access token of the same target.  Each read the cache before it asked for the
  lock, and finds the cache as it is when it gets the lock; its clock is read three times, the
  issuer's once.
\<close>

record Process =
  pr_now1 :: u64
  pr_now2 :: u64
  pr_issuer :: u64
  pr_now3 :: u64

definition process_env ::
  "(Json \<Rightarrow> string) \<Rightarrow> (IssuedClaims \<Rightarrow> string) \<Rightarrow> FakeIssuer \<Rightarrow> 'f Disk \<Rightarrow> Process \<Rightarrow> 'f TokenEnv" where
  "process_env render sign fi disk p =
     \<lparr>te_now1 = pr_now1 p, te_lock = None, te_disk = disk, te_now2 = pr_now2 p, te_client = None,
      te_get = (\<lambda>url. http_of render (issuer_get fi url)),
      te_post = (\<lambda>url form. http_of render (fst (issuer_post sign (pr_issuer p) url (map_of form) fi))),
      te_now3 = pr_now3 p, te_fault = None\<rparr>"

text \<open>Whether a call takes the lock, and the request it sends to the token endpoint, if any.\<close>

definition takes_lock :: "'f oidc_codec \<Rightarrow> 'f TokenEnv \<Rightarrow> string \<Rightarrow> TargetConfig \<Rightarrow> 'f Disk \<Rightarrow> bool" where
  "takes_lock codec env name cfg disk =
     (case (oidc_target cfg, load_cached_tokens codec name disk) of
        (Inr _, Inr c) \<Rightarrow> \<not> still_valid (te_now1 env) c \<and> te_lock env = None
      | _ \<Rightarrow> False)"

definition sent_refresh ::
  "'f oidc_codec \<Rightarrow> 'f TokenEnv \<Rightarrow> string \<Rightarrow> TargetConfig \<Rightarrow> 'f Disk \<Rightarrow> (string \<times> (string \<times> string) list) option" where
  "sent_refresh codec env name cfg disk =
     (case (oidc_target cfg, load_cached_tokens codec name (te_disk env)) of
        (Inr (issuer, client_id), Inr c) \<Rightarrow>
          (case (cached_refresh c, discover codec (te_get env) issuer) of
             (Some refresh, Inr d) \<Rightarrow>
               if takes_lock codec env name cfg disk \<and> \<not> still_valid (te_now2 env) c \<and> te_client env = None
               then Some (token_endpoint d, refresh_form refresh client_id) else None
           | _ \<Rightarrow> None)
      | _ \<Rightarrow> None)"

text \<open>The calls of several processes, in the order in which they get the lock.  All of them read the
  cache \<open>seen\<close> first.\<close>

fun run_processes ::
  "'f oidc_codec \<Rightarrow> (Json \<Rightarrow> string) \<Rightarrow> (IssuedClaims \<Rightarrow> string) \<Rightarrow> string \<Rightarrow> TargetConfig \<Rightarrow> 'f Disk \<Rightarrow> Process list \<Rightarrow>
   'f Disk \<Rightarrow> FakeIssuer \<Rightarrow> (ClientError + string) list \<times> 'f Disk \<times> FakeIssuer" where
  "run_processes codec render sign name cfg seen [] disk fi = ([], disk, fi)"
| "run_processes codec render sign name cfg seen (p # ps) disk fi =
     (let env = process_env render sign fi disk p;
          (r, disk1) = oidc_access_token codec env name cfg seen;
          disk2 = (if takes_lock codec env name cfg seen then disk1 else disk);
          fi2 = (case sent_refresh codec env name cfg seen of
                   Some (url, form) \<Rightarrow> snd (issuer_post sign (pr_issuer p) url (map_of form) fi)
                 | None \<Rightarrow> fi);
          (rs, disk3, fi3) = run_processes codec render sign name cfg seen ps disk2 fi2
      in (r # rs, disk3, fi3))"

text \<open>A call inside the connect attempt of \<open>run_exec\<close> that the connect timeout drops after its request was
  answered and before the tokens are stored.\<close>

definition cancelled_call ::
  "'f oidc_codec \<Rightarrow> (Json \<Rightarrow> string) \<Rightarrow> (IssuedClaims \<Rightarrow> string) \<Rightarrow> string \<Rightarrow> TargetConfig \<Rightarrow> Process \<Rightarrow>
   'f Disk \<Rightarrow> FakeIssuer \<Rightarrow> 'f Disk \<times> FakeIssuer" where
  "cancelled_call codec render sign name cfg p disk fi =
     (case sent_refresh codec (process_env render sign fi disk p) name cfg disk of
        Some (url, form) \<Rightarrow> (disk, snd (issuer_post sign (pr_issuer p) url (map_of form) fi))
      | None \<Rightarrow> (disk, fi))"

section \<open>Laws\<close>

text \<open>\<open>sent_refresh\<close> is the only request of the call that changes the issuer: its result depends on the
  token endpoint at that request alone.\<close>

lemma sent_refresh_adequate:
  assumes "\<forall>url form. sent_refresh codec env name cfg disk = Some (url, form) \<longrightarrow> post url form = te_post env url form"
  shows "oidc_access_token codec (env\<lparr>te_post := post\<rparr>) name cfg disk = oidc_access_token codec env name cfg disk"
  using assms
  by (auto simp: oidc_access_token_def locked_access_token_def refresh_request_def sent_refresh_def takes_lock_def and_then_def
      split: sum.splits option.splits prod.splits)

lemma route_distinct [simp]:
  "u @ ''/device'' \<noteq> u @ ''/token''" "u @ ''/jwks'' \<noteq> u @ ''/.well-known/openid-configuration''"
  by simp_all

lemma discover_issuer:
  assumes "reads_json codec render" "oidc_discovery_url (issuer_url fi) = issuer_url fi @ ''/.well-known/openid-configuration''"
  shows "discover codec (\<lambda>url. http_of render (issuer_get fi url)) (issuer_url fi)
    = Inr \<lparr>device_authorization_endpoint = issuer_url fi @ ''/device'', token_endpoint = issuer_url fi @ ''/token''\<rparr>"
  using assms
  by (simp add: discover_def http_of_def issuer_get_def is_error_status_def reads_json_def of_json_discovery_def discovery_document_def)


text \<open>The device grant: pending until the polls are used up, then tokens for the configured user.\<close>

definition device_tokens :: "(IssuedClaims \<Rightarrow> string) \<Rightarrow> u64 \<Rightarrow> FakeIssuer \<Rightarrow> string \<Rightarrow> string \<Rightarrow> TokenResponse" where
  "device_tokens sign now fi sub client_id =
     \<lparr>access_tok = device_token sign now fi sub client_id, refresh_tok = Some (rot_current (fi_rotation fi)), expires_in = 3600\<rparr>"

lemma poll_form_fields:
  "map_of (poll_form code client_id) ''grant_type'' = Some DEVICE_GRANT"
  "map_of (poll_form code client_id) ''device_code'' = Some code"
  "map_of (poll_form code client_id) ''client_id'' = Some client_id"
  by (simp_all add: poll_form_def DEVICE_GRANT_def)

lemma token_grant_pending:
  assumes "0 < pending_polls (fi_device_flow fi)"
  shows "token_grant sign now (map_of (poll_form DEVICE_CODE client_id)) fi
    = (oauth_error ''authorization_pending'',
       fi\<lparr>fi_device_flow := (fi_device_flow fi)\<lparr>pending_polls := pending_polls (fi_device_flow fi) - 1\<rparr>\<rparr>)"
  using assms by (simp add: token_grant_def grant_subject_def poll_form_fields Let_def)

lemma token_grant_device:
  assumes "pending_polls (fi_device_flow fi) = 0" "grant_sub (fi_device_flow fi) = Some sub"
  shows "token_grant sign now (map_of (poll_form DEVICE_CODE client_id)) fi
    = ((200, Some (token_body (device_token sign now fi sub client_id) (Some (rot_current (fi_rotation fi))))), fi)"
  using assms
  by (simp add: token_grant_def grant_subject_def poll_form_fields Let_def grant_rotation_def device_token_def DEVICE_GRANT_def)

lemma token_request_tokens:
  assumes "reads_json codec render"
  shows "token_request codec (json_tokens codec) url (http_of render (200, Some (token_body a r)))
    = Inr (Inr \<lparr>access_tok = a, refresh_tok = r, expires_in = 3600\<rparr>)"
  using assms
  by (cases r) (simp_all add: token_request_def http_of_def is_client_error_def is_error_status_def reads_json_def
      of_json_tokens_def token_body_def json_opt_def)

lemma token_request_error:
  assumes "reads_json codec render"
  shows "token_request codec parse url (http_of render (oauth_error e)) = Inr (Inl e)"
  using assms
  by (simp add: token_request_def http_of_def is_client_error_def reads_json_def of_json_error_def oauth_error_def)

lemma poll_loop_issuer:
  assumes "reads_json codec render" "grant_sub (fi_device_flow fi) = Some sub"
    and "unat (pending_polls (fi_device_flow fi)) < length ts" "\<forall>(t, now) \<in> set ts. t \<le> deadline"
  shows "snd (poll_loop deadline 0
      (map (\<lambda>(now, reply). (now, token_request codec (json_tokens codec) (issuer_url fi @ ''/token'') reply))
        (fst (poll_replies render sign (issuer_url fi @ ''/token'') (poll_form DEVICE_CODE client_id) ts fi))))
    = Some (Inr (device_tokens sign (snd (ts ! unat (pending_polls (fi_device_flow fi)))) fi sub client_id))"
  using assms(2-4)
proof (induction ts arbitrary: fi)
  case (Cons x ts)
  obtain t now where x: "x = (t, now)" by force
  let ?p = "pending_polls (fi_device_flow fi)"
  show ?case
  proof (cases "?p = 0")
    case True
    with Cons.prems(1) x show ?thesis
      by (simp add: issuer_post_def token_grant_device split_beta token_request_tokens [OF assms(1)] poll_step_def device_tokens_def)
  next
    case False
    then have p: "0 < ?p" by (simp add: word_gt_0)
    define fi1 where "fi1 = fi\<lparr>fi_device_flow := (fi_device_flow fi)\<lparr>pending_polls := ?p - 1\<rparr>\<rparr>"
    have u: "unat ?p = Suc (unat (?p - 1))" using False by (simp add: unat_gt_0 measure_unat unat_minus_one)
    have same: "issuer_url fi1 = issuer_url fi" "grant_sub (fi_device_flow fi1) = Some sub"
      "pending_polls (fi_device_flow fi1) = ?p - 1" "\<And>n c. device_tokens sign n fi1 sub c = device_tokens sign n fi sub c"
      using Cons.prems(1) by (simp_all add: fi1_def issuer_url_def device_tokens_def device_token_def issuer_token_def)
    have "unat (pending_polls (fi_device_flow fi1)) < length ts" "\<forall>(t, now) \<in> set ts. t \<le> deadline"
      using Cons.prems(2,3) u same(3) by auto
    from Cons.IH [OF same(2) this] show ?thesis using p Cons.prems(3) u x
      by (simp add: issuer_post_def token_grant_pending split_beta token_request_error [OF assms(1)] poll_step_def fi1_def [symmetric] same)
  qed
qed simp


text \<open>The address of a socket does not end in a slash.\<close>

definition addr_ok :: "FakeIssuer \<Rightarrow> bool" where
  "addr_ok fi \<longleftrightarrow> fi_addr fi \<noteq> [] \<and> last (fi_addr fi) \<noteq> CHR ''/''"

lemma trim_issuer_url:
  assumes "addr_ok fi"
  shows "trim_end_matches CHR ''/'' (issuer_url fi) = issuer_url fi"
proof -
  obtain a c where "fi_addr fi = a @ [c]" "c \<noteq> CHR ''/''" using assms by (cases "fi_addr fi" rule: rev_cases) (auto simp: addr_ok_def)
  then show ?thesis by (simp add: trim_end_matches_def issuer_url_def)
qed

lemma device_request_issuer:
  assumes "reads_json codec render" "le_post env = (\<lambda>url form. http_of render (fst (issuer_post sign now url (map_of form) fi)))"
    and "device_authorization_endpoint d = issuer_url fi @ ''/device''"
  shows "device_request codec env d client_id
    = Inr \<lparr>device_code = DEVICE_CODE, user_code = ''TEST-CODE'', verification_uri = issuer_url fi @ ''/verify'',
           verification_uri_complete = Some (issuer_url fi @ ''/verify?user_code=TEST-CODE''),
           dev_interval = Some 0, dev_expires_in = 300\<rparr>"
  using assms
  by (simp add: device_request_def token_request_def http_of_def issuer_post_def is_client_error_def is_error_status_def
      reads_json_def of_json_device_def device_authorization_def json_opt_def)

text \<open>The server's side: a token the issuer gave to a user passes while it is valid.\<close>

lemma issued_token_verifies:
  assumes "trusts_issuer lib sign parse_set now fi" "addr_ok fi" "cfg_issuer cfg = issuer_url fi"
    and "now < issued_exp c" "issued_iss c = issuer_url fi"
    and "check_audience cfg (claims_of c) = Inr ()" "jwks st = None"
  shows "\<exists>st'. verify lib \<lparr>static_token = None, oidc = Some cfg\<rparr> (sign c) st = (check_subject cfg (claims_of c), st')"
proof -
  from assms(1) obtain s jwk key rs256 where t: "parse_set (fi_jwks fi) = Some s" "set_find lib s KID = Some jwk"
    "from_jwk lib jwk = Some key" "decode_header lib (sign c) = Some (rs256, Some KID)"
    and d: "jwt_decode lib (sign c) key rs256 (issued_iss c) = Some (claims_of c)"
    using assms(4) unfolding trusts_issuer_def by blast
  have g: "get_discovery lib n (issuer_url fi @ ''/.well-known/openid-configuration'') = Some (issuer_url fi @ ''/jwks'')"
    "get_jwks lib n (issuer_url fi @ ''/jwks'') = Some s" for n
    using assms(1) t(1)
    by (simp_all add: trusts_issuer_def issuer_get_def ok_json_def is_error_status_def of_json_jwks_uri_def discovery_document_def)
  have u: "discovery_url cfg = issuer_url fi @ ''/.well-known/openid-configuration''"
    using trim_issuer_url [OF assms(2)] assms(3) by (simp add: discovery_url_def)
  have "\<exists>st'. decoding_key lib cfg (Some KID) st = (Inr key, st')"
    using assms(7) by (simp add: decoding_key_def load_set_def fetch_jwks_def u g lookup_key_def t)
  then show ?thesis using t(4) d assms(3,5,6) by (auto simp: verify_def oidc_verify_def)
qed


lemma saturating_add_3600: "unat now + 3600 < 2 ^ 64 \<Longrightarrow> saturating_add_signed now 3600 = now + 3600"
proof -
  assume "unat now + 3600 < 2 ^ 64"
  then have "unat now < 18446744073709548016" by simp
  then have "int (unat now) < 18446744073709548016" by linarith
  then have "0 \<le> uint now" "uint now < 18446744073709548016" by simp_all
  moreover from this have "\<not> uint now + 3600 < 0" by linarith
  ultimately show ?thesis by (simp add: saturating_add_signed_def Let_def)
qed

lemma and_then_Inr: "and_then r Inr = r"
  by (cases r) simp_all


text \<open>The client's environment when it logs in with this issuer, polling at the given times.\<close>

definition login_env ::
  "(Json \<Rightarrow> string) \<Rightarrow> (IssuedClaims \<Rightarrow> string) \<Rightarrow> FakeIssuer \<Rightarrow> string \<Rightarrow> millis \<Rightarrow> (millis \<times> u64) list \<Rightarrow> u64 \<Rightarrow> 'f LoginEnv" where
  "login_env render sign fi client_id start ts now =
     \<lparr>le_client = None, le_get = (\<lambda>url. http_of render (issuer_get fi url)),
      le_post = (\<lambda>url form. http_of render (fst (issuer_post sign now url (map_of form) fi))),
      le_prompt1 = None, le_start = start,
      le_polls = fst (poll_replies render sign (issuer_url fi @ ''/token'') (poll_form DEVICE_CODE client_id) ts fi),
      le_now = now, le_fault = None, le_prompt2 = None\<rparr>"

lemma login_with_issuer:
  assumes "reads_json codec render" "addr_ok fi" "grant_sub (fi_device_flow fi) = Some sub"
    and "oidc_target cfg = Inr (issuer_url fi, client_id)"
    and "unat (pending_polls (fi_device_flow fi)) < length ts" "\<forall>(t, _) \<in> set ts. t \<le> start + 300000"
  shows "login_with_prompt codec (login_env render sign fi client_id start ts now) name cfg disk
    = (case store_tokens codec now None (device_tokens sign (snd (ts ! unat (pending_polls (fi_device_flow fi)))) fi sub client_id) disk of
         (r, disk') \<Rightarrow> (Some r, disk'))"
proof -
  let ?env = "login_env render sign fi client_id start ts now"
  have url: "oidc_discovery_url (issuer_url fi) = issuer_url fi @ ''/.well-known/openid-configuration''"
    using trim_issuer_url [OF assms(2)] by (simp add: oidc_discovery_url_def)
  have env: "le_client ?env = None" "le_get ?env = (\<lambda>url. http_of render (issuer_get fi url))" "le_prompt1 ?env = None"
    "le_post ?env = (\<lambda>url form. http_of render (fst (issuer_post sign now url (map_of form) fi)))" "le_prompt2 ?env = None"
    "le_start ?env = start" "le_now ?env = now" "le_fault ?env = None"
    by (simp_all add: login_env_def)
  note poll = poll_loop_issuer [OF assms(1,3,5,6), of sign client_id]
  show ?thesis
    by (simp add: login_with_prompt_def assms(4) env discover_issuer [OF assms(1) url] device_request_issuer [OF assms(1) env(4)]
        poll_tokens_def) (simp add: login_env_def poll finish_login_def split_beta and_then_Inr)
qed


text \<open>What a granted refresh does to the issuer.\<close>

definition issuer_refreshed :: "FakeIssuer \<Rightarrow> FakeIssuer" where
  "issuer_refreshed fi =
     (let r = fi_rotation fi; n = rot_refreshes r + 1
      in fi\<lparr>fi_rotation := r\<lparr>rot_refreshes := n, rot_current := (if rot_enabled r then rotated_token n else rot_current r)\<rparr>\<rparr>)"

lemma refresh_form_fields:
  "map_of (refresh_form refresh client_id) ''grant_type'' = Some ''refresh_token''"
  "map_of (refresh_form refresh client_id) ''refresh_token'' = Some refresh"
  "map_of (refresh_form refresh client_id) ''client_id'' = Some client_id"
  by (simp_all add: refresh_form_def)

lemma token_grant_refresh:
  assumes "grant_sub (fi_device_flow fi) = Some sub"
  shows "token_grant sign now (map_of (refresh_form (rot_current (fi_rotation fi)) client_id)) fi
    = ((200, Some (token_body (device_token sign now fi sub client_id)
          (if rot_enabled (fi_rotation fi) then Some (rot_current (fi_rotation (issuer_refreshed fi))) else None))),
       issuer_refreshed fi)"
  using assms
  by (simp add: token_grant_def grant_subject_def refresh_form_fields Let_def grant_rotation_def device_token_def DEVICE_GRANT_def
      issuer_token_def issuer_url_def issuer_refreshed_def)

lemma token_grant_stale:
  assumes "refresh \<noteq> rot_current (fi_rotation fi)"
  shows "token_grant sign now (map_of (refresh_form refresh client_id)) fi = (oauth_error ''invalid_grant'', fi)"
  using assms by (simp add: token_grant_def grant_subject_def refresh_form_fields Let_def DEVICE_GRANT_def)

lemma issuer_refreshed_simps [simp]:
  "fi_addr (issuer_refreshed fi) = fi_addr fi" "fi_device_flow (issuer_refreshed fi) = fi_device_flow fi"
  "issuer_url (issuer_refreshed fi) = issuer_url fi" "addr_ok (issuer_refreshed fi) = addr_ok fi"
  "refresh_count (issuer_refreshed fi) = refresh_count fi + 1"
  by (simp_all add: issuer_refreshed_def Let_def issuer_url_def addr_ok_def refresh_count_def)

text \<open>The cached refresh token is the one the issuer honours.\<close>

definition honoured :: "'f oidc_codec \<Rightarrow> 'f Disk \<Rightarrow> FakeIssuer \<Rightarrow> bool" where
  "honoured codec disk fi \<longleftrightarrow>
     (\<exists>c. load_tokens codec disk = Inr (Some c) \<and> cached_refresh c = Some (rot_current (fi_rotation fi)))"


lemma oidc_discovery_issuer:
  "addr_ok fi \<Longrightarrow> oidc_discovery_url (issuer_url fi) = issuer_url fi @ ''/.well-known/openid-configuration''"
  by (simp add: oidc_discovery_url_def trim_issuer_url)

lemma process_env_simps [simp]:
  "te_now1 (process_env render sign fi disk p) = pr_now1 p" "te_lock (process_env render sign fi disk p) = None"
  "te_disk (process_env render sign fi disk p) = disk" "te_now2 (process_env render sign fi disk p) = pr_now2 p"
  "te_client (process_env render sign fi disk p) = None" "te_now3 (process_env render sign fi disk p) = pr_now3 p"
  "te_get (process_env render sign fi disk p) = (\<lambda>url. http_of render (issuer_get fi url))"
  "te_post (process_env render sign fi disk p) =
     (\<lambda>url form. http_of render (fst (issuer_post sign (pr_issuer p) url (map_of form) fi)))"
  "te_fault (process_env render sign fi disk p) = None"
  by (simp_all add: process_env_def)

text \<open>A call of a process whose cached token had expired when it looked first.\<close>

lemma process_valid:
  assumes "oidc_target cfg = Inr (issuer, client_id)" "load_tokens codec seen = Inr (Some c0)" "\<not> still_valid (pr_now1 p) c0"
    and "load_tokens codec disk = Inr (Some c)" "still_valid (pr_now2 p) c"
  shows "run_processes codec render sign name cfg seen [p] disk fi = ([Inr (cached_access c)], disk, fi)"
  using assms
  by (simp add: oidc_access_token_def locked_access_token_def sent_refresh_def takes_lock_def load_cached_tokens_def Let_def
      split: sum.splits option.splits)

lemma refresh_request_issuer:
  assumes "reads_json codec render" "addr_ok fi" "grant_sub (fi_device_flow fi) = Some sub"
  shows "refresh_request codec (process_env render sign fi disk p) name (issuer_url fi) client_id (rot_current (fi_rotation fi))
    = Inr \<lparr>access_tok = device_token sign (pr_issuer p) fi sub client_id,
           refresh_tok = Some (rot_current (fi_rotation (issuer_refreshed fi))), expires_in = 3600\<rparr>"
proof -
  have "rot_current (fi_rotation (issuer_refreshed fi)) = rot_current (fi_rotation fi)" if "\<not> rot_enabled (fi_rotation fi)"
    using that by (simp add: issuer_refreshed_def Let_def)
  then show ?thesis
    by (simp add: refresh_request_def discover_issuer [OF assms(1) oidc_discovery_issuer [OF assms(2)]] issuer_post_def
        token_grant_refresh [OF assms(3)] token_request_tokens [OF assms(1)] keep_refresh_def)
qed

lemma process_refresh:
  assumes "reads_json codec render" "faithful_codec codec" "addr_ok fi" "grant_sub (fi_device_flow fi) = Some sub"
    and "oidc_target cfg = Inr (issuer_url fi, client_id)" "load_tokens codec seen = Inr (Some c0)" "\<not> still_valid (pr_now1 p) c0"
    and "load_tokens codec disk = Inr (Some c)" "\<not> still_valid (pr_now2 p) c"
    and "cached_refresh c = Some (rot_current (fi_rotation fi))"
  shows "\<exists>disk'. run_processes codec render sign name cfg seen [p] disk fi
      = ([Inr (device_token sign (pr_issuer p) fi sub client_id)], disk', issuer_refreshed fi)
    \<and> load_tokens codec disk' = Inr (Some \<lparr>cached_access = device_token sign (pr_issuer p) fi sub client_id,
         cached_refresh = Some (rot_current (fi_rotation (issuer_refreshed fi))), expires_at = pr_now3 p + 3600\<rparr>)"
proof -
  let ?env = "process_env render sign fi disk p"
  let ?tokens = "\<lparr>access_tok = device_token sign (pr_issuer p) fi sub client_id,
    refresh_tok = Some (rot_current (fi_rotation (issuer_refreshed fi))), expires_in = 3600\<rparr>"
  obtain disk' where st: "store_tokens codec (pr_now3 p) None ?tokens disk = (Inr (), disk')" by (simp add: store_tokens_def Let_def)
  have load: "load_cached_tokens codec name seen = Inr c0" "load_cached_tokens codec name disk = Inr c"
    using assms(6,8) by (simp_all add: load_cached_iff)
  have call: "oidc_access_token codec ?env name cfg seen = (Inr (access_tok ?tokens), disk')"
    using assms(5,7,9,10) load st refresh_request_issuer [OF assms(1,3,4), of sign disk p name client_id]
    by (simp add: oidc_access_token_def locked_access_token_def)
  have sent: "takes_lock codec ?env name cfg seen"
    "sent_refresh codec ?env name cfg seen = Some (issuer_url fi @ ''/token'', refresh_form (rot_current (fi_rotation fi)) client_id)"
    using assms(5,7,9,10) load discover_issuer [OF assms(1) oidc_discovery_issuer [OF assms(3)]]
    by (simp_all add: takes_lock_def sent_refresh_def)
  have post: "snd (issuer_post sign (pr_issuer p) (issuer_url fi @ ''/token'')
      (map_of (refresh_form (rot_current (fi_rotation fi)) client_id)) fi) = issuer_refreshed fi"
    by (simp add: issuer_post_def token_grant_refresh [OF assms(4)])
  from store_tokens_atomic [OF st assms(2)] show ?thesis by (simp add: call sent post cached_as_def)
qed

lemma run_processes_Cons:
  "run_processes codec render sign name cfg seen (p # ps) disk fi =
     (case run_processes codec render sign name cfg seen [p] disk fi of
        (r, disk1, fi1) \<Rightarrow> (case run_processes codec render sign name cfg seen ps disk1 fi1 of (rs, d, f) \<Rightarrow> (r @ rs, d, f)))"
  by (simp add: Let_def split_beta)


text \<open>Processes that find a valid token under the lock leave everything as it is.\<close>

lemma run_processes_valid:
  assumes "oidc_target cfg = Inr (issuer, client_id)" "load_tokens codec seen = Inr (Some c0)"
    and "load_tokens codec disk = Inr (Some c)" "\<forall>p \<in> set ps. \<not> still_valid (pr_now1 p) c0 \<and> still_valid (pr_now2 p) c"
  shows "run_processes codec render sign name cfg seen ps disk fi = (replicate (length ps) (Inr (cached_access c)), disk, fi)"
  using assms(4)
proof (induction ps)
  case (Cons p ps)
  from Cons.prems have "\<not> still_valid (pr_now1 p) c0" "still_valid (pr_now2 p) c" by simp_all
  from process_valid [OF assms(1,2) this(1) assms(3) this(2), of render sign name fi] Cons show ?case
    unfolding run_processes_Cons [of _ _ _ _ _ _ p ps] by simp
qed simp

lemma still_valid_fresh:
  assumes "unat now + 60 < unat t + 3600" "unat t + 3600 < 2 ^ 64"
  shows "still_valid now \<lparr>cached_access = a, cached_refresh = r, expires_at = t + 3600\<rparr>"
proof -
  have "unat (t + 3600) = unat t + 3600" using assms(2) by (simp add: unat_word_ariths)
  moreover have "unat (now + 60) = unat now + 60" using assms by (simp add: unat_word_ariths)
  ultimately show ?thesis using assms(1) by (simp add: still_valid_def EXPIRY_MARGIN_SECS_def word_less_nat_alt)
qed

text \<open>The refresh token in force is not the one the next refresh will give.  So it is for a new issuer and after every
  refresh.\<close>

definition rotates :: "FakeIssuer \<Rightarrow> bool" where
  "rotates fi \<longleftrightarrow> rot_enabled (fi_rotation fi) \<and> rot_current (fi_rotation fi) \<noteq> rotated_token (rot_refreshes (fi_rotation fi) + 1)"

lemma rotates_start: "rotates (rotate_refresh_tokens (grant_device_flow sub polls (FakeIssuer_start addr n e)))"
  by (simp add: rotates_def rotate_refresh_tokens_def grant_device_flow_def FakeIssuer_start_def REFRESH_TOKEN_def rotated_token_def)

lemma rotates_refreshed: "rotates fi \<Longrightarrow> rotates (issuer_refreshed fi)"
  by (simp add: rotates_def issuer_refreshed_def Let_def rotated_token_def word_unat_eq_iff [symmetric])

lemma refreshed_differs: "rotates fi \<Longrightarrow> rot_current (fi_rotation fi) \<noteq> rot_current (fi_rotation (issuer_refreshed fi))"
  by (simp add: rotates_def issuer_refreshed_def Let_def)

text \<open>A process whose cached refresh token is spent.\<close>

lemma process_stale:
  assumes "reads_json codec render" "addr_ok fi" "oidc_target cfg = Inr (issuer_url fi, client_id)"
    and "load_tokens codec disk = Inr (Some c)" "\<not> still_valid (pr_now1 p) c" "\<not> still_valid (pr_now2 p) c"
    and "cached_refresh c = Some refresh" "refresh \<noteq> rot_current (fi_rotation fi)"
  shows "run_processes codec render sign name cfg disk [p] disk fi = ([Inl (NotLoggedIn name)], disk, fi)"
proof -
  let ?env = "process_env render sign fi disk p"
  have load: "load_cached_tokens codec name disk = Inr c" using assms(4) by (simp add: load_cached_iff)
  note disc = discover_issuer [OF assms(1) oidc_discovery_issuer [OF assms(2)]]
  have req: "refresh_request codec ?env name (issuer_url fi) client_id refresh = Inl (NotLoggedIn name)"
    using assms(8) by (simp add: refresh_request_def disc issuer_post_def token_grant_stale token_request_error [OF assms(1)])
  have call: "oidc_access_token codec ?env name cfg disk = (Inl (NotLoggedIn name), disk)"
    using assms(3,5-7) load req by (simp add: oidc_access_token_def locked_access_token_def)
  have sent: "sent_refresh codec ?env name cfg disk = Some (issuer_url fi @ ''/token'', refresh_form refresh client_id)"
    using assms(3,5-7) load by (simp add: sent_refresh_def takes_lock_def disc)
  have post: "snd (issuer_post sign (pr_issuer p) (issuer_url fi @ ''/token'') (map_of (refresh_form refresh client_id)) fi) = fi"
    using assms(8) by (simp add: issuer_post_def token_grant_stale)
  show ?thesis by (simp add: call sent post Let_def)
qed


text \<open>A concrete codec, JWT library and issuer for the witnesses: documents are written as their number, a
  token is the document of its claims.\<close>

instance Json :: countable
  by countable_datatype

definition demo_render :: "Json \<Rightarrow> string" where
  "demo_render j = show_nat (to_nat j)"

definition demo_parse :: "string \<Rightarrow> Json option" where
  "demo_parse s = map_option from_nat (parse_digits s)"

lemma demo_parse_render [simp]: "demo_parse (demo_render j) = Some j"
  by (simp add: demo_parse_def demo_render_def)

definition json_codec :: "CachedTokens oidc_codec" where
  "json_codec = \<lparr>json_discovery = (\<lambda>s. Option.bind (demo_parse s) of_json_discovery),
     json_device = (\<lambda>s. Option.bind (demo_parse s) of_json_device), json_tokens = (\<lambda>s. Option.bind (demo_parse s) of_json_tokens),
     json_error = (\<lambda>s. Option.bind (demo_parse s) of_json_error), to_file = (\<lambda>c. c), of_file = Some\<rparr>"

lemma json_codec_ok: "reads_json json_codec demo_render" "faithful_codec json_codec"
  by (simp_all add: reads_json_def faithful_codec_def json_codec_def)

fun json_of_opt :: "string option \<Rightarrow> Json" where
  "json_of_opt (Some s) = JStr s"
| "json_of_opt None = JArr []"

definition demo_sign :: "IssuedClaims \<Rightarrow> string" where
  "demo_sign c = demo_render (JArr [JStr (issued_iss c), json_of_opt (issued_sub c), json_of_opt (issued_client_id c),
     json_of_opt (issued_aud c), JNum (issued_exp c)])"

definition demo_decode :: "u64 \<Rightarrow> string \<Rightarrow> string \<Rightarrow> Claims option" where
  "demo_decode now iss token =
     (case demo_parse token of
        Some (JArr [JStr i, s, c, a, JNum e]) \<Rightarrow>
          if i = iss \<and> now < e
          then Some \<lparr>claim_sub = json_str (Some s), claim_client_id = json_str (Some c),
                     claim_aud = (case json_str (Some a) of Some x \<Rightarrow> One x | None \<Rightarrow> Missing)\<rparr>
          else None
      | _ \<Rightarrow> None)"

lemma json_str_of_opt [simp]: "json_str (Some (json_of_opt x)) = x"
  by (cases x) simp_all

definition jwt_lib :: "u64 \<Rightarrow> FakeIssuer \<Rightarrow> (Json, unit, unit, unit) oidc_lib" where
  "jwt_lib now fi = \<lparr>decode_header = (\<lambda>_. Some ((), Some KID)), set_find = (\<lambda>_ k. if k = KID then Some () else None),
     set_first = (\<lambda>_. None), from_jwk = Some, jwt_decode = (\<lambda>t _ _ iss. demo_decode now iss t),
     get_discovery = (\<lambda>_ url. Option.bind (ok_json (issuer_get fi url)) of_json_jwks_uri),
     get_jwks = (\<lambda>_ url. Option.bind (ok_json (issuer_get fi url)) Some)\<rparr>"

lemma jwt_lib_trusts: "trusts_issuer (jwt_lib now fi) demo_sign Some now fi"
  by (simp add: trusts_issuer_def jwt_lib_def demo_decode_def demo_sign_def claims_of_def)

definition demo_issuer :: FakeIssuer where
  "demo_issuer = rotate_refresh_tokens (grant_device_flow ''joe'' 1 (FakeIssuer_start ''127.0.0.1:4000'' ''n'' ''e''))"

lemma demo_issuer_simps [simp]:
  "addr_ok demo_issuer" "grant_sub (fi_device_flow demo_issuer) = Some ''joe''" "pending_polls (fi_device_flow demo_issuer) = 1"
  "rot_current (fi_rotation demo_issuer) = REFRESH_TOKEN" "rotates demo_issuer" "refresh_count demo_issuer = 0"
  by (simp_all add: demo_issuer_def addr_ok_def rotate_refresh_tokens_def grant_device_flow_def FakeIssuer_start_def
      refresh_count_def rotates_def rotated_token_def REFRESH_TOKEN_def)

definition demo_target :: TargetConfig where
  "demo_target = ClientOidc.demo_cfg\<lparr>tc_issuer := Some (issuer_url demo_issuer), tc_client_id := Some ''app''\<rparr>"

definition demo_server_cfg :: OidcConfig where
  "demo_server_cfg = \<lparr>cfg_issuer = issuer_url demo_issuer, cfg_client_id = ''app'', cfg_allowed_sub = ''joe''\<rparr>"

definition demo_cached :: CachedTokens where
  "demo_cached = \<lparr>cached_access = ''old'', cached_refresh = Some REFRESH_TOKEN, expires_at = 500\<rparr>"

definition demo_cache :: "CachedTokens Disk" where
  "demo_cache = \<lparr>cache_file = Contents demo_cached, tmp_file = NoFile\<rparr>"

definition demo_process :: Process where
  "demo_process = \<lparr>pr_now1 = 1000, pr_now2 = 1000, pr_issuer = 1000, pr_now3 = 1001\<rparr>"

lemma demo_process_simps [simp]:
  "tc_issuer demo_target = Some (issuer_url demo_issuer)" "tc_client_id demo_target = Some ''app''"
  "load_tokens json_codec demo_cache = Inr (Some demo_cached)" "cached_refresh demo_cached = Some REFRESH_TOKEN"
  "pr_now1 demo_process = 1000" "pr_now2 demo_process = 1000" "pr_now3 demo_process = 1001" "\<not> still_valid 1000 demo_cached"
  by (simp_all add: demo_target_def load_tokens_def json_codec_def demo_cache_def demo_cached_def demo_process_def
      still_valid_def EXPIRY_MARGIN_SECS_def)

section \<open>Properties\<close>

text \<open>
  C15: Logging in works from end to end.  Against the issuer the client's device-code login succeeds
  once the user has approved, whatever number of polls that takes, and caches a refresh token the
  issuer honours; and the server that trusts the issuer admits the cached access token exactly when
  it was issued for the allowed subject.  The polls must fall into the life time of the device code, the server must be
  configured for the same client, have no keys cached yet, and check the token before it expires.
\<close>
theorem device_login_accepted:
  assumes "reads_json codec render" "faithful_codec codec" "addr_ok fi" "trusts_issuer lib sign parse_set server_now fi"
    and "grant_sub (fi_device_flow fi) = Some sub" "tc_issuer cfg = Some (issuer_url fi)" "tc_client_id cfg = Some client_id"
    and "unat (pending_polls (fi_device_flow fi)) < length ts" "\<forall>(t, _) \<in> set ts. t \<le> start + 300000"
    and "granted = snd (ts ! unat (pending_polls (fi_device_flow fi)))" "unat granted + 3600 < 2 ^ 64" "server_now < granted + 3600"
    and "cfg_issuer scfg = issuer_url fi" "cfg_client_id scfg = client_id" "jwks st = None"
  shows "\<exists>disk' c st'. login_with_prompt codec (login_env render sign fi client_id start ts now) name cfg disk = (Some (Inr ()), disk')
    \<and> load_tokens codec disk' = Inr (Some c) \<and> cached_refresh c = Some (rot_current (fi_rotation fi))
    \<and> verify lib \<lparr>static_token = None, oidc = Some scfg\<rparr> (cached_access c) st
        = (if sub = cfg_allowed_sub scfg then Inr () else Inl (SubNotAllowed sub), st')"
proof -
  let ?tokens = "device_tokens sign granted fi sub client_id"
  let ?c = "\<lparr>issued_iss = issuer_url fi, issued_sub = Some sub, issued_client_id = Some client_id, issued_aud = None,
             issued_exp = granted + 3600, issued_iat = granted\<rparr>"
  have target: "oidc_target cfg = Inr (issuer_url fi, client_id)" using assms(6,7) by (simp add: oidc_target_def)
  obtain disk' where store: "store_tokens codec now None ?tokens disk = (Inr (), disk')" by (simp add: store_tokens_def Let_def)
  have login: "login_with_prompt codec (login_env render sign fi client_id start ts now) name cfg disk = (Some (Inr ()), disk')"
    using login_with_issuer [OF assms(1,3,5) target assms(8,9), of sign now name disk] store assms(10) by simp
  have tok: "access_tok ?tokens = sign ?c" "refresh_tok ?tokens = Some (rot_current (fi_rotation fi))"
    using assms(11) by (simp_all add: device_tokens_def device_token_def issuer_token_def saturating_add_3600)
  have cached: "cached_as codec now ?tokens disk'" using store_tokens_atomic [OF store assms(2)] by simp
  have "\<exists>st'. verify lib \<lparr>static_token = None, oidc = Some scfg\<rparr> (sign ?c) st = (check_subject scfg (claims_of ?c), st')"
    by (rule issued_token_verifies [OF assms(4,3,13)]) (use assms in \<open>simp_all add: check_audience_def claims_of_def\<close>)
  then show ?thesis using login cached tok by (auto simp: cached_as_def check_subject_def claims_of_def)
qed

theorem device_login_accepted_witness:
  "\<exists>disk' c st'. login_with_prompt json_codec (login_env demo_render demo_sign demo_issuer ''app'' 0 [(0, 1000), (1, 1005)] 1005)
        ''n'' demo_target demo_cache = (Some (Inr ()), disk')
    \<and> load_tokens json_codec disk' = Inr (Some c) \<and> cached_refresh c = Some REFRESH_TOKEN
    \<and> verify (jwt_lib 2000 demo_issuer) \<lparr>static_token = None, oidc = Some demo_server_cfg\<rparr> (cached_access c)
        \<lparr>jwks = None, warned_missing_aud = False, requests = 0\<rparr> = (Inr (), st')"
  using device_login_accepted [where codec = json_codec and render = demo_render and fi = demo_issuer and sign = demo_sign
      and lib = "jwt_lib 2000 demo_issuer" and parse_set = Some and server_now = 2000 and sub = "''joe''" and cfg = demo_target
      and client_id = "''app''" and ts = "[(0, 1000), (1, 1005)]" and start = 0 and granted = 1005 and scfg = demo_server_cfg
      and st = "\<lparr>jwks = None, warned_missing_aud = False, requests = 0\<rparr>" and now = 1005 and name = "''n''" and disk = demo_cache]
  by (simp add: json_codec_ok jwt_lib_trusts demo_server_cfg_def)

text \<open>
  C16: Refresh tokens that are good for one use survive concurrent clients.  However many processes
  have found the cached access token expired and wait for the lock, exactly one refresh reaches the
  issuer, all of them get the same fresh token, and the refresh token in the cache afterwards is the one
  the issuer honours, whether it rotates them or not.
\<close>
theorem concurrent_refresh_once:
  assumes "reads_json codec render" "faithful_codec codec" "addr_ok fi" "grant_sub (fi_device_flow fi) = Some sub"
    and "tc_issuer cfg = Some (issuer_url fi)" "tc_client_id cfg = Some client_id"
    and "load_tokens codec disk = Inr (Some c)" "cached_refresh c = Some (rot_current (fi_rotation fi))"
    and "\<forall>q \<in> set (p # ps). \<not> still_valid (pr_now1 q) c" "\<not> still_valid (pr_now2 p) c"
    and "unat (pr_now3 p) + 3600 < 2 ^ 64" "\<forall>q \<in> set ps. unat (pr_now2 q) + 60 < unat (pr_now3 p) + 3600"
  shows "\<exists>disk' fi'. run_processes codec render sign name cfg disk (p # ps) disk fi
      = (replicate (Suc (length ps)) (Inr (device_token sign (pr_issuer p) fi sub client_id)), disk', fi')
    \<and> refresh_count fi' = refresh_count fi + 1 \<and> honoured codec disk' fi'"
proof -
  have target: "oidc_target cfg = Inr (issuer_url fi, client_id)" using assms(5,6) by (simp add: oidc_target_def)
  let ?c = "\<lparr>cached_access = device_token sign (pr_issuer p) fi sub client_id,
    cached_refresh = Some (rot_current (fi_rotation (issuer_refreshed fi))), expires_at = pr_now3 p + 3600\<rparr>"
  have "\<not> still_valid (pr_now1 p) c" using assms(9) by simp
  from process_refresh [OF assms(1-4) target assms(7) this assms(7,10,8), of sign name]
  obtain disk' where first: "run_processes codec render sign name cfg disk [p] disk fi = ([Inr (cached_access ?c)], disk', issuer_refreshed fi)"
    and load: "load_tokens codec disk' = Inr (Some ?c)" by auto
  have "\<forall>q \<in> set ps. \<not> still_valid (pr_now1 q) c \<and> still_valid (pr_now2 q) ?c"
    using assms(9,11,12) still_valid_fresh by simp
  from run_processes_valid [OF target assms(7) load this, of render sign name "issuer_refreshed fi"] first load show ?thesis
    unfolding run_processes_Cons [of _ _ _ _ _ _ p ps] by (simp add: honoured_def)
qed

theorem concurrent_refresh_once_witness:
  "\<exists>disk' fi' tok. run_processes json_codec demo_render demo_sign ''n'' demo_target demo_cache
        [demo_process, demo_process, demo_process] demo_cache demo_issuer = ([Inr tok, Inr tok, Inr tok], disk', fi')
    \<and> refresh_count fi' = 1 \<and> honoured json_codec disk' fi'"
  using concurrent_refresh_once [where codec = json_codec and render = demo_render and fi = demo_issuer and sign = demo_sign
      and sub = "''joe''" and cfg = demo_target and client_id = "''app''" and disk = demo_cache and c = demo_cached
      and p = demo_process and ps = "[demo_process, demo_process]" and name = "''n''"]
  by (auto simp: json_codec_ok)

text \<open>
  C37: A connect timeout can log the user out.  When the provider rotates refresh tokens and the timeout of a
  connect attempt drops the refresh after the provider answered it, every later call is told that the
  user is not logged in, for any number of processes and whatever the clocks, until a new login.
\<close>
theorem cancelled_refresh_logs_out:
  assumes "reads_json codec render" "addr_ok fi" "grant_sub (fi_device_flow fi) = Some sub" "rotates fi"
    and "tc_issuer cfg = Some (issuer_url fi)" "tc_client_id cfg = Some client_id"
    and "load_tokens codec disk = Inr (Some c)" "cached_refresh c = Some (rot_current (fi_rotation fi))"
    and "\<forall>q \<in> set (p # ps). \<not> still_valid (pr_now1 q) c \<and> \<not> still_valid (pr_now2 q) c"
    and "cancelled_call codec render sign name cfg p disk fi = (disk', fi')"
  shows "honoured codec disk fi
    \<and> run_processes codec render sign name cfg disk' ps disk' fi' = (replicate (length ps) (Inl (NotLoggedIn name)), disk', fi')"
proof -
  have target: "oidc_target cfg = Inr (issuer_url fi, client_id)" using assms(5,6) by (simp add: oidc_target_def)
  have load: "load_cached_tokens codec name disk = Inr c" using assms(7) by (simp add: load_cached_iff)
  have "sent_refresh codec (process_env render sign fi disk p) name cfg disk
      = Some (issuer_url fi @ ''/token'', refresh_form (rot_current (fi_rotation fi)) client_id)"
    using assms(8,9) load target discover_issuer [OF assms(1) oidc_discovery_issuer [OF assms(2)]]
    by (simp add: sent_refresh_def takes_lock_def)
  then have r: "disk' = disk" "fi' = issuer_refreshed fi"
    using assms(10) by (simp_all add: cancelled_call_def issuer_post_def token_grant_refresh [OF assms(3)])
  have url: "oidc_target cfg = Inr (issuer_url fi', client_id)" "addr_ok fi'" using target assms(2) r by simp_all
  have old: "rot_current (fi_rotation fi) \<noteq> rot_current (fi_rotation fi')" using refreshed_differs [OF assms(4)] r by simp
  have "run_processes codec render sign name cfg disk ps disk fi' = (replicate (length ps) (Inl (NotLoggedIn name)), disk, fi')"
    if "\<forall>q \<in> set ps. \<not> still_valid (pr_now1 q) c \<and> \<not> still_valid (pr_now2 q) c" for ps
    using that
  proof (induction ps)
    case (Cons q qs)
    from Cons.prems have "\<not> still_valid (pr_now1 q) c" "\<not> still_valid (pr_now2 q) c" by simp_all
    from process_stale [OF assms(1) url(2,1) assms(7) this assms(8) old, of sign name] Cons show ?case
      unfolding run_processes_Cons [of _ _ _ _ _ _ q qs] by simp
  qed simp
  then show ?thesis using assms(7-9) r by (simp add: honoured_def)
qed

theorem cancelled_refresh_logs_out_witness:
  "\<exists>disk' fi'. cancelled_call json_codec demo_render demo_sign ''n'' demo_target demo_process demo_cache demo_issuer = (disk', fi')
    \<and> run_processes json_codec demo_render demo_sign ''n'' demo_target disk' [demo_process] disk' fi' = ([Inl (NotLoggedIn ''n'')], disk', fi')"
proof -
  obtain disk' fi' where "cancelled_call json_codec demo_render demo_sign ''n'' demo_target demo_process demo_cache demo_issuer = (disk', fi')"
    by force
  with cancelled_refresh_logs_out [where codec = json_codec and render = demo_render and fi = demo_issuer and sign = demo_sign
      and sub = "''joe''" and cfg = demo_target and client_id = "''app''" and disk = demo_cache and c = demo_cached
      and p = demo_process and ps = "[demo_process]" and name = "''n''" and disk' = disk' and fi' = fi']
  show ?thesis by (simp add: json_codec_ok)
qed

end
