(* ===== verification/Spec2Isabelle.thy ===== *)
theory Spec2Isabelle
  imports SystemSpec SystemLive AgentRun Fleet Latency UnitTests TestOidc
begin

text \<open>
  \<^bold>\<open>herdr-eternal\<close> is a resumable transport for remote exec sessions: a client that is called like
  \<open>ssh\<close> runs a command on a server, and the session survives lost connections, changes of network and
  restarts of the server's daemon without losing or repeating a byte in either direction.  This
  development models the three crates of the repository (\<open>src/proto\<close>, \<open>src/server\<close>, \<open>src/client\<close>)
  and proves what makes that promise true, and where the code falls short of it.

  \<^bold>\<open>How the program works.\<close>  The server authenticates a connection, starts the command in a session
  with pipes for stdin, stdout, stderr and the exit code, and registers it under a resume token.  A
  task per session reads the pipes and appends numbered messages to an outbound log; each attached
  connection sends the log from where its client is and forwards the client's messages to the task.
  The client numbers what it reads from stdin and keeps it until it is acknowledged.  After a lost
  connection the client reconnects with the token and the number of the last message it wrote.  On
  SIGTERM the daemon puts the pipes of its sessions into the systemd fd store and their state into a
  file, and the next daemon continues them.  Beside that an SSH agent can be forwarded over a
  connection of its own, and access tokens come from an OIDC provider.

  \<^bold>\<open>The theories.\<close>

  \<^item> Prelude: machine types, results, saturating and big-endian arithmetic, list facts.  StdText: the
    text functions of the standard library the sources use.
  \<^item> Proto (\<open>proto/src/lib.rs\<close>): messages, \<open>encode\<close>, \<open>decode\<close>, frames, \<open>FrameDecoder\<close>.  Round trips,
    cancel safety, bounded buffering.
  \<^item> Link: what a resumable stream needs, as the locales \<open>dedup\<close> (the receiver), \<open>replay_buffer\<close> (the
    sender) and \<open>resumable_link\<close>; a replay brings the receiver exactly up to date.  Interpreted on the
    outbound log, the client's resend list, \<open>is_next\<close> and the stdin check of the session task.
  \<^item> OutboundLog, SessionTask, Registry, Spawn, Attach, Handover (\<open>server/src/lib.rs\<close>): the log, the
    select loop of \<open>session_task\<close>, sessions with their guard, registry and expiry, the start of a
    command, \<open>handle_connection\<close> and \<open>attach\<close>, \<open>handover_sessions\<close> and \<open>restore_sessions\<close>.
  \<^item> Auth (\<open>server/src/auth.rs\<close>): the pre-shared token and OIDC tokens with the key cache.
  \<^item> Channel, ClientConn (\<open>server/src/channel.rs\<close>, \<open>client/src/channel.rs\<close>): reading, sending and
    opening connections over WebSocket and QUIC.
  \<^item> Client (\<open>client/src/lib.rs\<close>): \<open>run_exec\<close> with its connect, resume and attached phases.
  \<^item> System: one session end to end, as a step relation over the definitions above.  SystemOutput
    and SystemInput: the invariants of the two directions and what follows for the bytes.
    SystemSpec: the specification, reliable pipes with a result, and the simulation (locale
    \<open>simulation\<close>) that shows the system refines it.  SystemLive: from every state a client can still
    get everything.
  \<^item> ServerMain, ServerRun (\<open>server/src/main.rs\<close>, \<open>server/src/lib.rs\<close>): options, inherited
    descriptors, configuration, the start of the daemon, its accept loop and its end, and a restart
    across two instances.
  \<^item> ServerLive: a running daemon with all its sessions and connections as a step relation in which the
    two actions of every guard and the two halves of a sweep are steps of their own; its state is well
    formed after every step, and a resumable session is given up only when it is done or its detach
    time was found too long ago.  Isolation: sessions do not interfere, by unwinding (locale \<open>unwinding\<close>, interpreted for
    every session of the daemon): any run can be replayed without the other sessions and looks the same.
  \<^item> SystemToken, Fleet: the clients of all sessions and the daemon they share, end to end, with one
    registry, one sweep and one restart.  The part of a session is at every moment a reachable state of
    System, and a step of anybody is a step of System or nothing for it, so that each client has its
    reliable pipes whatever the others do.
  \<^item> TlsQuic (\<open>client/src/tls.rs\<close>, \<open>server/src/quic.rs\<close>, \<open>server/src/lib.rs\<close>): trust anchors, the QUIC
    listener, the remaining constructors and setters of \<open>Server\<close>, \<open>serve_quic\<close>.
  \<^item> SshArgs, ClientMain (\<open>client/src/main.rs\<close>, \<open>client/src/lib.rs\<close>): the command line, the
    configuration file, targets, \<open>main\<close>.  ClientOidc (\<open>client/src/oidc.rs\<close>): login, token cache,
    refresh.
  \<^item> TestOidc (\<open>server/src/test_oidc.rs\<close>): the identity provider that comes with the server, and with it
    login, refresh and verification put together: client, provider and server.
  \<^item> Agent, AgentLink, AgentRun (\<open>server/src/agent.rs\<close>, \<open>client/src/agent.rs\<close>): the hub and the relay as
    interpretations of the locale \<open>agent_demux\<close>, both ends of a channel as a step relation, and the
    loops of the code, whose turns are steps of that relation.
  \<^item> Latency (\<open>client/examples/latency.rs\<close>): the benchmark over the client, the server and \<open>ssh\<close>, with its
    panics; its percentiles have the ranks they claim, and its bulk measurement counts the bytes the
    command wrote.  UnitTests: the unit tests of the crates over the model, each shown to hold.

  \<^bold>\<open>How code becomes definitions.\<close>  A struct is a record, an enum a datatype, \<open>u64\<close> a 64-bit word with
  its wrap-around, a \<open>Result\<close> a sum with the error on the left.  An async function with a \<open>select!\<close>
  loop is a function of its state and one event; what the operating system, the network or a library
  returns is part of the event or an argument.  Library code is a parameter: \<open>postcard\<close> and \<open>zstd\<close> are
  the record \<open>codec\<close> with the law \<open>codec_ok\<close>, JSON files and OIDC replies the record \<open>oidc_codec\<close> with
  the law \<open>faithful_codec\<close>, \<open>jsonwebtoken\<close> and \<open>reqwest\<close> the record \<open>oidc_lib\<close> with the law
  \<open>trusts_issuer\<close> where tokens of the test provider are checked, the certificate store \<open>TlsEnv\<close> with the
  law \<open>store_laws\<close>.  Tasks that share state
  are step relations in which every order of their atomic actions is possible; ghost fields (\<open>gh_\<close>,
  \<open>gs_\<close>, \<open>gc_\<close>) record what the outside saw.  In System \<open>gh_lost\<close> says that the send of a freshly
  read chunk has failed, which the code does not recover from, and \<open>gh_epipe\<close> that a write to the
  child has failed.

  \<^bold>\<open>What is shown.\<close>  End to end: what the client writes is a prefix of what the child wrote, what the
  child gets is a prefix of what the client read, nothing is held back when the connection is quiet,
  the exit code comes after all output, the log and the resend list always hold what the other side
  misses, the whole system refines reliable pipes, and no state of a registered session is a dead end.
  For a daemon with many sessions: its state is well formed at every moment, sessions are isolated from each
  other over whole runs, none is given up before it is done or was found expired, and for each of its clients the daemon refines
  reliable pipes.  For login: the device-code login gives a token the server
  admits for the allowed subject only, and concurrent refreshes cost one refresh and keep the login.  For the
  components: authentication before any effect, soundness of token checks, exactness of the
  log, of expiry, of handover and of a restart under systemd, of agent streams and of the channels,
  round trips of encodings and command lines, termination of the login, bounds on buffers, requests and
  connect times.  And failures of the code: a lost chunk after a failed send, the race of the attach
  guard, sessions lost in a restart or after a failed accept, sessions that leak, orphaned agent
  streams, a blank token file, a connect timeout that logs the user out, a benchmark of no iterations.

  \<^bold>\<open>Bounds and fuel.\<close>  The end-to-end theorems ask for fewer than 2^64 - 2 messages per direction,
  since sequence numbers wrap; those on agent streams for fewer than 2^64 streams.  \<open>next_loop\<close> has
  fuel; any number above that of the frames and datagrams received is enough, and the theorems say so.
  All other functions are total; loops that wait for the world (\<open>serve_loop\<close>, \<open>poll_loop\<close>) run over the
  list of what happens and return \<open>None\<close> while they still wait.

  \<^bold>\<open>Not modelled.\<close>  Opening sockets, TLS and QUIC handshakes and signatures, which are library calls and appear
  as possible results; logging and the text the benchmark prints; the integration tests, which drive the programs over
  loopback sockets.  Relays of a client agent channel whose connection is gone end on their own and are
  left out, as is a login that runs beside a refresh of the same target.  In System and Fleet
  the sweep may give up any session at any time, attached or not, so that nothing there depends on detach
  times, and a guard is created or dropped in one step; its single actions, and the sweep that first collects
  and then acts, are in ServerLive, where a sweep may also begin before the last one is done.  In Fleet the
  handover of all sessions and their restore are one step, after which a session has its old number again
  (ServerRun has the steps of a restart one by one), and the connections that carry agent traffic are
  left out; in ServerLive they appear as holders of a guard (AgentLink has what they carry).  A task that does
  not answer the handover in time loses its session in System and Fleet; the theorem on a restart under
  systemd is about those that answer, with all descriptors stored.  ServerLive asks for fewer than 2^64 - 2
  messages in a session's log.
\<close>

end
